(* ===== verification/Prelude.thy ===== *)
theory Prelude
  imports Main "HOL-Library.Word"
begin

text \<open>
  Shared vocabulary of the development: the C integer types of \<^verbatim>\<open>types.h\<close> as
  words, the outcomes of kernel code that does not return normally, a small
  state-and-halt monad in which the stateful kernel functions are written, the
  search loops over static tables that most of the kernel uses, and the generic
  lemmas the component theories share.
\<close>

unbundle bit_operations_syntax

subsection \<open>Machine types\<close>

text \<open>\<^verbatim>\<open>types.h\<close>: \<open>uchar\<close>, \<open>ushort\<close> and \<open>uint\<close> keep their width and wrap around.\<close>

type_synonym byte = "8 word"
type_synonym ushort = "16 word"
type_synonym uint = "32 word"

subsection \<open>Sleep channels and abnormal outcomes\<close>

text \<open>
  The channels kernel code sleeps on (the \<open>void *chan\<close> argument of \<open>sleep\<close> and
  \<open>wakeup\<close>). The C code uses addresses; every address used as a channel is one
  constructor here, indexed by the slot of the table the object lives in.
\<close>

datatype chan =
    ChanProc nat        \<comment> \<open>\<open>struct proc\<close>, used by \<open>wait\<close>/\<open>exit\<close>\<close>
  | ChanBufLock nat     \<comment> \<open>the sleep lock of a buffer\<close>
  | ChanBuf nat         \<comment> \<open>a buffer being transferred by the disk driver\<close>
  | ChanInodeLock nat   \<comment> \<open>the sleep lock of an in-memory inode\<close>
  | ChanLog             \<comment> \<open>\<open>&log\<close>\<close>
  | ChanPipeRead uint   \<comment> \<open>\<open>&p->nread\<close> of the pipe at an address\<close>
  | ChanPipeWrite uint  \<comment> \<open>\<open>&p->nwrite\<close>\<close>
  | ChanTicks           \<comment> \<open>\<open>&ticks\<close>\<close>
  | ChanInput           \<comment> \<open>\<open>&input.r\<close> of the console\<close>

text \<open>
  Kernel code either returns, calls \<open>panic\<close>, or gives up the processor in
  \<open>sleep\<close> until another thread of control makes progress. Two more outcomes have no
  defined meaning in C: an access outside an array or through a null pointer, and a loop
  that never ends.
\<close>

datatype halt = Panic string | Sleeps chan | OutOfBounds | Diverges

type_synonym ('s, 'a) kernel = "'s \<Rightarrow> halt + 'a \<times> 's"

definition ret :: "'a \<Rightarrow> ('s, 'a) kernel" where
  "ret x s = Inr (x, s)"

definition bnd :: "('s, 'a) kernel \<Rightarrow> ('a \<Rightarrow> ('s, 'b) kernel) \<Rightarrow> ('s, 'b) kernel" where
  "bnd f g s = (case f s of Inl h \<Rightarrow> Inl h | Inr (x, s') \<Rightarrow> g x s')"

definition panic :: "string \<Rightarrow> ('s, 'a) kernel" where
  "panic msg s = Inl (Panic msg)"

definition sleeps :: "chan \<Rightarrow> ('s, 'a) kernel" where
  "sleeps c s = Inl (Sleeps c)"

definition stuck :: "halt \<Rightarrow> ('s, 'a) kernel" where
  "stuck h s = Inl h"

definition fetch :: "('s \<Rightarrow> 'a) \<Rightarrow> ('s, 'a) kernel" where
  "fetch f s = Inr (f s, s)"

definition modify :: "('s \<Rightarrow> 's) \<Rightarrow> ('s, unit) kernel" where
  "modify f s = Inr ((), f s)"

definition whenk :: "bool \<Rightarrow> ('s, unit) kernel \<Rightarrow> ('s, unit) kernel" where
  "whenk b f s = (if b then f s else Inr ((), s))"

text \<open>
  Total correctness of a run: \<open>wp f Q s\<close> holds when \<open>f\<close> returns from \<open>s\<close>, without
  panic and without sleeping, with a result and a state that satisfy \<open>Q\<close>.
\<close>

definition wp :: "('s, 'a) kernel \<Rightarrow> ('a \<Rightarrow> 's \<Rightarrow> bool) \<Rightarrow> 's \<Rightarrow> bool" where
  "wp f Q s = (case f s of Inl h \<Rightarrow> False | Inr (x, s') \<Rightarrow> Q x s')"

named_theorems wp_simps \<open>weakest preconditions of the monad's operations\<close>
named_theorems run_simps \<open>the monad's operations applied to a state\<close>

lemma ret_run [run_simps]: "ret x s = Inr (x, s)"
  by (simp add: ret_def)

lemma panic_run [run_simps]: "panic msg s = Inl (Panic msg)"
  by (simp add: panic_def)

lemma sleeps_run [run_simps]: "sleeps c s = Inl (Sleeps c)"
  by (simp add: sleeps_def)

lemma stuck_run [run_simps]: "stuck h s = Inl h"
  by (simp add: stuck_def)

lemma fetch_run [run_simps]: "fetch f s = Inr (f s, s)"
  by (simp add: fetch_def)

lemma modify_run [run_simps]: "modify f s = Inr ((), f s)"
  by (simp add: modify_def)

lemma whenk_run [run_simps]: "whenk b f s = (if b then f s else Inr ((), s))"
  by (simp add: whenk_def)

lemma bnd_run [run_simps]:
  "f s = Inr (x, s') \<Longrightarrow> bnd f g s = g x s'"
  "f s = Inl h \<Longrightarrow> bnd f g s = Inl h"
  by (simp_all add: bnd_def)

lemma bnd_assoc: "bnd (bnd f g) h = bnd f (\<lambda>x. bnd (g x) h)"
  by (rule ext) (simp add: bnd_def split: sum.split prod.split)

lemma wp_ret [wp_simps]: "wp (ret x) Q = Q x"
  by (rule ext) (simp add: wp_def ret_def)

lemma wp_bnd [wp_simps]: "wp (bnd f g) Q = wp f (\<lambda>x. wp (g x) Q)"
  by (rule ext) (simp add: wp_def bnd_def split: sum.split prod.split)

lemma wp_panic [wp_simps]: "wp (panic msg) Q = (\<lambda>_. False)"
  by (rule ext) (simp add: wp_def panic_def)

lemma wp_sleeps [wp_simps]: "wp (sleeps c) Q = (\<lambda>_. False)"
  by (rule ext) (simp add: wp_def sleeps_def)

lemma wp_stuck [wp_simps]: "wp (stuck h) Q = (\<lambda>_. False)"
  by (rule ext) (simp add: wp_def stuck_def)

lemma wp_fetch [wp_simps]: "wp (fetch f) Q = (\<lambda>s. Q (f s) s)"
  by (rule ext) (simp add: wp_def fetch_def)

lemma wp_modify [wp_simps]: "wp (modify f) Q = (\<lambda>s. Q () (f s))"
  by (rule ext) (simp add: wp_def modify_def)

lemma wp_whenk [wp_simps]: "wp (whenk b f) Q = (\<lambda>s. if b then wp f Q s else Q () s)"
  by (rule ext) (simp add: wp_def whenk_def)

lemma wp_if [wp_simps]: "wp (if b then f else g) Q = (if b then wp f Q else wp g Q)"
  by simp

lemma wpI: "f s = Inr (x, s') \<Longrightarrow> Q x s' \<Longrightarrow> wp f Q s"
  by (simp add: wp_def)

lemma wp_iff: "wp f Q s \<longleftrightarrow> (\<exists>x s'. f s = Inr (x, s') \<and> Q x s')"
  by (simp add: wp_def split: sum.split prod.split)

lemma wp_mono: "wp f P s \<Longrightarrow> (\<And>x s'. P x s' \<Longrightarrow> Q x s') \<Longrightarrow> wp f Q s"
  by (auto simp: wp_iff)

lemma wp_bndI: "wp f P s \<Longrightarrow> (\<And>x s'. P x s' \<Longrightarrow> wp (g x) Q s') \<Longrightarrow> wp (bnd f g) Q s"
  by (auto simp: wp_bnd elim: wp_mono)

lemma wp_bnd_fetch: "wp (bnd (fetch f) g) Q s = wp (g (f s)) Q s"
  by (simp add: wp_simps)

lemma wp_run_cong: "f s = g s \<Longrightarrow> wp f Q s = wp g Q s"
  by (simp add: wp_def)

lemma wpD: "wp f Q s \<Longrightarrow> f s = Inr (x, s') \<Longrightarrow> Q x s'"
  by (auto simp: wp_iff)

lemma option_eqI: "(\<And>v. x = Some v \<longleftrightarrow> y = Some v) \<Longrightarrow> x = y"
  by (cases x; cases y) auto

lemma map_leD: "m \<subseteq>\<^sub>m m' \<Longrightarrow> m k = Some v \<Longrightarrow> m' k = Some v"
  by (metis domI map_le_def)

lemma map_leI: "(\<And>k v. m k = Some v \<Longrightarrow> m' k = Some v) \<Longrightarrow> m \<subseteq>\<^sub>m m'"
  by (metis domD map_le_def)

lemma nth_list_update_if: "i < length xs \<Longrightarrow> xs[j := x] ! i = (if j = i then x else xs ! i)"
  by (simp add: nth_list_update)

subsection \<open>First match in a table\<close>

text \<open>
  The loop \<^verbatim>\<open>for(i = 0; i < N; i++) if(P(tab[i])) ...\<close> that stops at the first entry
  satisfying \<open>P\<close>: its index, or \<open>None\<close> when the loop runs to the end.
\<close>

primrec find_idx :: "('a \<Rightarrow> bool) \<Rightarrow> 'a list \<Rightarrow> nat option" where
  "find_idx P [] = None"
| "find_idx P (x # xs) = (if P x then Some 0 else map_option Suc (find_idx P xs))"

lemma find_idx_Some_iff:
  "find_idx P xs = Some i \<longleftrightarrow> i < length xs \<and> P (xs ! i) \<and> (\<forall>j < i. \<not> P (xs ! j))"
proof (induction xs arbitrary: i)
  case (Cons x xs)
  show ?case
  proof (cases i)
    case 0
    then show ?thesis by auto
  next
    case (Suc k)
    with Cons show ?thesis by (auto simp: less_Suc_eq_0_disj)
  qed
qed simp

lemma find_idx_None_iff: "find_idx P xs = None \<longleftrightarrow> (\<forall>x \<in> set xs. \<not> P x)"
  by (induction xs) auto

lemma find_idx_Some_less: "find_idx P xs = Some i \<Longrightarrow> i < length xs"
  and find_idx_Some_sat: "find_idx P xs = Some i \<Longrightarrow> P (xs ! i)"
  and find_idx_Some_least: "find_idx P xs = Some i \<Longrightarrow> j < i \<Longrightarrow> \<not> P (xs ! j)"
  by (auto simp: find_idx_Some_iff)

lemma find_idx_None_nth: "find_idx P xs = None \<Longrightarrow> i < length xs \<Longrightarrow> \<not> P (xs ! i)"
  by (auto simp: find_idx_None_iff)

lemma find_idx_cong:
  "length xs = length ys \<Longrightarrow> (\<And>i. i < length xs \<Longrightarrow> P (xs ! i) = Q (ys ! i)) \<Longrightarrow>
   find_idx P xs = find_idx Q ys"
proof (induction xs arbitrary: ys)
  case (Cons x xs)
  then obtain y zs where ys: "ys = y # zs" by (cases ys) auto
  have "P x = Q y" using Cons.prems(2)[of 0] ys by simp
  moreover have "find_idx P xs = find_idx Q zs"
  proof (rule Cons.IH)
    show "length xs = length zs" using Cons.prems(1) ys by simp
    show "P (xs ! i) = Q (zs ! i)" if "i < length xs" for i
      using Cons.prems(2)[of "Suc i"] that ys by simp
  qed
  ultimately show ?case using ys by simp
qed simp

lemma find_idx_unique:
  assumes "i < length xs" "P (xs ! i)" "\<And>j. j < length xs \<Longrightarrow> P (xs ! j) \<Longrightarrow> j = i"
  shows "find_idx P xs = Some i"
proof -
  have "\<not> P (xs ! j)" if "j < i" for j
    using assms(1) assms(3)[of j] that by auto
  with assms(1,2) show ?thesis by (simp add: find_idx_Some_iff)
qed


subsection \<open>Loops\<close>

text \<open>A \<^verbatim>\<open>for\<close> loop whose body runs once per element of a list, in order.\<close>

primrec for_each :: "('b \<Rightarrow> ('s, unit) kernel) \<Rightarrow> 'b list \<Rightarrow> ('s, unit) kernel" where
  "for_each f [] = ret ()"
| "for_each f (x # xs) = bnd (f x) (\<lambda>_. for_each f xs)"

lemma for_each_append: "for_each f (xs @ ys) = bnd (for_each f xs) (\<lambda>_. for_each f ys)"
proof (induction xs)
  case Nil
  then show ?case by (auto simp: bnd_def ret_def)
qed (simp add: bnd_assoc)

text \<open>The same for a loop that produces one result per element.\<close>

primrec map_each :: "('b \<Rightarrow> ('s, 'c) kernel) \<Rightarrow> 'b list \<Rightarrow> ('s, 'c list) kernel" where
  "map_each f [] = ret []"
| "map_each f (x # xs) = bnd (f x) (\<lambda>y. bnd (map_each f xs) (\<lambda>ys. ret (y # ys)))"

text \<open>The loop rule: an invariant indexed by the number of iterations done.\<close>

lemma wp_for_upto:
  assumes "I 0 s" "\<And>i s. i < n \<Longrightarrow> I i s \<Longrightarrow> wp (f i) (\<lambda>_. I (Suc i)) s"
  shows "wp (for_each f [0..<n]) (\<lambda>_. I n) s"
  using assms
proof (induction n)
  case 0
  then show ?case by (simp add: wp_ret)
next
  case (Suc n)
  then have "wp (for_each f [0..<n]) (\<lambda>_. I n) s" by simp
  then have "wp (for_each f [0..<n]) (\<lambda>_. wp (f n) (\<lambda>_. I (Suc n))) s"
    using Suc.prems(2)[of n] by (auto elim: wp_mono)
  then show ?case by (simp add: for_each_append wp_simps)
qed

subsection \<open>Parts of the state an operation does not touch\<close>

text \<open>\<open>keeps g f\<close>: whenever \<open>f\<close> returns, the part \<open>g\<close> of the state is what it was.\<close>

definition keeps :: "('s \<Rightarrow> 'v) \<Rightarrow> ('s, 'a) kernel \<Rightarrow> bool" where
  "keeps g f \<longleftrightarrow> (\<forall>s x s'. f s = Inr (x, s') \<longrightarrow> g s' = g s)"

named_theorems keeps_intros \<open>operations and the parts of the state they keep\<close>

lemma keepsD: "keeps g f \<Longrightarrow> f s = Inr (x, s') \<Longrightarrow> g s' = g s"
  by (simp add: keeps_def)

lemma keepsI: "(\<And>s x s'. f s = Inr (x, s') \<Longrightarrow> g s' = g s) \<Longrightarrow> keeps g f"
  by (simp add: keeps_def)

lemma bnd_InrE:
  assumes "bnd f h s = Inr (y, s'')"
  obtains x s' where "f s = Inr (x, s')" "h x s' = Inr (y, s'')"
  using assms by (auto simp: bnd_def split: sum.splits prod.splits)

lemma keeps_ret [keeps_intros]: "keeps g (ret x)"
  and keeps_panic [keeps_intros]: "keeps g (panic msg)"
  and keeps_sleeps [keeps_intros]: "keeps g (sleeps c)"
  and keeps_stuck [keeps_intros]: "keeps g (stuck h)"
  and keeps_fetch [keeps_intros]: "keeps g (fetch h')"
  by (simp_all add: keeps_def run_simps)

lemma keeps_modify [keeps_intros]: "(\<And>s. g (h s) = g s) \<Longrightarrow> keeps g (modify h)"
  by (simp add: keeps_def run_simps)

lemma keeps_bnd [keeps_intros]: "keeps g f \<Longrightarrow> (\<And>x. keeps g (h x)) \<Longrightarrow> keeps g (bnd f h)"
  unfolding keeps_def by (metis bnd_InrE)

lemma keeps_whenk [keeps_intros]: "keeps g f \<Longrightarrow> keeps g (whenk b f)"
  by (simp add: keeps_def run_simps)

lemma keeps_if [keeps_intros]: "keeps g f \<Longrightarrow> keeps g h \<Longrightarrow> keeps g (if b then f else h)"
  by simp

lemma keeps_option [keeps_intros]:
  "keeps g f \<Longrightarrow> (\<And>x. keeps g (h x)) \<Longrightarrow> keeps g (case r of None \<Rightarrow> f | Some x \<Rightarrow> h x)"
  by (simp split: option.split)

lemma keeps_prod [keeps_intros]: "(\<And>x y. keeps g (h x y)) \<Longrightarrow> keeps g (case r of (x, y) \<Rightarrow> h x y)"
  by (simp split: prod.split)

lemma keeps_Let [keeps_intros]: "(\<And>x. keeps g (h x)) \<Longrightarrow> keeps g (let x = a in h x)"
  by simp

lemma keeps_for_each [keeps_intros]: "(\<And>x. keeps g (f x)) \<Longrightarrow> keeps g (for_each f xs)"
  by (induction xs) (auto intro: keeps_ret keeps_bnd)

lemma keeps_map_each [keeps_intros]: "(\<And>x. keeps g (f x)) \<Longrightarrow> keeps g (map_each f xs)"
  by (induction xs) (auto intro!: keeps_ret keeps_bnd)

subsection \<open>Words\<close>

lemma unat_uint_bound: "unat (x :: uint) < 2 ^ 32"
  using unsigned_less[of x] by simp

lemma unat_pred: "x \<noteq> (0 :: uint) \<Longrightarrow> unat (x - 1) = unat x - 1"
  by (simp add: unat_minus_one)

lemma unat_sub_wrap:
  fixes a d :: uint
  assumes "a < d"
  shows "unat (a - d) = 2 ^ 32 - (unat d - unat a)"
  using assms unat_uint_bound[of d]
  by (simp add: word_less_nat_alt unat_sub_if_size word_size)

text \<open>Whether an address lies in a range that does not wrap around.\<close>

lemma in_range_iff:
  fixes a d :: uint
  assumes "unat d + n \<le> 2 ^ 32"
  shows "unat (a - d) < n \<longleftrightarrow> unat d \<le> unat a \<and> unat a < unat d + n"
proof (cases "d \<le> a")
  case True
  then show ?thesis by (auto simp: unat_sub word_le_nat_alt)
next
  case False
  then have "unat (a - d) = 2 ^ 32 - (unat d - unat a)"
    by (intro unat_sub_wrap) simp
  with False assms show ?thesis by (auto simp: word_le_nat_alt)
qed

lemma range_reflect:
  fixes n x :: uint
  shows "unat (n - 1 - x) < unat n \<longleftrightarrow> unat x < unat n"
proof (cases "n = 0")
  case False
  then have n: "unat (n - 1) = unat n - 1" "0 < unat n" by (simp_all add: unat_pred unat_gt_0)
  show ?thesis
  proof (cases "x \<le> n - 1")
    case True
    then show ?thesis using n by (auto simp: unat_sub word_le_nat_alt)
  next
    case outside: False
    then have "unat (n - 1 - x) = 2 ^ 32 - (unat x - unat (n - 1))"
      by (intro unat_sub_wrap) simp
    with outside n unat_uint_bound[of x] show ?thesis by (auto simp: word_le_nat_alt)
  qed
qed simp


text \<open>Little-endian composition of 16- and 32-bit values from bytes.\<close>

definition join16 :: "byte \<Rightarrow> byte \<Rightarrow> ushort" where
  "join16 b0 b1 = ucast b0 OR push_bit 8 (ucast b1)"

definition join32 :: "byte \<Rightarrow> byte \<Rightarrow> byte \<Rightarrow> byte \<Rightarrow> uint" where
  "join32 b0 b1 b2 b3 = ucast b0 OR push_bit 8 (ucast b1) OR push_bit 16 (ucast b2)
     OR push_bit 24 (ucast b3)"

lemma join16_split [simp]: "join16 (ucast w) (ucast (drop_bit 8 w)) = w"
proof (rule bit_word_eqI)
  fix n :: nat
  assume "n < LENGTH(16)"
  then consider "n < 8" | "8 \<le> n" "n < 16" by fastforce
  then show "bit (join16 (ucast w) (ucast (drop_bit 8 w))) n = bit w n"
    by cases (auto simp: join16_def bit_simps)
qed

lemma join32_split [simp]:
  "join32 (ucast w) (ucast (drop_bit 8 w)) (ucast (drop_bit 16 w)) (ucast (drop_bit 24 w)) = w"
proof (rule bit_word_eqI)
  fix n :: nat
  assume "n < LENGTH(32)"
  then consider "n < 8" | "8 \<le> n" "n < 16" | "16 \<le> n" "n < 24" | "24 \<le> n" "n < 32"
    by fastforce
  then show "bit (join32 (ucast w) (ucast (drop_bit 8 w)) (ucast (drop_bit 16 w))
      (ucast (drop_bit 24 w))) n = bit w n"
    by cases (auto simp: join32_def bit_simps)
qed

end
