(* ===== verification/CString.thy ===== *)
theory CString
  imports Prelude
begin

text \<open>
  The byte and string routines of \<^verbatim>\<open>string.c\<close>. A \<open>char *\<close> argument is the list of the
  bytes from the pointer to the end of its object; a byte past that end reads as 0
  (\<open>rd\<close>), so every object carries a terminator. The lemmas \<open>strncmp_append\<close> and
  \<open>strncpy_append\<close> show that this choice is never observable for a buffer that holds
  a NUL or as many bytes as the routine may look at. \<open>memmove\<close> and \<open>memset\<close>, whose
  arguments may overlap or be page addresses, work on the byte-addressed kernel memory.
\<close>

subsection \<open>Strings\<close>

definition rd :: "byte list \<Rightarrow> byte" where
  "rd p = (case p of [] \<Rightarrow> 0 | c # _ \<Rightarrow> c)"

text \<open>The bytes of a string literal; the NUL after them is what \<open>rd\<close> reads past the end.\<close>

definition cbytes :: "string \<Rightarrow> byte list" where
  "cbytes s = map of_char s"

text \<open>The abstract value of a C string: the bytes before the first NUL.\<close>

definition cstr :: "byte list \<Rightarrow> byte list" where
  "cstr p = takeWhile (\<lambda>c. c \<noteq> 0) p"

primrec strncmp :: "byte list \<Rightarrow> byte list \<Rightarrow> nat \<Rightarrow> int" where
  "strncmp p q 0 = 0"
| "strncmp p q (Suc n) =
     (if rd p \<noteq> 0 \<and> rd p = rd q then strncmp (tl p) (tl q) n
      else Word.uint (rd p) - Word.uint (rd q))"

text \<open>The second loop of \<open>strncpy\<close>: the rest of the field is zeroed.\<close>

primrec zero_fill :: "byte list \<Rightarrow> nat \<Rightarrow> byte list" where
  "zero_fill s 0 = s"
| "zero_fill s (Suc n) = 0 # zero_fill (tl s) n"

primrec strncpy :: "byte list \<Rightarrow> byte list \<Rightarrow> nat \<Rightarrow> byte list" where
  "strncpy s t 0 = s"
| "strncpy s t (Suc n) =
     rd t # (if rd t \<noteq> 0 then strncpy (tl s) (tl t) n else zero_fill (tl s) n)"

text \<open>
  \<open>safestrcpy\<close> writes its terminator after the loop has advanced the destination, so a
  short source leaves two NULs. \<open>k\<close> is the value of \<open>n\<close> after the loop's decrement.
\<close>

primrec safestrcpy_loop :: "byte list \<Rightarrow> byte list \<Rightarrow> nat \<Rightarrow> byte list" where
  "safestrcpy_loop s t 0 = 0 # tl s"
| "safestrcpy_loop s t (Suc k) =
     rd t # (if rd t \<noteq> 0 then safestrcpy_loop (tl s) (tl t) k else 0 # tl (tl s))"

definition safestrcpy :: "byte list \<Rightarrow> byte list \<Rightarrow> int \<Rightarrow> byte list" where
  "safestrcpy s t n = (if n \<le> 0 then s else safestrcpy_loop s t (nat (n - 1)))"

primrec strlen :: "byte list \<Rightarrow> nat" where
  "strlen [] = 0"
| "strlen (c # s) = (if c = 0 then 0 else Suc (strlen s))"

primrec memcmp :: "byte list \<Rightarrow> byte list \<Rightarrow> nat \<Rightarrow> int" where
  "memcmp p q 0 = 0"
| "memcmp p q (Suc n) =
     (if rd p \<noteq> rd q then Word.uint (rd p) - Word.uint (rd q) else memcmp (tl p) (tl q) n)"

subsection \<open>Memory\<close>

type_synonym memory = "uint \<Rightarrow> byte"

primrec copy_up :: "memory \<Rightarrow> uint \<Rightarrow> uint \<Rightarrow> nat \<Rightarrow> memory" where
  "copy_up m d s 0 = m"
| "copy_up m d s (Suc n) = copy_up (m(d := m s)) (d + 1) (s + 1) n"

primrec copy_down :: "memory \<Rightarrow> uint \<Rightarrow> uint \<Rightarrow> nat \<Rightarrow> memory" where
  "copy_down m d s 0 = m"
| "copy_down m d s (Suc n) = copy_down (m(d - 1 := m (s - 1))) (d - 1) (s - 1) n"

definition memmove :: "memory \<Rightarrow> uint \<Rightarrow> uint \<Rightarrow> uint \<Rightarrow> memory" where
  "memmove m dst src n =
     (if src < dst \<and> src + n > dst
      then copy_down m (dst + n) (src + n) (unat n)
      else copy_up m dst src (unat n))"

text \<open>Little-endian 32-bit loads and stores.\<close>

definition ld32 :: "memory \<Rightarrow> uint \<Rightarrow> uint" where
  "ld32 m a = join32 (m a) (m (a + 1)) (m (a + 2)) (m (a + 3))"

definition st32 :: "memory \<Rightarrow> uint \<Rightarrow> uint \<Rightarrow> memory" where
  "st32 m a w = m(a := ucast w, a + 1 := ucast (drop_bit 8 w),
     a + 2 := ucast (drop_bit 16 w), a + 3 := ucast (drop_bit 24 w))"

text \<open>The string instructions \<open>stosb\<close> and \<open>stosl\<close> of \<^verbatim>\<open>x86.h\<close>.\<close>

primrec stosb :: "memory \<Rightarrow> uint \<Rightarrow> byte \<Rightarrow> nat \<Rightarrow> memory" where
  "stosb m a c 0 = m"
| "stosb m a c (Suc n) = stosb (m(a := c)) (a + 1) c n"

primrec stosl :: "memory \<Rightarrow> uint \<Rightarrow> uint \<Rightarrow> nat \<Rightarrow> memory" where
  "stosl m a w 0 = m"
| "stosl m a w (Suc n) = stosl (st32 m a w) (a + 4) w n"

definition memset :: "memory \<Rightarrow> uint \<Rightarrow> uint \<Rightarrow> uint \<Rightarrow> memory" where
  "memset m dst c n =
     (if dst mod 4 = 0 \<and> n mod 4 = 0
      then let c = c AND 0xFF
           in stosl m dst (push_bit 24 c OR push_bit 16 c OR push_bit 8 c OR c) (unat (n div 4))
      else stosb m dst (ucast c) (unat n))"

subsection \<open>String lemmas\<close>

lemma rd_simps [simp]: "rd [] = 0" "rd (c # p) = c"
  by (simp_all add: rd_def)

lemma cstr_simps [simp]: "cstr [] = []" "cstr (c # p) = (if c = 0 then [] else c # cstr p)"
  by (simp_all add: cstr_def)

lemma cstr_rd: "cstr p = (if rd p = 0 then [] else rd p # cstr (tl p))"
  by (cases p) auto

lemma rd_nonzero_Cons: "rd p \<noteq> 0 \<Longrightarrow> p = rd p # tl p"
  by (cases p) auto

lemma strlen_cstr: "strlen s = length (cstr s)"
  by (induction s) auto

text \<open>
  \<open>strncmp\<close> answers 0 exactly when the two strings agree on their first \<open>n\<close> bytes.
\<close>

lemma strncmp_zero_iff: "strncmp p q n = 0 \<longleftrightarrow> take n (cstr p) = take n (cstr q)"
proof (induction n arbitrary: p q)
  case (Suc n)
  show ?case
  proof (cases "rd p \<noteq> 0 \<and> rd p = rd q")
    case True
    then have "cstr p = rd p # cstr (tl p)" "cstr q = rd p # cstr (tl q)"
      by (auto simp: cstr_rd[of p] cstr_rd[of q])
    with True Suc show ?thesis by auto
  next
    case False
    moreover have "Word.uint (rd p) - Word.uint (rd q) = 0 \<longleftrightarrow> rd p = rd q"
      by (auto simp: word_uint_eq_iff)
    ultimately show ?thesis by (auto simp: cstr_rd[of p] cstr_rd[of q])
  qed
qed simp

lemma strncmp_refl [simp]: "strncmp p p n = 0"
  by (simp add: strncmp_zero_iff)

lemma strncmp_sym_zero: "strncmp p q n = 0 \<longleftrightarrow> strncmp q p n = 0"
  by (auto simp: strncmp_zero_iff)

lemma strncmp_trans_zero: "strncmp p q n = 0 \<Longrightarrow> strncmp q r n = 0 \<Longrightarrow> strncmp p r n = 0"
  by (simp add: strncmp_zero_iff)

text \<open>Bytes after the terminator, or after the first \<open>n\<close>, are never looked at.\<close>

lemma strncmp_append:
  assumes "0 \<in> set p \<or> n \<le> length p" and "0 \<in> set q \<or> n \<le> length q"
  shows "strncmp (p @ x) (q @ y) n = strncmp p q n"
  using assms
proof (induction n arbitrary: p q)
  case (Suc n)
  then obtain a p' b q' where pq: "p = a # p'" "q = b # q'"
    by (cases p; cases q) auto
  have "strncmp (p' @ x) (q' @ y) n = strncmp p' q' n" if "a \<noteq> 0" "a = b"
    using Suc.prems pq that by (intro Suc.IH) auto
  then show ?case by (simp add: pq)
qed simp

lemma length_zero_fill [simp]: "n \<le> length s \<Longrightarrow> length (zero_fill s n) = length s"
  by (induction n arbitrary: s) auto

lemma zero_fill_eq: "zero_fill s n = replicate n 0 @ drop n s"
  by (induction n arbitrary: s) (auto simp: drop_Suc)

text \<open>\<open>strncpy\<close> fills a field of \<open>n\<close> bytes with the string, truncated or padded with NULs.\<close>

lemma strncpy_eq:
  "strncpy s t n = take n (cstr t) @ replicate (n - length (cstr t)) 0 @ drop n s"
proof (induction n arbitrary: s t)
  case (Suc n)
  show ?case
  proof (cases "rd t = 0")
    case True
    then show ?thesis by (simp add: cstr_rd[of t] zero_fill_eq drop_Suc)
  next
    case False
    then have "cstr t = rd t # cstr (tl t)" by (simp add: cstr_rd[of t])
    with False Suc show ?thesis by (simp add: drop_Suc)
  qed
qed simp

lemma length_strncpy: "n \<le> length s \<Longrightarrow> length (strncpy s t n) = length s"
  by (simp add: strncpy_eq)

lemma cstr_append_nul: "0 \<in> set p \<Longrightarrow> cstr (p @ x) = cstr p"
  by (induction p) auto

lemma cstr_no_nul: "0 \<notin> set p \<Longrightarrow> cstr p = p"
  by (induction p) auto

lemma nul_notin_cstr [simp]: "0 \<notin> set (cstr p)"
  by (auto simp: cstr_def dest: set_takeWhileD)

lemma take_cstr_append: "n \<le> length p \<Longrightarrow> take n (cstr (p @ x)) = take n (cstr p)"
  by (induction p arbitrary: n) (auto simp: take_Cons split: nat.splits)

lemma strncpy_append:
  assumes "0 \<in> set t \<or> n \<le> length t"
  shows "strncpy s (t @ x) n = strncpy s t n"
proof -
  have "strncpy s (t @ x) n = strncpy s t n" if "n \<le> length t"
    using that
  proof (induction n arbitrary: s t)
    case (Suc n)
    then show ?case by (cases t) auto
  qed simp
  with assms show ?thesis by (auto simp: strncpy_eq cstr_append_nul)
qed

lemma cstr_append_noteq: "cstr (p @ q) = (if 0 \<in> set p then cstr p else p @ cstr q)"
  by (induction p) auto

lemma take_cstr_strncpy:
  assumes "n \<le> length s"
  shows "take n (cstr (strncpy s t n)) = take n (cstr t)"
proof (cases "n \<le> length (cstr t)")
  case True
  have "0 \<notin> set (take n (cstr t))"
    using nul_notin_cstr[of t] by (auto dest: in_set_takeD)
  with True show ?thesis by (simp add: strncpy_eq cstr_append_noteq)
next
  case False
  then obtain k where "n - length (cstr t) = Suc k"
    by (metis Suc_diff_Suc not_le)
  with False show ?thesis by (simp add: strncpy_eq cstr_append_noteq)
qed

text \<open>\<open>safestrcpy\<close> stores the truncated string with its terminator inside the buffer.\<close>

lemma length_safestrcpy_loop:
  "k < length s \<Longrightarrow> length (safestrcpy_loop s t k) = length s"
proof (induction k arbitrary: s t)
  case (Suc k)
  then obtain c d s' where s: "s = c # d # s'" by (cases s; cases "tl s") auto
  with Suc show ?case by simp
qed simp

lemma cstr_safestrcpy_loop: "cstr (safestrcpy_loop s t k) = take k (cstr t)"
proof (induction k arbitrary: s t)
  case (Suc k)
  then show ?case by (simp add: cstr_rd[of t])
qed simp

lemma cstr_safestrcpy: "0 < n \<Longrightarrow> cstr (safestrcpy s t n) = take (nat (n - 1)) (cstr t)"
  by (simp add: safestrcpy_def cstr_safestrcpy_loop)

lemma length_safestrcpy: "n \<le> int (length s) \<Longrightarrow> length (safestrcpy s t n) = length s"
  by (simp add: safestrcpy_def length_safestrcpy_loop)

lemma nul_in_safestrcpy_loop:
  "k < length s \<Longrightarrow> 0 \<in> set (take (Suc k) (safestrcpy_loop s t k))"
proof (induction k arbitrary: s t)
  case (Suc k)
  then obtain c s' where "s = c # s'" by (cases s) auto
  with Suc show ?case by simp
qed simp


subsection \<open>Memory lemmas\<close>

text \<open>A forward copy is right when no byte is overwritten before it is read.\<close>

lemma copy_up_eq:
  assumes "n < 2 ^ 32" "d = s \<or> n \<le> unat (d - s)"
  shows "copy_up m d s n = (\<lambda>a. if unat (a - d) < n then m (s + (a - d)) else m a)"
  using assms
proof (induction n arbitrary: m d s)
  case (Suc n)
  let ?m = "m(d := m s)"
  have IH: "copy_up ?m (d + 1) (s + 1) n =
      (\<lambda>a. if unat (a - (d + 1)) < n then ?m (s + 1 + (a - (d + 1))) else ?m a)"
    using Suc.prems by (intro Suc.IH) auto
  show ?case
  proof
    fix a
    show "copy_up m d s (Suc n) a = (if unat (a - d) < Suc n then m (s + (a - d)) else m a)"
    proof (cases "a = d")
      case True
      have "unat (- 1 :: uint) = 2 ^ 32 - 1" by (simp add: unsigned_minus_1_eq_mask mask_eq_exp_minus_1)
      with True Suc.prems show ?thesis by (simp add: IH)
    next
      case False
      then have "unat (a - (d + 1)) = unat (a - d) - 1" "0 < unat (a - d)"
        using unat_pred[of "a - d"] by (simp_all add: unat_gt_0 diff_diff_eq)
      moreover have "s + (a - d) \<noteq> d" if "unat (a - d) < Suc n"
      proof
        assume "s + (a - d) = d"
        then have "a - d = d - s" by (simp add: algebra_simps)
        with Suc.prems that False show False by auto
      qed
      moreover have "s + 1 + (a - (d + 1)) = s + (a - d)" by simp
      ultimately show ?thesis using False by (auto simp: IH)
    qed
  qed
qed simp

text \<open>A backward copy, given the ends of the two ranges, likewise.\<close>

lemma copy_down_eq:
  assumes "n < 2 ^ 32" "d = s \<or> n \<le> unat (s - d)"
  shows "copy_down m d s n = (\<lambda>a. if unat (d - 1 - a) < n then m (s + (a - d)) else m a)"
  using assms
proof (induction n arbitrary: m d s)
  case (Suc n)
  let ?m = "m(d - 1 := m (s - 1))"
  have IH: "copy_down ?m (d - 1) (s - 1) n =
      (\<lambda>a. if unat (d - 1 - 1 - a) < n then ?m (s - 1 + (a - (d - 1))) else ?m a)"
    using Suc.prems by (intro Suc.IH) auto
  show ?case
  proof
    fix a
    show "copy_down m d s (Suc n) a =
        (if unat (d - 1 - a) < Suc n then m (s + (a - d)) else m a)"
    proof (cases "a = d - 1")
      case True
      have "unat (- 1 :: uint) = 2 ^ 32 - 1" by (simp add: unsigned_minus_1_eq_mask mask_eq_exp_minus_1)
      with True Suc.prems show ?thesis by (simp add: IH)
    next
      case False
      then have ne: "d - 1 - a \<noteq> 0" by (simp add: algebra_simps)
      then have "unat (d - 1 - 1 - a) = unat (d - 1 - a) - 1" "0 < unat (d - 1 - a)"
        using unat_pred[of "d - 1 - a"] by (simp_all add: unat_gt_0 algebra_simps)
      moreover have "s + (a - d) \<noteq> d - 1" if "unat (d - 1 - a) < Suc n"
      proof
        assume "s + (a - d) = d - 1"
        then have "d - 1 - a = s - d" by (simp add: algebra_simps)
        with Suc.prems that ne show False by auto
      qed
      moreover have "s - 1 + (a - (d - 1)) = s + (a - d)" by simp
      ultimately show ?thesis using False by (auto simp: IH)
    qed
  qed
qed simp

text \<open>C13. \<open>memmove\<close> copies its source range to its destination range, whatever their
  overlap: after the call each destination byte holds the byte the source held before
  it, and no other byte of memory changes.\<close>

theorem memmove_correct:
  assumes "unat src + unat n < 2 ^ 32" "unat dst + unat n \<le> 2 ^ 32"
  shows "memmove m dst src n =
    (\<lambda>a. if unat (a - dst) < unat n then m (src + (a - dst)) else m a)"
proof (cases "src < dst \<and> src + n > dst")
  case True
  have gap: "unat (src - dst) = 2 ^ 32 - (unat dst - unat src)"
    using True by (intro unat_sub_wrap) simp
  have "copy_down m (dst + n) (src + n) (unat n) =
      (\<lambda>a. if unat (dst + n - 1 - a) < unat n then m (src + n + (a - (dst + n))) else m a)"
    using assms gap unat_uint_bound[of n] by (intro copy_down_eq) auto
  moreover have "unat (dst + n - 1 - a) < unat n \<longleftrightarrow> unat (a - dst) < unat n" for a
    using range_reflect[of n "a - dst"] by (simp add: algebra_simps)
  moreover have "src + n + (a - (dst + n)) = src + (a - dst)" for a by simp
  ultimately show ?thesis using True by (simp only: memmove_def if_True simp_thms)
next
  case False
  have sum: "unat (src + n) = unat src + unat n" using assms(1) by (simp add: unat_word_ariths)
  have "dst = src \<or> unat n \<le> unat (dst - src)"
  proof (cases "src < dst")
    case True
    with False sum show ?thesis
      by (auto simp: word_less_nat_alt word_le_nat_alt unat_sub)
  next
    case ge: False
    show ?thesis
    proof (cases "dst = src")
      case ne: False
      with ge have "dst < src" by simp
      then have "unat (dst - src) = 2 ^ 32 - (unat src - unat dst)" by (rule unat_sub_wrap)
      then have "unat n \<le> unat (dst - src)" using assms(1) by linarith
      then show ?thesis ..
    qed simp
  qed
  then have "copy_up m dst src (unat n) =
      (\<lambda>a. if unat (a - dst) < unat n then m (src + (a - dst)) else m a)"
    using unat_uint_bound[of n] by (intro copy_up_eq) auto
  with False show ?thesis by (auto simp: memmove_def)
qed

theorem memmove_correct_witness:
  "memmove (\<lambda>a. ucast a) 102 100 4 =
    (\<lambda>a. if unat (a - 102) < unat (4 :: uint) then ucast (100 + (a - 102)) else ucast a)"
  using memmove_correct[of 100 4 102 "\<lambda>a. ucast a"] by simp

lemma stosb_eq:
  "n < 2 ^ 32 \<Longrightarrow> stosb m d c n = (\<lambda>a. if unat (a - d) < n then c else m a)"
proof (induction n arbitrary: m d)
  case (Suc n)
  have IH: "stosb (m(d := c)) (d + 1) c n =
      (\<lambda>a. if unat (a - (d + 1)) < n then c else (m(d := c)) a)"
    using Suc by simp
  show ?case
  proof
    fix a
    show "stosb m d c (Suc n) a = (if unat (a - d) < Suc n then c else m a)"
    proof (cases "a = d")
      case False
      then have "unat (a - (d + 1)) = unat (a - d) - 1" "0 < unat (a - d)"
        using unat_pred[of "a - d"] by (simp_all add: unat_gt_0 diff_diff_eq)
      with False show ?thesis by (auto simp: IH)
    qed (simp add: IH)
  qed
qed simp

lemma ld32_st32_same [simp]: "ld32 (st32 m a w) a = w"
  by (simp add: ld32_def st32_def)

lemma st32_same_bytes:
  "st32 m a (push_bit 24 (ucast c) OR push_bit 16 (ucast c) OR push_bit 8 (ucast c) OR ucast c)
   = stosb m a c 4"
proof -
  let ?w = "push_bit 24 (ucast c) OR push_bit 16 (ucast c) OR push_bit 8 (ucast c) OR ucast c :: uint"
  have high: "\<not> bit c (k + n)" if "8 \<le> k" for k n
    using that bit_imp_le_length[of c "k + n"] by auto
  have "ucast ?w = c"
    by (rule bit_word_eqI) (auto simp: bit_simps)
  moreover have "ucast (drop_bit 8 ?w) = c"
    by (rule bit_word_eqI) (auto simp: bit_simps high)
  moreover have "ucast (drop_bit 16 ?w) = c"
    by (rule bit_word_eqI) (auto simp: bit_simps high)
  moreover have "ucast (drop_bit 24 ?w) = c"
    by (rule bit_word_eqI) (auto simp: bit_simps high)
  ultimately show ?thesis by (simp add: st32_def numeral_eq_Suc add.assoc)
qed


lemma stosb_add: "stosb m d c (i + j) = stosb (stosb m d c i) (d + of_nat i) c j"
  by (induction i arbitrary: m d) (simp_all add: add.assoc)

lemma stosl_same_bytes:
  "stosl m d (push_bit 24 (ucast c) OR push_bit 16 (ucast c) OR push_bit 8 (ucast c) OR ucast c) k
   = stosb m d c (4 * k)"
proof (induction k arbitrary: m d)
  case (Suc k)
  have "4 * Suc k = 4 + 4 * k" by simp
  then show ?case by (simp only: stosl.simps st32_same_bytes Suc.IH stosb_add of_nat_numeral)
qed simp

lemma ucast_low_byte: "c AND 0xFF = (ucast (ucast (c :: uint) :: byte) :: uint)"
proof -
  have "(0xFF :: uint) = mask 8" by (simp add: mask_eq_exp_minus_1)
  moreover have "c AND mask 8 = ucast (ucast c :: byte)"
    by (rule bit_word_eqI) (auto simp: bit_simps)
  ultimately show ?thesis by (simp only:)
qed

text \<open>
  The word-at-a-time branch of \<open>memset\<close> agrees with the byte loop it replaces: either
  way the range holds the low byte of \<open>c\<close> and the rest of memory is untouched.
\<close>

lemma memset_eq:
  "memset m dst c n = (\<lambda>a. if unat (a - dst) < unat n then ucast c else m a)"
proof -
  have "4 * unat (n div 4) = unat n" if "n mod 4 = 0"
  proof -
    have "unat n mod 4 = 0" using that unat_mod[of n 4] by simp
    moreover have "unat (n div 4) = unat n div 4" using unat_div[of n 4] by simp
    ultimately show ?thesis by presburger
  qed
  then have "memset m dst c n = stosb m dst (ucast c) (unat n)"
    by (simp add: memset_def Let_def ucast_low_byte stosl_same_bytes)
  then show ?thesis using unat_uint_bound[of n] by (simp add: stosb_eq)
qed

end
