(* ===== verification/Kalloc.thy ===== *)
theory Kalloc
  imports CString
begin

text \<open>
  The physical page allocator of \<^verbatim>\<open>kalloc.c\<close>. The free list is threaded through the
  free pages themselves (\<open>struct run\<close>), so the state is the kernel's byte memory, the
  list head and the flag \<open>use_lock\<close>; \<open>kend\<close> is the linker symbol \<open>end\<close>, a parameter.
  The list is abstracted to the sequence of free pages, and an interface locale states
  the allocator's contract for its clients.
\<close>

subsection \<open>State and address arithmetic\<close>

definition PGSIZE :: uint where "PGSIZE = 4096"
definition KERNBASE :: uint where "KERNBASE = 0x80000000"
definition PHYSTOP :: uint where "PHYSTOP = 0xE000000"

definition V2P :: "uint \<Rightarrow> uint" where "V2P a = a - KERNBASE"
definition P2V :: "uint \<Rightarrow> uint" where "P2V a = a + KERNBASE"

definition PGROUNDUP :: "uint \<Rightarrow> uint" where
  "PGROUNDUP sz = (sz + PGSIZE - 1) AND NOT (PGSIZE - 1)"

definition PGROUNDDOWN :: "uint \<Rightarrow> uint" where
  "PGROUNDDOWN a = a AND NOT (PGSIZE - 1)"

record kmem =
  mem :: memory
  kend :: uint
  use_lock :: bool
  freelist :: uint

subsection \<open>Operations\<close>

definition kfree :: "uint \<Rightarrow> ('a kmem_scheme, unit) kernel" where
  "kfree v s =
     (if v mod PGSIZE \<noteq> 0 \<or> v < kend s \<or> V2P v \<ge> PHYSTOP then Inl (Panic ''kfree'')
      else let m = memset (mem s) v 1 PGSIZE
           in Inr ((), s\<lparr>mem := st32 m v (freelist s), freelist := v\<rparr>))"

definition kalloc :: "('a kmem_scheme, uint) kernel" where
  "kalloc s =
     (let r = freelist s
      in Inr (r, if r \<noteq> 0 then s\<lparr>freelist := ld32 (mem s) r\<rparr> else s))"

text \<open>
  The loop of \<open>freerange\<close>: it cannot run past the address space, because \<open>kfree\<close> panics
  on a page outside physical memory before the addition could wrap around.
\<close>

lemma kfree_advances:
  assumes "kfree p s = Inr r"
  shows "unat (p + PGSIZE) = unat p + 4096"
proof -
  have *: "p - KERNBASE < PHYSTOP" using assms by (auto simp: kfree_def V2P_def split: if_splits)
  have "unat p < 2 ^ 32 - 4096"
  proof (cases "KERNBASE \<le> p")
    case True
    then have "unat (p - KERNBASE) = unat p - unat KERNBASE" by (rule unat_sub)
    with * show ?thesis by (simp add: word_less_nat_alt PHYSTOP_def KERNBASE_def)
  next
    case False
    then show ?thesis by (simp add: word_le_nat_alt KERNBASE_def)
  qed
  then show ?thesis by (simp add: PGSIZE_def unat_word_ariths)
qed

function freerange_loop :: "uint \<Rightarrow> uint \<Rightarrow> ('a kmem_scheme, unit) kernel" where
  "freerange_loop p vend s =
     (if p + PGSIZE \<le> vend
      then case kfree p s of Inl h \<Rightarrow> Inl h | Inr (u, s') \<Rightarrow> freerange_loop (p + PGSIZE) vend s'
      else Inr ((), s))"
  by pat_completeness auto
termination
proof (relation "measure (\<lambda>(p, vend, s). 2 ^ 32 - unat p)")
  fix p vend :: uint and s s' :: "'a kmem_scheme" and r u
  assume "kfree p s = Inr r"
  from kfree_advances[OF this] show "((p + PGSIZE, vend, s'), p, vend, s) \<in> measure (\<lambda>(p, vend, s). 2 ^ 32 - unat p)"
    using unat_uint_bound[of p] by simp
qed simp

declare freerange_loop.simps [simp del]

definition freerange :: "uint \<Rightarrow> uint \<Rightarrow> ('a kmem_scheme, unit) kernel" where
  "freerange vstart vend = freerange_loop (PGROUNDUP vstart) vend"

definition kinit1 :: "uint \<Rightarrow> uint \<Rightarrow> ('a kmem_scheme, unit) kernel" where
  "kinit1 vstart vend =
     bnd (modify (\<lambda>s. s\<lparr>use_lock := False\<rparr>)) (\<lambda>_. freerange vstart vend)"

definition kinit2 :: "uint \<Rightarrow> uint \<Rightarrow> ('a kmem_scheme, unit) kernel" where
  "kinit2 vstart vend =
     bnd (freerange vstart vend) (\<lambda>_. modify (\<lambda>s. s\<lparr>use_lock := True\<rparr>))"

subsection \<open>The free list as a sequence of pages\<close>

primrec flist :: "memory \<Rightarrow> uint \<Rightarrow> uint list \<Rightarrow> bool" where
  "flist m p [] = (p = 0)"
| "flist m p (x # xs) = (p = x \<and> x \<noteq> 0 \<and> flist m (ld32 m x) xs)"

text \<open>A page \<open>kfree\<close> accepts.\<close>

definition page_ok :: "'a kmem_scheme \<Rightarrow> uint \<Rightarrow> bool" where
  "page_ok s v \<longleftrightarrow> v mod PGSIZE = 0 \<and> kend s \<le> v \<and> V2P v < PHYSTOP"

text \<open>Well-formed: the list is a chain of distinct pages, none of them null.\<close>

definition free_pages :: "'a kmem_scheme \<Rightarrow> uint list \<Rightarrow> bool" where
  "free_pages s xs \<longleftrightarrow> 0 < kend s \<and> flist (mem s) (freelist s) xs \<and> distinct xs \<and>
     (\<forall>x \<in> set xs. page_ok s x)"

lemma page_ok_aligned: "page_ok s v \<Longrightarrow> unat v mod 4096 = 0"
  using unat_mod[of v PGSIZE] by (simp add: page_ok_def PGSIZE_def)

lemma page_ok_multiple: "page_ok s v \<Longrightarrow> \<exists>k. unat v = 4096 * k"
  by (drule page_ok_aligned) (auto simp: mod_eq_0_iff_dvd elim: dvdE)

lemma page_ok_bound:
  assumes "page_ok s v"
  shows "unat v + 4096 \<le> 2 ^ 32"
proof -
  obtain k where k: "unat v = 4096 * k" using page_ok_multiple[OF assms] by blast
  have "4096 * k < 4096 * 1048576" using unat_uint_bound[of v] k by simp
  then have "k < 1048576" by simp
  then show ?thesis using k by simp
qed

lemma page_ok_nonzero: "page_ok s v \<Longrightarrow> 0 < kend s \<Longrightarrow> v \<noteq> 0"
  by (auto simp: page_ok_def)

text \<open>Distinct pages do not overlap.\<close>

lemma pages_disjoint:
  assumes "page_ok s v" "page_ok s x" "x \<noteq> v" "i < 4096"
  shows "\<not> unat (x + of_nat i - v) < 4096"
proof -
  have x: "unat (x + of_nat i) = unat x + i"
    using page_ok_bound[OF assms(2)] assms(4) by (simp add: unat_word_ariths unat_of_nat)
  obtain k j where kj: "unat x = 4096 * k" "unat v = 4096 * j"
    using page_ok_multiple[OF assms(2)] page_ok_multiple[OF assms(1)] by blast
  have "k \<noteq> j" using assms(3) kj by (auto simp: word_unat_eq_iff)
  then have "4096 * k + i < 4096 * j \<or> 4096 * j + 4096 \<le> 4096 * k + i"
    using assms(4) by (cases "k < j") auto
  then show ?thesis
    unfolding in_range_iff[OF page_ok_bound[OF assms(1)]] x kj by auto
qed

lemma ld32_frame:
  assumes "\<And>i. i < 4 \<Longrightarrow> m' (x + of_nat i) = m (x + of_nat i)"
  shows "ld32 m' x = ld32 m x"
  using assms[of 0] assms[of 1] assms[of 2] assms[of 3] by (simp add: ld32_def)

lemma st32_outside: "\<not> unat (a - v) < 4 \<Longrightarrow> st32 m v w a = m a"
  by (auto simp: st32_def)


lemma flist_frame: "(\<And>x. x \<in> set xs \<Longrightarrow> ld32 m' x = ld32 m x) \<Longrightarrow> flist m' p xs = flist m p xs"
  by (induction xs arbitrary: p) auto

lemma page_ok_update [simp]:
  "page_ok (s\<lparr>mem := m\<rparr>) = page_ok s" "page_ok (s\<lparr>freelist := p\<rparr>) = page_ok s"
  "page_ok (s\<lparr>use_lock := b\<rparr>) = page_ok s"
  by (rule ext, simp add: page_ok_def)+

lemma free_pages_use_lock [simp]: "free_pages (s\<lparr>use_lock := b\<rparr>) xs = free_pages s xs"
  by (simp add: free_pages_def)

lemma kfree_run:
  "page_ok s v \<Longrightarrow> kfree v s =
     Inr ((), s\<lparr>mem := st32 (memset (mem s) v 1 PGSIZE) v (freelist s), freelist := v\<rparr>)"
  by (auto simp: kfree_def page_ok_def)

lemma kfree_memory:
  "\<not> unat (a - v) < 4096 \<Longrightarrow> st32 (memset m v 1 PGSIZE) v w a = m a"
  "4 \<le> unat (a - v) \<Longrightarrow> unat (a - v) < 4096 \<Longrightarrow> st32 (memset m v 1 PGSIZE) v w a = 1"
  by (simp_all add: st32_outside memset_eq PGSIZE_def)

lemma kfree_spec:
  assumes fp: "free_pages s xs" and ok: "page_ok s v" and new: "v \<notin> set xs"
  shows "wp (kfree v) (\<lambda>_ s'. free_pages s' (v # xs) \<and> kend s' = kend s \<and>
    (\<forall>a. \<not> unat (a - v) < 4096 \<longrightarrow> mem s' a = mem s a) \<and>
    (\<forall>a. 4 \<le> unat (a - v) \<and> unat (a - v) < 4096 \<longrightarrow> mem s' a = 1)) s"
proof -
  let ?m = "st32 (memset (mem s) v 1 PGSIZE) v (freelist s)"
  have "ld32 ?m x = ld32 (mem s) x" if "x \<in> set xs" for x
  proof (rule ld32_frame)
    fix i :: nat assume "i < 4"
    moreover have "page_ok s x" "x \<noteq> v" using that fp new by (auto simp: free_pages_def)
    ultimately show "?m (x + of_nat i) = mem s (x + of_nat i)"
      using pages_disjoint[OF ok, of x i] by (intro kfree_memory(1)) simp
  qed
  then have "flist ?m (freelist s) xs"
    using fp flist_frame[of xs ?m "mem s"] by (simp add: free_pages_def)
  then have "free_pages (s\<lparr>mem := ?m, freelist := v\<rparr>) (v # xs)"
    using fp ok new page_ok_nonzero[OF ok] by (simp add: free_pages_def)
  then show ?thesis
    using kfree_memory[where m = "mem s" and v = v and w = "freelist s"]
    by (auto simp: wp_def kfree_run[OF ok])
qed

lemma kalloc_spec:
  assumes "free_pages s xs"
  shows "wp kalloc (\<lambda>r s'. mem s' = mem s \<and> kend s' = kend s \<and>
    (case xs of [] \<Rightarrow> r = 0 \<and> s' = s | x # ys \<Rightarrow> r = x \<and> r \<noteq> 0 \<and> page_ok s r \<and> free_pages s' ys)) s"
  using assms by (cases xs) (auto simp: wp_def kalloc_def Let_def free_pages_def)

lemma page_step:
  fixes p :: uint
  assumes "unat p + 4096 * Suc n \<le> 2 ^ 32 - 1"
  shows "unat (p + PGSIZE) = unat p + 4096"
  using assms by (simp add: PGSIZE_def unat_word_ariths)

text \<open>\<open>freerange\<close> puts every whole page of its range on the list, the last one first.\<close>

lemma freerange_loop_spec:
  assumes "free_pages s xs"
    and "unat p + 4096 * n \<le> unat vend" "unat vend < unat p + 4096 * Suc n"
    and "unat vend \<le> unat KERNBASE + unat PHYSTOP" "KERNBASE \<le> p" "kend s \<le> p" "p mod PGSIZE = 0"
    and "\<And>i. i < n \<Longrightarrow> p + of_nat (4096 * i) \<notin> set xs"
  shows "wp (freerange_loop p vend) (\<lambda>_ s'. kend s' = kend s \<and>
    free_pages s' (rev (map (\<lambda>i. p + of_nat (4096 * i)) [0..<n]) @ xs)) s"
  using assms
proof (induction n arbitrary: p s xs)
  case 0
  have "\<not> p + PGSIZE \<le> vend"
  proof -
    have "unat (p + PGSIZE) = unat p + 4096"
      using 0 by (simp add: PGSIZE_def unat_word_ariths KERNBASE_def PHYSTOP_def)
    then show ?thesis using 0 by (simp add: word_le_nat_alt)
  qed
  then show ?case using 0 by (simp add: wp_def freerange_loop.simps)
next
  case (Suc n)
  have step: "unat (p + PGSIZE) = unat p + 4096"
    using Suc.prems(2,4) by (simp add: PGSIZE_def unat_word_ariths KERNBASE_def PHYSTOP_def)
  have "unat (p - KERNBASE) = unat p - unat KERNBASE" using Suc.prems(5) by (rule unat_sub)
  then have ok: "page_ok s p"
    using Suc.prems(2,4,5,6,7)
    by (simp add: page_ok_def V2P_def word_less_nat_alt word_le_nat_alt KERNBASE_def PHYSTOP_def)
  have "p \<notin> set xs" using Suc.prems(8)[of 0] by simp
  note kf = kfree_spec[OF Suc.prems(1) ok this]
  obtain s1 where s1: "kfree p s = Inr ((), s1)" "free_pages s1 (p # xs)" "kend s1 = kend s"
    using kf by (auto simp: wp_iff)
  have shift: "p + PGSIZE + of_nat (4096 * i) = p + of_nat (4096 * Suc i)" for i
    by (simp add: PGSIZE_def)
  have tail: "wp (freerange_loop (p + PGSIZE) vend) (\<lambda>_ s'. kend s' = kend s1 \<and>
      free_pages s' (rev (map (\<lambda>i. p + PGSIZE + of_nat (4096 * i)) [0..<n]) @ p # xs)) s1"
  proof (rule Suc.IH[OF s1(2)])
    show "p + PGSIZE + of_nat (4096 * i) \<notin> set (p # xs)" if "i < n" for i
    proof -
      have "unat (p + of_nat (4096 * Suc i)) = unat p + 4096 * Suc i"
        using that Suc.prems(2,4)
        by (simp add: unat_word_ariths unat_of_nat KERNBASE_def PHYSTOP_def)
      then have "p + of_nat (4096 * Suc i) \<noteq> p" by (auto dest: arg_cong[where f = unat])
      with Suc.prems(8)[of "Suc i"] that show ?thesis unfolding shift by simp
    qed
    show "(p + PGSIZE) mod PGSIZE = 0"
    proof -
      have "(unat p + 4096) mod 4096 = 0" using page_ok_aligned[OF ok] by simp
      then have "unat ((p + PGSIZE) mod PGSIZE) = 0"
        using step by (simp add: unat_mod PGSIZE_def)
      then show ?thesis by (simp add: unat_eq_0)
    qed
  qed (use Suc.prems step s1(3) in \<open>auto simp: word_le_nat_alt\<close>)
  have pages: "rev (map (\<lambda>i. p + PGSIZE + of_nat (4096 * i)) [0..<n]) @ p # xs =
      rev (map (\<lambda>i. p + of_nat (4096 * i)) [0..<Suc n]) @ xs"
    unfolding shift by (subst upt_conv_Cons) (simp_all add: map_Suc_upt[symmetric] comp_def del: upt_Suc)
  have "p + PGSIZE \<le> vend" using step Suc.prems(2) by (simp add: word_le_nat_alt)
  then have "freerange_loop p vend s = freerange_loop (p + PGSIZE) vend s1"
    using s1(1) by (simp add: freerange_loop.simps[of p])
  with tail[unfolded pages] s1(3) show ?case by (simp add: wp_def)
qed

subsection \<open>The allocator's contract\<close>

text \<open>
  What clients of the allocator rely on: it hands out a page it held, and takes back a
  page it did not hold. The clients' lemma is that live pages never coincide.
\<close>

locale page_allocator =
  fixes pages :: "'s \<Rightarrow> uint list \<Rightarrow> bool"
    and page :: "'s \<Rightarrow> uint \<Rightarrow> bool"
    and alloc :: "('s, uint) kernel"
    and free :: "uint \<Rightarrow> ('s, unit) kernel"
  assumes alloc_law: "pages s xs \<Longrightarrow> wp alloc (\<lambda>r s'. page s' = page s \<and>
      (case xs of [] \<Rightarrow> r = 0 \<and> s' = s | x # ys \<Rightarrow> r = x \<and> r \<noteq> 0 \<and> pages s' ys)) s"
    and free_law: "pages s xs \<Longrightarrow> page s v \<Longrightarrow> v \<notin> set xs \<Longrightarrow>
      wp (free v) (\<lambda>_ s'. page s' = page s \<and> pages s' (v # xs)) s"
    and pages_distinct: "pages s xs \<Longrightarrow> distinct xs"
    and pages_page: "pages s xs \<Longrightarrow> x \<in> set xs \<Longrightarrow> page s x"
begin

text \<open>Two successful allocations in a row return different pages.\<close>

lemma alloc_alloc:
  assumes "pages s xs"
  shows "wp (bnd alloc (\<lambda>a. bnd alloc (\<lambda>b. ret (a, b))))
    (\<lambda>(a, b) s'. b \<noteq> 0 \<longrightarrow> a \<noteq> b \<and> a \<noteq> 0 \<and> pages s' (drop 2 xs)) s"
proof -
  have "wp alloc (\<lambda>b s'. b \<noteq> 0 \<longrightarrow> a \<noteq> b \<and> a \<noteq> 0 \<and> pages s' (drop 2 xs)) s1"
    if "page s1 = page s \<and>
      (case xs of [] \<Rightarrow> a = 0 \<and> s1 = s | x # ys \<Rightarrow> a = x \<and> a \<noteq> 0 \<and> pages s1 ys)" for a s1
  proof -
    have "pages s1 (tl xs)" using that assms by (cases xs) auto
    from alloc_law[OF this] show ?thesis
      by (rule wp_mono) (use that pages_distinct[OF assms] in \<open>auto split: list.splits\<close>)
  qed
  then show ?thesis
    by (simp only: wp_simps prod.case) (rule wp_mono[OF alloc_law[OF assms]])
qed

text \<open>A page given back is the next one handed out.\<close>

lemma free_alloc:
  assumes "pages s xs" "page s v" "v \<notin> set xs"
  shows "wp (bnd (free v) (\<lambda>_. alloc)) (\<lambda>r s'. r = v \<and> pages s' xs) s"
  unfolding wp_simps
  by (rule wp_mono[OF free_law[OF assms]]) (auto intro: wp_mono[OF alloc_law])

end

interpretation kpages: page_allocator free_pages page_ok kalloc kfree
proof
  fix s :: "'a kmem_scheme" and xs
  assume fp: "free_pages s xs"
  then show "distinct xs" and "\<And>x. x \<in> set xs \<Longrightarrow> page_ok s x" by (auto simp: free_pages_def)
  show "wp kalloc (\<lambda>r s'. page_ok s' = page_ok s \<and>
      (case xs of [] \<Rightarrow> r = 0 \<and> s' = s | x # ys \<Rightarrow> r = x \<and> r \<noteq> 0 \<and> free_pages s' ys)) s"
    by (rule wp_mono[OF kalloc_spec[OF fp]]) (auto simp: page_ok_def fun_eq_iff split: list.splits)
  fix v assume "page_ok s v" "v \<notin> set xs"
  from kfree_spec[OF fp this] show "wp (kfree v) (\<lambda>_ s'. page_ok s' = page_ok s \<and> free_pages s' (v # xs)) s"
    by (rule wp_mono) (auto simp: page_ok_def fun_eq_iff)
qed


subsection \<open>Rounding\<close>

lemma pgsize_mask: "PGSIZE - 1 = mask 12"
  by (simp add: PGSIZE_def mask_eq_exp_minus_1)

lemma and_not_pgmask: "(x :: uint) AND NOT (mask 12) = push_bit 12 (drop_bit 12 x)"
  by (rule bit_word_eqI) (auto simp: bit_simps)

lemma unat_push_drop: "unat (push_bit 12 (drop_bit 12 (x :: uint))) = 4096 * (unat x div 4096)"
proof -
  have "4096 * (unat x div 4096) \<le> unat x" by simp
  then have "4096 * (unat x div 4096) < 2 ^ 32" using unat_uint_bound[of x] by linarith
  then show ?thesis
    by (simp add: push_bit_eq_mult drop_bit_eq_div unat_word_ariths unat_div mult.commute)
qed

lemma unat_PGROUNDDOWN: "unat (PGROUNDDOWN a) = 4096 * (unat a div 4096)"
  by (simp add: PGROUNDDOWN_def pgsize_mask and_not_pgmask unat_push_drop)

lemma unat_PGROUNDUP:
  assumes "unat sz + 4095 < 2 ^ 32"
  shows "unat (PGROUNDUP sz) = 4096 * ((unat sz + 4095) div 4096)"
proof -
  have "sz + PGSIZE - 1 = sz + 4095" by (simp add: PGSIZE_def)
  moreover have "unat (sz + 4095) = unat sz + 4095" using assms by (simp add: unat_word_ariths)
  ultimately show ?thesis
    by (simp only: PGROUNDUP_def pgsize_mask and_not_pgmask unat_push_drop)
qed

lemma multiple_mod_PGSIZE: "unat p = 4096 * k \<Longrightarrow> p mod PGSIZE = 0"
  by (rule word_unat_eq_iff[THEN iffD2]) (simp add: unat_mod PGSIZE_def)

text \<open>The whole pages of a range, as the count \<open>freerange\<close> walks through.\<close>

lemma pages_of_range:
  fixes p vend :: uint
  assumes p: "unat p = 4096 * k" and n: "n = (unat vend - unat p) div 4096" and "unat p \<le> unat vend"
  shows "set (map (\<lambda>i. p + of_nat (4096 * i)) [0..<n]) =
    {q. q mod PGSIZE = 0 \<and> unat p \<le> unat q \<and> unat q + 4096 \<le> unat vend}" (is "?L = ?R")
proof
  have n': "unat p + 4096 * n \<le> unat vend" using n assms(3) by (simp add: div_times_less_eq_dividend)
  have at: "unat (p + of_nat (4096 * i)) = unat p + 4096 * i" if "i < n" for i
    using that n' unat_uint_bound[of vend] by (simp add: unat_word_ariths unat_of_nat)
  show "?L \<subseteq> ?R"
  proof
    fix q assume "q \<in> ?L"
    then obtain i where i: "i < n" "q = p + of_nat (4096 * i)" by auto
    have "unat q = 4096 * (k + i)" using at[OF i(1)] i(2) p by simp
    then show "q \<in> ?R" using multiple_mod_PGSIZE[of q "k + i"] i(1) n' p by auto
  qed
  show "?R \<subseteq> ?L"
  proof
    fix q assume "q \<in> ?R"
    then have q: "q mod PGSIZE = 0" "unat p \<le> unat q" "unat q + 4096 \<le> unat vend" by auto
    have "unat q mod 4096 = 0" using q(1) unat_mod[of q PGSIZE] by (simp add: PGSIZE_def)
    then obtain j where j: "unat q = 4096 * j" by (auto simp: mod_eq_0_iff_dvd elim: dvdE)
    have i: "j - k < n" using q(2,3) j p unfolding n by simp
    have "unat q = unat (p + of_nat (4096 * (j - k)))" using at[OF i] j p q(2) by simp
    then show "q \<in> ?L" using i by (auto simp: word_unat_eq_iff)
  qed
qed


subsection \<open>Properties\<close>

definition kmem_boot :: kmem where
  "kmem_boot = \<lparr>mem = (\<lambda>_. 0), kend = 0x80108000, use_lock = False, freelist = 0\<rparr>"

lemma kmem_boot_empty: "free_pages kmem_boot []"
  by (simp add: free_pages_def kmem_boot_def)

text \<open>C11. Freeing a page the allocator accepts and does not already hold succeeds, fills the
  page with junk, leaves the rest of memory alone, and makes that page the next one
  \<open>kalloc\<close> returns, after which the free list is what it was.\<close>

theorem kfree_kalloc_roundtrip:
  assumes "free_pages s xs" "page_ok s v" "v \<notin> set xs"
  shows "wp (kfree v) (\<lambda>_ s'. free_pages s' (v # xs) \<and>
      (\<forall>a. \<not> unat (a - v) < 4096 \<longrightarrow> mem s' a = mem s a) \<and>
      (\<forall>a. 4 \<le> unat (a - v) \<and> unat (a - v) < 4096 \<longrightarrow> mem s' a = 1)) s \<and>
    wp (bnd (kfree v) (\<lambda>_. kalloc)) (\<lambda>r s'. r = v \<and> free_pages s' xs) s"
  using wp_mono[OF kfree_spec[OF assms]] kpages.free_alloc[OF assms] by simp

theorem kfree_kalloc_roundtrip_witness:
  "wp (bnd (kfree 0x80200000) (\<lambda>_. kalloc)) (\<lambda>r s'. r = 0x80200000 \<and> free_pages s' []) kmem_boot"
proof -
  have "page_ok kmem_boot 0x80200000"
    by (simp add: page_ok_def kmem_boot_def PGSIZE_def V2P_def KERNBASE_def PHYSTOP_def)
  from kfree_kalloc_roundtrip[OF kmem_boot_empty this] show ?thesis by simp
qed

text \<open>\<open>kalloc\<close> never hands out the same page twice.\<close>

lemma kalloc_distinct:
  assumes "free_pages s xs"
  shows "wp (bnd kalloc (\<lambda>a. bnd kalloc (\<lambda>b. ret (a, b))))
    (\<lambda>(a, b) s'. b \<noteq> 0 \<longrightarrow> a \<noteq> b \<and> a \<noteq> 0 \<and> free_pages s' (drop 2 xs)) s"
  by (rule kpages.alloc_alloc[OF assms])

text \<open>C12. \<open>freerange\<close> returns without panic for a range of kernel-mapped memory above the
  kernel image and puts on the free list exactly the whole pages of that range.\<close>

theorem freerange_correct:
  assumes "free_pages s xs" "kend s \<le> vstart" "KERNBASE \<le> vstart"
    and "vstart \<le> vend" "unat vend \<le> unat KERNBASE + unat PHYSTOP"
    and "\<And>q. q \<in> set xs \<Longrightarrow> unat q < unat vstart \<or> unat vend \<le> unat q"
  shows "wp (freerange vstart vend) (\<lambda>_ s'. \<exists>ys. free_pages s' (ys @ xs) \<and>
    set ys = {q. q mod PGSIZE = 0 \<and> unat vstart \<le> unat q \<and> unat q + 4096 \<le> unat vend}) s"
proof -
  let ?p = "PGROUNDUP vstart"
  let ?n = "(unat vend - unat ?p) div 4096"
  have b: "unat vend \<le> 2382364672" "unat vstart \<le> unat vend"
    using assms(4,5) by (simp_all add: KERNBASE_def PHYSTOP_def word_le_nat_alt)
  have p: "unat ?p = 4096 * ((unat vstart + 4095) div 4096)" using b by (intro unat_PGROUNDUP) simp
  have ge: "unat vstart \<le> unat ?p" unfolding p by simp
  have least: "unat ?p \<le> unat q" if "q mod PGSIZE = 0" "unat vstart \<le> unat q" for q
  proof -
    have "unat q mod 4096 = 0" using that(1) unat_mod[of q PGSIZE] by (simp add: PGSIZE_def)
    then show ?thesis using that(2) unfolding p by (auto simp: mod_eq_0_iff_dvd elim!: dvdE)
  qed
  show ?thesis
  proof (cases "unat ?p \<le> unat vend")
    case False
    have "unat (?p + PGSIZE) = unat ?p + 4096"
      using p b by (simp add: PGSIZE_def unat_word_ariths)
    then have "\<not> ?p + PGSIZE \<le> vend" using False by (simp add: word_le_nat_alt)
    moreover have "{q. q mod PGSIZE = 0 \<and> unat vstart \<le> unat q \<and> unat q + 4096 \<le> unat vend} = {}"
      (is "?S = {}")
    proof (rule equals0I)
      fix q assume "q \<in> ?S"
      with least[of q] False show False by simp
    qed
    ultimately show ?thesis using assms(1)
      by (simp add: freerange_def wp_def freerange_loop.simps) (rule exI[of _ "[]"], auto)
  next
    case True
    have rng: "unat ?p + 4096 * ?n \<le> unat vend" "unat vend < unat ?p + 4096 * Suc ?n"
      using True by (simp_all add: div_times_less_eq_dividend)
    have pages: "set (map (\<lambda>i. ?p + of_nat (4096 * i)) [0..<?n]) =
        {q. q mod PGSIZE = 0 \<and> unat vstart \<le> unat q \<and> unat q + 4096 \<le> unat vend}"
      unfolding pages_of_range[OF p refl True]
    proof (rule Collect_cong)
      fix q
      show "(q mod PGSIZE = 0 \<and> unat ?p \<le> unat q \<and> unat q + 4096 \<le> unat vend) =
          (q mod PGSIZE = 0 \<and> unat vstart \<le> unat q \<and> unat q + 4096 \<le> unat vend)"
        using least[of q] order.trans[OF ge, of "unat q"] by argo
    qed
    have "?p + of_nat (4096 * i) \<notin> set xs" if "i < ?n" for i
    proof -
      have "?p + of_nat (4096 * i) \<in> set (map (\<lambda>i. ?p + of_nat (4096 * i)) [0..<?n])" using that by auto
      then have "unat vstart \<le> unat (?p + of_nat (4096 * i)) \<and>
          unat (?p + of_nat (4096 * i)) + 4096 \<le> unat vend"
        unfolding pages by simp
      then show ?thesis using assms(6)[of "?p + of_nat (4096 * i)"] by auto
    qed
    note loop = freerange_loop_spec[OF assms(1) rng assms(5) _ _ multiple_mod_PGSIZE[OF p] this]
    have "wp (freerange vstart vend) (\<lambda>_ s'. kend s' = kend s \<and>
        free_pages s' (rev (map (\<lambda>i. ?p + of_nat (4096 * i)) [0..<?n]) @ xs)) s"
      unfolding freerange_def
      by (rule loop) (use assms(2,3) ge in \<open>auto simp: word_le_nat_alt\<close>)
    then show ?thesis
      by (rule wp_mono) (elim conjE, intro exI conjI, assumption, simp only: set_rev pages)
  qed
qed

theorem freerange_correct_witness:
  "wp (freerange 0x80200001 0x80205000) (\<lambda>_ s'. \<exists>ys. free_pages s' (ys @ []) \<and>
    set ys = {q. q mod PGSIZE = 0 \<and> unat (0x80200001 :: uint) \<le> unat q \<and>
      unat q + 4096 \<le> unat (0x80205000 :: uint)}) kmem_boot"
  by (rule freerange_correct[OF kmem_boot_empty])
    (simp_all add: kmem_boot_def KERNBASE_def PHYSTOP_def)

end
