(* ===== verification/Ptable.thy ===== *)
theory Ptable
  imports Kalloc
begin

text \<open>
  The process table of \<^verbatim>\<open>proc.c\<close> and the operations on it that the rest of the kernel
  calls: \<open>allocproc\<close>, the channel operations \<open>sleep\<close> and \<open>wakeup\<close>, \<open>kill\<close>, \<open>yield\<close> and
  the scheduler's choice. The table lock makes each of them one step. A process is its
  slot number; \<open>cur_proc\<close> is \<open>mycpu()->proc\<close> of the processor the code runs on.
  Trap frames and saved contexts live in kernel memory at their real offsets.
\<close>

subsection \<open>State\<close>

definition NPROC :: nat where "NPROC = 64"
definition KSTACKSIZE :: uint where "KSTACKSIZE = 4096"
definition NOFILE :: nat where "NOFILE = 16"

datatype procstate = UNUSED | EMBRYO | SLEEPING | RUNNABLE | RUNNING | ZOMBIE

record proc =
  p_sz :: uint
  p_pgdir :: uint
  p_kstack :: uint
  p_state :: procstate
  p_pid :: int
  p_parent :: "nat option"
  p_tf :: uint
  p_context :: uint
  p_chan :: "chan option"
  p_killed :: bool
  p_ofile :: "nat option list"
  p_cwd :: "nat option"
  p_name :: "byte list"
  p_uid :: int
  p_gid :: int

text \<open>\<open>trapret_sym\<close> and \<open>forkret_sym\<close> are the link-time addresses of those two routines.\<close>

record ptable = kmem +
  procs :: "proc list"
  nextpid :: int
  initproc :: "nat option"
  cur_proc :: "nat option"
  trapret_sym :: uint
  forkret_sym :: uint

definition proc_upd :: "nat \<Rightarrow> (proc \<Rightarrow> proc) \<Rightarrow> 'a ptable_scheme \<Rightarrow> 'a ptable_scheme" where
  "proc_upd i f s = s\<lparr>procs := (procs s)[i := f (procs s ! i)]\<rparr>"

text \<open>Reading a field of \<open>myproc()\<close> with no process on this processor faults in the kernel,
  which \<open>trap\<close> turns into a panic.\<close>

definition myproc :: "('a ptable_scheme, nat) kernel" where
  "myproc s = (case cur_proc s of None \<Rightarrow> Inl (Panic ''trap'') | Some i \<Rightarrow> Inr (i, s))"

subsection \<open>Allocating a process\<close>

text \<open>Sizes of \<open>struct trapframe\<close> and \<open>struct context\<close>, and the offset of \<open>context.eip\<close>.\<close>

definition TF_SIZE :: uint where "TF_SIZE = 76"
definition CONTEXT_SIZE :: uint where "CONTEXT_SIZE = 20"
definition CONTEXT_EIP :: uint where "CONTEXT_EIP = 16"

definition allocproc_stack :: "nat \<Rightarrow> uint \<Rightarrow> 'a ptable_scheme \<Rightarrow> 'a ptable_scheme" where
  "allocproc_stack i kstack s =
     (let sp = kstack + KSTACKSIZE;
          tf = sp - TF_SIZE;
          m1 = st32 (mem s) (tf - 4) (trapret_sym s);
          ctx = tf - 4 - CONTEXT_SIZE;
          m2 = memset m1 ctx 0 CONTEXT_SIZE;
          m3 = st32 m2 (ctx + CONTEXT_EIP) (forkret_sym s)
      in proc_upd i (\<lambda>p. p\<lparr>p_kstack := kstack, p_tf := tf, p_context := ctx\<rparr>) (s\<lparr>mem := m3\<rparr>))"

definition allocproc :: "('a ptable_scheme, nat option) kernel" where
  "allocproc s =
     (case find_idx (\<lambda>p. p_state p = UNUSED) (procs s) of
        None \<Rightarrow> Inr (None, s)
      | Some i \<Rightarrow>
          let s1 = (proc_upd i (\<lambda>p. p\<lparr>p_state := EMBRYO, p_pid := nextpid s\<rparr>) s)
                     \<lparr>nextpid := nextpid s + 1\<rparr>
          in bnd kalloc (\<lambda>k.
               if k = 0 then bnd (modify (proc_upd i (\<lambda>p. p\<lparr>p_kstack := 0, p_state := UNUSED\<rparr>)))
                                 (\<lambda>_. ret None)
               else bnd (modify (allocproc_stack i k)) (\<lambda>_. ret (Some i))) s1)"

subsection \<open>Sleeping, waking, killing and yielding\<close>

text \<open>
  The part of \<open>sleep\<close> before it enters the scheduler. In straight-line kernel code the
  caller then stops with the outcome \<open>Sleeps chan\<close>; the scheduler theory resumes it.
\<close>

definition sleep_enter :: "chan \<Rightarrow> ('a ptable_scheme, unit) kernel" where
  "sleep_enter c s =
     (case cur_proc s of
        None \<Rightarrow> Inl (Panic ''sleep'')
      | Some i \<Rightarrow> Inr ((), proc_upd i (\<lambda>p. p\<lparr>p_chan := Some c, p_state := SLEEPING\<rparr>) s))"

definition sleep_leave :: "nat \<Rightarrow> 'a ptable_scheme \<Rightarrow> 'a ptable_scheme" where
  "sleep_leave i s = proc_upd i (\<lambda>p. p\<lparr>p_chan := None\<rparr>) s"

definition wake_one :: "chan \<Rightarrow> proc \<Rightarrow> proc" where
  "wake_one c p = (if p_state p = SLEEPING \<and> p_chan p = Some c then p\<lparr>p_state := RUNNABLE\<rparr> else p)"

definition wakeup1 :: "chan \<Rightarrow> 'a ptable_scheme \<Rightarrow> 'a ptable_scheme" where
  "wakeup1 c s = s\<lparr>procs := map (wake_one c) (procs s)\<rparr>"

definition wakeup :: "chan \<Rightarrow> ('a ptable_scheme, unit) kernel" where
  "wakeup c = modify (wakeup1 c)"

definition kill :: "int \<Rightarrow> ('a ptable_scheme, int) kernel" where
  "kill pid s =
     (case find_idx (\<lambda>p. p_pid p = pid) (procs s) of
        None \<Rightarrow> Inr (-1, s)
      | Some i \<Rightarrow>
          Inr (0, proc_upd i (\<lambda>p. p\<lparr>p_killed := True,
                 p_state := (if p_state p = SLEEPING then RUNNABLE else p_state p)\<rparr>) s))"

definition yield_enter :: "('a ptable_scheme, unit) kernel" where
  "yield_enter = bnd myproc (\<lambda>i. modify (proc_upd i (\<lambda>p. p\<lparr>p_state := RUNNABLE\<rparr>)))"

subsection \<open>Framing\<close>

definition mypid :: "'a ptable_scheme \<Rightarrow> int" where
  "mypid s = p_pid (procs s ! the (cur_proc s))"

text \<open>The processor is running a process of the table.\<close>

definition in_proc :: "'a ptable_scheme \<Rightarrow> bool" where
  "in_proc s \<longleftrightarrow> (\<exists>i. cur_proc s = Some i \<and> i < length (procs s))"

lemma wake_one_keeps [simp]:
  "p_pid (wake_one c p) = p_pid p" "p_chan (wake_one c p) = p_chan p"
  "p_parent (wake_one c p) = p_parent p" "p_killed (wake_one c p) = p_killed p"
  "p_ofile (wake_one c p) = p_ofile p" "p_cwd (wake_one c p) = p_cwd p"
  "p_uid (wake_one c p) = p_uid p" "p_gid (wake_one c p) = p_gid p"
  "p_sz (wake_one c p) = p_sz p" "p_pgdir (wake_one c p) = p_pgdir p"
  "p_tf (wake_one c p) = p_tf p" "p_kstack (wake_one c p) = p_kstack p"
  "p_name (wake_one c p) = p_name p"
  by (simp_all add: wake_one_def)

lemma wakeup1_sel [simp]:
  "cur_proc (wakeup1 c s) = cur_proc s" "length (procs (wakeup1 c s)) = length (procs s)"
  "mem (wakeup1 c s) = mem s" "nextpid (wakeup1 c s) = nextpid s"
  "ptable.more (wakeup1 c s) = ptable.more s" "initproc (wakeup1 c s) = initproc s"
  "freelist (wakeup1 c s) = freelist s"
  by (simp_all add: wakeup1_def)

lemma in_proc_wakeup1 [simp]: "in_proc (wakeup1 c s) = in_proc s"
  by (simp add: in_proc_def)

lemma mypid_wakeup1 [simp]: "in_proc s \<Longrightarrow> mypid (wakeup1 c s) = mypid s"
  by (auto simp: in_proc_def mypid_def wakeup1_def)

lemma wp_wakeup [wp_simps]: "wp (wakeup c) Q = (\<lambda>s. Q () (wakeup1 c s))"
  by (simp add: wakeup_def wp_simps)

lemma wp_myproc: "in_proc s \<Longrightarrow> wp myproc Q s = Q (the (cur_proc s)) s"
  by (auto simp: in_proc_def wp_def myproc_def)

subsection \<open>Identifiers\<close>

text \<open>
  The invariant of the table: identifiers are below \<open>nextpid\<close>, a live process has a positive
  one, and no two live processes share one.
\<close>

definition live :: "proc \<Rightarrow> bool" where
  "live p \<longleftrightarrow> p_state p \<noteq> UNUSED"

definition pt_inv :: "'a ptable_scheme \<Rightarrow> bool" where
  "pt_inv s \<longleftrightarrow> 0 < nextpid s \<and>
     (\<forall>i < length (procs s). p_pid (procs s ! i) < nextpid s) \<and>
     (\<forall>i < length (procs s). live (procs s ! i) \<longrightarrow> 0 < p_pid (procs s ! i)) \<and>
     (\<forall>i < length (procs s). \<forall>j < length (procs s).
        live (procs s ! i) \<and> live (procs s ! j) \<and> p_pid (procs s ! i) = p_pid (procs s ! j) \<longrightarrow> i = j)"

lemma proc_upd_sel [simp]:
  "nextpid (proc_upd i f s) = nextpid s" "mem (proc_upd i f s) = mem s"
  "freelist (proc_upd i f s) = freelist s" "cur_proc (proc_upd i f s) = cur_proc s"
  "length (procs (proc_upd i f s)) = length (procs s)" "kend (proc_upd i f s) = kend s"
  "initproc (proc_upd i f s) = initproc s" "forkret_sym (proc_upd i f s) = forkret_sym s"
  "trapret_sym (proc_upd i f s) = trapret_sym s"
  by (simp_all add: proc_upd_def)

lemma proc_upd_nth:
  "j < length (procs s) \<Longrightarrow> procs (proc_upd i f s) ! j = (if i = j then f (procs s ! j) else procs s ! j)"
  by (simp add: proc_upd_def nth_list_update_if)

text \<open>A change of one process that keeps its identifier, and keeps it dead if it was.\<close>

lemma pt_inv_proc_upd:
  assumes "pt_inv s" "i < length (procs s) \<Longrightarrow> p_pid (f (procs s ! i)) = p_pid (procs s ! i)"
    "i < length (procs s) \<Longrightarrow> live (f (procs s ! i)) \<Longrightarrow> live (procs s ! i)"
  shows "pt_inv (proc_upd i f s)"
  using assms by (auto simp: pt_inv_def proc_upd_nth)

lemma pt_inv_same:
  assumes "pt_inv s" "length (procs s') = length (procs s)" "nextpid s' = nextpid s"
    "\<And>j. j < length (procs s) \<Longrightarrow> p_pid (procs s' ! j) = p_pid (procs s ! j) \<and> live (procs s' ! j) = live (procs s ! j)"
  shows "pt_inv s'"
  using assms by (auto simp: pt_inv_def)

lemma pt_inv_wakeup1: "pt_inv s \<Longrightarrow> pt_inv (wakeup1 c s)"
  by (auto simp: pt_inv_def wakeup1_def live_def wake_one_def split: if_splits)

text \<open>The table after \<open>allocproc\<close> has taken slot \<open>i\<close>.\<close>

lemma pt_inv_claim:
  assumes "pt_inv s" "i < length (procs s)"
  shows "pt_inv ((proc_upd i (\<lambda>p. p\<lparr>p_state := EMBRYO, p_pid := nextpid s\<rparr>) s)\<lparr>nextpid := nextpid s + 1\<rparr>)"
  using assms unfolding pt_inv_def
  by (auto simp: proc_upd_nth live_def)

lemma ld32_st32_apart:
  assumes "4 \<le> unat (a - v)" "unat (a - v) \<le> 2 ^ 32 - 4"
  shows "ld32 (st32 m v w) a = ld32 m a"
proof (rule ld32_frame)
  fix i :: nat assume i: "i < 4"
  have "unat (a + of_nat i - v) = unat ((a - v) + of_nat i)" by (simp add: algebra_simps)
  also have "\<dots> = (unat (a - v) + i) mod 2 ^ 32" using i by (simp add: unat_word_ariths unat_of_nat)
  finally have "\<not> unat (a + of_nat i - v) < 4 \<or> unat (a - v) + i = 2 ^ 32" using assms i by auto
  then show "st32 m v w (a + of_nat i) = m (a + of_nat i)" using assms i by (auto intro: st32_outside)
qed

text \<open>The new kernel stack: \<open>swtch\<close> to its context starts at \<open>forkret\<close>, which returns to \<open>trapret\<close>.\<close>

lemma allocproc_stack_spec:
  assumes "i < length (procs s)" "s' = allocproc_stack i k s"
  defines "p \<equiv> procs s' ! i"
  shows "p = (procs s ! i)\<lparr>p_kstack := k, p_tf := k + 4020, p_context := k + 3996\<rparr>"
    and "ld32 (mem s') (p_context p + CONTEXT_EIP) = forkret_sym s"
    and "ld32 (mem s') (p_context p + CONTEXT_SIZE) = trapret_sym s"
    and "j < length (procs s) \<Longrightarrow> j \<noteq> i \<Longrightarrow> procs s' ! j = procs s ! j"
    and "length (procs s') = length (procs s)" "nextpid s' = nextpid s"
proof -
  show p: "p = (procs s ! i)\<lparr>p_kstack := k, p_tf := k + 4020, p_context := k + 3996\<rparr>"
    using assms by (simp add: allocproc_stack_def Let_def proc_upd_nth KSTACKSIZE_def TF_SIZE_def CONTEXT_SIZE_def)
  let ?m1 = "st32 (mem s) (k + 4016) (trapret_sym s)"
  let ?m2 = "memset ?m1 (k + 3996) 0 CONTEXT_SIZE"
  have m: "mem s' = st32 ?m2 (k + 4012) (forkret_sym s)"
    using assms by (simp add: allocproc_stack_def Let_def KSTACKSIZE_def TF_SIZE_def CONTEXT_SIZE_def CONTEXT_EIP_def add.commute)
  show "ld32 (mem s') (p_context p + CONTEXT_EIP) = forkret_sym s"
    by (simp add: p m CONTEXT_EIP_def add.commute)
  have "ld32 (mem s') (k + 4016) = ld32 ?m2 (k + 4016)"
    unfolding m by (rule ld32_st32_apart) simp_all
  also have "\<dots> = ld32 ?m1 (k + 4016)"
  proof (rule ld32_frame)
    fix i :: nat assume "i < 4"
    then have "unat (20 + of_nat i :: uint) = 20 + i" by (simp add: unat_word_ariths unat_of_nat)
    moreover have "k + 4016 + of_nat i - (k + 3996) = 20 + of_nat i" by simp
    ultimately have "\<not> unat (k + 4016 + of_nat i - (k + 3996)) < unat CONTEXT_SIZE"
      by (simp only: CONTEXT_SIZE_def) simp
    then show "?m2 (k + 4016 + of_nat i) = ?m1 (k + 4016 + of_nat i)"
      by (simp only: memset_eq if_False)
  qed
  finally show "ld32 (mem s') (p_context p + CONTEXT_SIZE) = trapret_sym s"
    by (simp add: p CONTEXT_SIZE_def add.commute)
  show "j < length (procs s) \<Longrightarrow> j \<noteq> i \<Longrightarrow> procs s' ! j = procs s ! j"
    using assms by (simp add: allocproc_stack_def Let_def proc_upd_nth)
  show "length (procs s') = length (procs s)" "nextpid s' = nextpid s"
    using assms by (simp_all add: allocproc_stack_def Let_def)
qed

lemma find_unused:
  "find_idx (\<lambda>p. p_state p = UNUSED) ps = Some i \<Longrightarrow> i < length ps \<and> p_state (ps ! i) = UNUSED"
  by (simp add: find_idx_Some_iff)

text \<open>What \<open>allocproc\<close> returns.\<close>

definition allocproc_post :: "'a ptable_scheme \<Rightarrow> uint list \<Rightarrow> nat option \<Rightarrow> 'a ptable_scheme \<Rightarrow> bool" where
  "allocproc_post s xs r s' \<longleftrightarrow> length (procs s') = length (procs s) \<and>
     (case r of
        None \<Rightarrow> (\<forall>j < length (procs s). live (procs s' ! j) = live (procs s ! j)) \<and>
                ((\<forall>p \<in> set (procs s). live p) \<or> xs = [])
      | Some i \<Rightarrow> i < length (procs s) \<and> \<not> live (procs s ! i) \<and> xs \<noteq> [] \<and>
          p_state (procs s' ! i) = EMBRYO \<and> p_pid (procs s' ! i) = nextpid s \<and>
          p_kstack (procs s' ! i) = hd xs \<and>
          ld32 (mem s') (p_context (procs s' ! i) + CONTEXT_EIP) = forkret_sym s \<and>
          ld32 (mem s') (p_context (procs s' ! i) + CONTEXT_SIZE) = trapret_sym s \<and>
          (\<forall>j < length (procs s). j \<noteq> i \<longrightarrow> procs s' ! j = procs s ! j \<and>
             p_pid (procs s ! j) \<noteq> p_pid (procs s' ! i)))"


text \<open>A table of two slots, the first one in use, and one free page.\<close>

definition ptable_example :: "unit ptable_scheme" where
  "ptable_example =
     (let p = \<lparr>p_sz = 0, p_pgdir = 0, p_kstack = 0, p_state = RUNNING, p_pid = 1, p_parent = None,
               p_tf = 0, p_context = 0, p_chan = None, p_killed = False, p_ofile = [], p_cwd = None,
               p_name = [], p_uid = 0, p_gid = 0\<rparr>
      in \<lparr>mem = (\<lambda>_. 0), kend = 0x80100000, use_lock = False, freelist = 0x80200000,
          procs = [p, p\<lparr>p_state := UNUSED, p_pid := 0\<rparr>], nextpid = 2, initproc = Some 0,
          cur_proc = Some 0, trapret_sym = 0x80101000, forkret_sym = 0x80102000\<rparr>)"

lemma ptable_example_inv: "pt_inv ptable_example"
  by (simp add: pt_inv_def ptable_example_def Let_def live_def less_Suc_eq)

lemma ptable_example_pages: "free_pages ptable_example [0x80200000]"
  by (simp add: free_pages_def ptable_example_def Let_def page_ok_def ld32_def join32_def
      PGSIZE_def V2P_def KERNBASE_def PHYSTOP_def)


subsection \<open>Waking and killing\<close>



text \<open>C16. \<open>kill\<close> of identifier 0 succeeds on a table with an unused slot of that identifier (one that
  was reaped or never used) and marks the slot killed. \<open>allocproc\<close> does not clear the mark, so
  the next process allocated there starts killed although nobody killed it.\<close>

theorem kill_zero_poisons:
  assumes "find_idx (\<lambda>p. p_pid p = 0) (procs s) = Some i"
    "find_idx (\<lambda>p. p_state p = UNUSED) (procs s) = Some i" "free_pages s (k # ks)"
  shows "wp (bnd (kill 0) (\<lambda>r. bnd allocproc (\<lambda>p. ret (r, p))))
    (\<lambda>(r, p) s'. r = 0 \<and> p = Some i \<and> p_killed (procs s' ! i) \<and> p_state (procs s' ! i) = EMBRYO) s"
proof -
  note i = find_unused[OF assms(2)]
  let ?f = "\<lambda>p. p\<lparr>p_killed := True, p_state := (if p_state p = SLEEPING then RUNNABLE else p_state p)\<rparr>"
  let ?s1 = "proc_upd i ?f s"
  have k: "freelist s = k" "k \<noteq> 0" using assms(3) by (auto simp: free_pages_def)
  have "find_idx (\<lambda>p. p_state p = UNUSED) (procs ?s1) = Some i"
    using assms(2) i by (auto simp: find_idx_Some_iff proc_upd_nth)
  then show ?thesis
    using assms(1) k i
    by (simp add: wp_def bnd_def kill_def allocproc_def run_simps kalloc_def Let_def allocproc_stack_def
        proc_upd_nth)
qed

theorem kill_zero_poisons_witness:
  "wp (bnd (kill 0) (\<lambda>r. bnd allocproc (\<lambda>p. ret (r, p))))
    (\<lambda>(r, p) s'. r = 0 \<and> p = Some 1 \<and> p_killed (procs s' ! 1) \<and> p_state (procs s' ! 1) = EMBRYO)
    ptable_example"
  by (rule kill_zero_poisons[OF _ _ ptable_example_pages]) (simp_all add: ptable_example_def Let_def)

end
