(* ===== verification/Sleeplock.thy ===== *)
theory Sleeplock
  imports Ptable
begin

text \<open>
  The sleep locks of \<^verbatim>\<open>sleeplock.c\<close>. A lock is embedded in another object (a buffer, an
  in-memory inode), so each operation takes the lock's reader, its updater and the channel
  its waiters sleep on. \<open>acquiresleep\<close> on a held lock is the outcome \<open>Sleeps\<close>: the caller
  leaves the processor, and when it runs again it re-tests the lock.
\<close>

record sleeplock =
  sl_locked :: bool
  sl_pid :: int

definition initsleeplock :: sleeplock where
  "initsleeplock = \<lparr>sl_locked = False, sl_pid = 0\<rparr>"

definition acquiresleep ::
  "chan \<Rightarrow> ('a ptable_scheme \<Rightarrow> sleeplock) \<Rightarrow> (sleeplock \<Rightarrow> 'a ptable_scheme \<Rightarrow> 'a ptable_scheme) \<Rightarrow>
   ('a ptable_scheme, unit) kernel" where
  "acquiresleep c lk upd =
     bnd (fetch lk) (\<lambda>l.
     if sl_locked l then sleeps c
     else bnd myproc (\<lambda>i. bnd (fetch (\<lambda>s. p_pid (procs s ! i))) (\<lambda>pid.
       modify (upd \<lparr>sl_locked = True, sl_pid = pid\<rparr>))))"

definition releasesleep ::
  "chan \<Rightarrow> (sleeplock \<Rightarrow> 'a ptable_scheme \<Rightarrow> 'a ptable_scheme) \<Rightarrow> ('a ptable_scheme, unit) kernel" where
  "releasesleep c upd =
     bnd (modify (upd \<lparr>sl_locked = False, sl_pid = 0\<rparr>)) (\<lambda>_. wakeup c)"

definition holdingsleep :: "('a ptable_scheme \<Rightarrow> sleeplock) \<Rightarrow> ('a ptable_scheme, bool) kernel" where
  "holdingsleep lk =
     bnd (fetch lk) (\<lambda>l.
     if \<not> sl_locked l then ret False
     else bnd myproc (\<lambda>i. fetch (\<lambda>s. sl_pid l = p_pid (procs s ! i))))"

definition held_by :: "int \<Rightarrow> sleeplock" where
  "held_by pid = \<lparr>sl_locked = True, sl_pid = pid\<rparr>"

lemma held_by_sel [simp]: "sl_locked (held_by pid)" "sl_pid (held_by pid) = pid"
  by (simp_all add: held_by_def)

lemma initsleeplock_sel [simp]: "\<not> sl_locked initsleeplock" "sl_pid initsleeplock = 0"
  by (simp_all add: initsleeplock_def)

lemma wp_acquiresleep:
  "in_proc s \<Longrightarrow> wp (acquiresleep c lk upd) Q s =
     (\<not> sl_locked (lk s) \<and> Q () (upd (held_by (mypid s)) s))"
  by (simp add: acquiresleep_def wp_simps wp_myproc held_by_def mypid_def)

lemma wp_releasesleep:
  "wp (releasesleep c upd) Q s = Q () (wakeup1 c (upd initsleeplock s))"
  by (simp add: releasesleep_def wp_simps initsleeplock_def)

lemma wp_holdingsleep:
  "in_proc s \<Longrightarrow> wp (holdingsleep lk) Q s =
     Q (sl_locked (lk s) \<and> sl_pid (lk s) = mypid s) s"
  by (simp add: holdingsleep_def wp_simps wp_myproc mypid_def)

end
