(* ===== verification/Dll.thy ===== *)
theory Dll
  imports Prelude
begin

text \<open>
  Doubly linked segments: \<open>dll nxt prv a xs z\<close> says that following \<open>nxt\<close> from \<open>a\<close> visits
  \<open>xs\<close> and then \<open>z\<close>, and that \<open>prv\<close> leads back the same way. A ring with head \<open>h\<close> is
  \<open>dll nxt prv h xs h\<close>. The two pointer manipulations of the buffer cache, unlinking a
  node and linking one after the head, are shown to remove it from and to prepend it to
  the abstract sequence.
\<close>

primrec dll :: "('n \<Rightarrow> 'n) \<Rightarrow> ('n \<Rightarrow> 'n) \<Rightarrow> 'n \<Rightarrow> 'n list \<Rightarrow> 'n \<Rightarrow> bool" where
  "dll nxt prv a [] z = (nxt a = z \<and> prv z = a)"
| "dll nxt prv a (x # xs) z = (nxt a = x \<and> prv x = a \<and> dll nxt prv x xs z)"

declare dll.simps [simp del]

lemma dll_simps [simp]:
  "dll nxt prv a [] z \<longleftrightarrow> nxt a = z \<and> prv z = a"
  "dll nxt prv a (x # xs) z \<longleftrightarrow> nxt a = x \<and> prv x = a \<and> dll nxt prv x xs z"
  by (rule dll.simps)+

lemma dll_append: "dll nxt prv a (xs @ y # ys) z \<longleftrightarrow> dll nxt prv a xs y \<and> dll nxt prv y ys z"
  by (induction xs arbitrary: a) auto

lemma dll_cong:
  "(\<And>x. x \<in> set (a # xs) \<Longrightarrow> nxt' x = nxt x) \<Longrightarrow> (\<And>x. x \<in> set (xs @ [z]) \<Longrightarrow> prv' x = prv x) \<Longrightarrow>
   dll nxt' prv' a xs z = dll nxt prv a xs z"
  by (induction xs arbitrary: a) auto

lemma dll_first: "dll nxt prv a xs z \<Longrightarrow> nxt a = hd (xs @ [z])"
  by (cases xs) auto

lemma dll_last: "dll nxt prv a xs z \<Longrightarrow> prv z = last (a # xs)"
  by (induction xs arbitrary: a) auto

lemma dll_unlink_step:
  assumes "dll nxt prv a (ys @ i # zs) z" "distinct (a # ys @ i # zs)" "z \<notin> set (ys @ i # zs)"
    and n: "nxt' (prv i) = nxt i" "\<And>x. x \<noteq> prv i \<Longrightarrow> nxt' x = nxt x"
    and p: "prv' (nxt i) = prv i" "\<And>x. x \<noteq> nxt i \<Longrightarrow> prv' x = prv x"
  shows "dll nxt' prv' a (ys @ zs) z"
  using assms(1-3)
proof (induction ys arbitrary: a)
  case Nil
  then have "prv i = a" by simp
  show ?case
  proof (cases zs)
    case (Cons m ws)
    have "dll nxt' prv' m ws z = dll nxt prv m ws z"
      using Nil Cons by (intro dll_cong) (auto intro!: n p)
    then show ?thesis using Nil Cons n(1) p(1) \<open>prv i = a\<close> by auto
  qed (use Nil n(1) p(1) in auto)
next
  case (Cons y ys)
  have d: "dll nxt prv y ys i" "dll nxt prv i zs z"
    using Cons.prems(1) by (auto simp: dll_append)
  have "prv i \<in> set (y # ys)"
    using dll_last[OF d(1)] last_in_set[of "y # ys"] by (simp split: if_splits)
  then have "nxt' a = nxt a" using Cons.prems(2) by (intro n) auto
  moreover have "nxt i \<in> set (zs @ [z])"
    using dll_first[OF d(2)] hd_in_set[of "zs @ [z]"] by simp
  then have "prv' y = prv y" using Cons.prems(2,3) by (intro p) auto
  moreover have "dll nxt' prv' y (ys @ zs) z" using Cons.IH[of y] Cons.prems by simp
  ultimately show ?case using Cons.prems(1) by simp
qed

lemma dll_unlink:
  assumes "dll nxt prv a (ys @ i # zs) z" "distinct (a # ys @ i # zs)" "z \<notin> set (ys @ i # zs)"
  shows "dll (nxt(prv i := nxt i)) (prv(nxt i := prv i)) a (ys @ zs) z"
  using assms by (rule dll_unlink_step) auto

lemma dll_link_front:
  assumes "dll nxt prv h xs h" "i \<noteq> h" "i \<notin> set xs" "distinct (h # xs)"
  shows "dll (nxt(i := nxt h, h := i)) (prv(i := h, nxt h := i)) h (i # xs) h"
proof (cases xs)
  case (Cons x ws)
  have "dll (nxt(i := nxt h, h := i)) (prv(i := h, nxt h := i)) x ws h = dll nxt prv x ws h"
    using assms Cons by (intro dll_cong) auto
  then show ?thesis using assms Cons by auto
qed (use assms in auto)

text \<open>Moving a node of a ring to the front.\<close>

lemma dll_move_front:
  assumes "dll nxt prv h xs h" "distinct (h # xs)" "i \<in> set xs"
  defines "prv1 \<equiv> prv(nxt i := prv i)"
  defines "nxt1 \<equiv> nxt(prv i := nxt i)"
  shows "dll (nxt1(i := nxt1 h, h := i)) (prv1(i := h, nxt1 h := i)) h (i # remove1 i xs) h"
proof -
  obtain ys zs where xs: "xs = ys @ i # zs" "i \<notin> set ys"
    using assms(3) by (meson split_list_first)
  then have "dll nxt1 prv1 h (ys @ zs) h"
    unfolding prv1_def nxt1_def using assms(1,2) by (intro dll_unlink) auto
  moreover have "remove1 i xs = ys @ zs" using xs by (simp add: remove1_append)
  ultimately show ?thesis using assms(2) xs dll_link_front[of nxt1 prv1 h "ys @ zs" i] by auto
qed

text \<open>In a ring a node's neighbours differ from the node itself.\<close>

lemma dll_neighbours:
  assumes "dll nxt prv h xs h" "distinct (h # xs)" "i \<in> set xs"
  shows "nxt i \<noteq> i" "prv i \<noteq> i" "nxt i \<in> insert h (set xs)" "prv i \<in> insert h (set xs)"
proof -
  obtain ys zs where xs: "xs = ys @ i # zs" using assms(3) by (meson split_list)
  have d: "dll nxt prv h ys i" "dll nxt prv i zs h" using assms(1) xs by (auto simp: dll_append)
  have p: "prv i \<in> set (h # ys)" using dll_last[OF d(1)] last_in_set[of "h # ys"] by (simp split: if_splits)
  have n: "nxt i \<in> set (zs @ [h])" using dll_first[OF d(2)] hd_in_set[of "zs @ [h]"] by simp
  from p n show "nxt i \<noteq> i" "prv i \<noteq> i" "nxt i \<in> insert h (set xs)" "prv i \<in> insert h (set xs)"
    using assms(2) xs by auto
qed

end
