(* ===== verification/Bio.thy ===== *)
theory Bio
  imports Sleeplock Dll
begin

text \<open>
  The buffer cache of \<^verbatim>\<open>bio.c\<close> over the memory disk of \<^verbatim>\<open>memide.c\<close>. The cache is a doubly
  linked ring through the \<open>prev\<close>/\<open>next\<close> fields of the buffers; slot \<open>NBUF\<close> of the buffer
  table is the list head. A disk block is a function from byte offset to byte: the code
  only addresses offsets below \<open>BSIZE\<close> and moves whole blocks, so \<open>memmove\<close> of \<open>BSIZE\<close>
  bytes is an assignment. The two flag bits are two booleans. The disk keeps a ghost
  record of the writes it performed, the newest last, for reasoning about crashes.
\<close>

subsection \<open>State\<close>

type_synonym block = "nat \<Rightarrow> byte"

definition NBUF :: nat where "NBUF = 30"
definition BSIZE :: nat where "BSIZE = 4096"

record buf =
  b_valid :: bool
  b_dirty :: bool
  b_dev :: uint
  b_blockno :: uint
  b_lock :: sleeplock
  b_refcnt :: uint
  b_prev :: nat
  b_next :: nat
  b_data :: block

record bcache = ptable +
  disk :: "uint \<Rightarrow> block"
  disksize :: uint
  dwrites :: "(uint \<times> block) list"
  bufs :: "buf list"

definition buf_upd :: "nat \<Rightarrow> (buf \<Rightarrow> buf) \<Rightarrow> 'a bcache_scheme \<Rightarrow> 'a bcache_scheme" where
  "buf_upd i f s = s\<lparr>bufs := (bufs s)[i := f (bufs s ! i)]\<rparr>"

abbreviation set_lock :: "nat \<Rightarrow> sleeplock \<Rightarrow> 'a bcache_scheme \<Rightarrow> 'a bcache_scheme" where
  "set_lock i l \<equiv> buf_upd i (\<lambda>b. b\<lparr>b_lock := l\<rparr>)"

subsection \<open>The disk\<close>

definition iderw :: "nat \<Rightarrow> ('a bcache_scheme, unit) kernel" where
  "iderw i =
     bnd (holdingsleep (\<lambda>s. b_lock (bufs s ! i))) (\<lambda>h.
     bnd (fetch (\<lambda>s. bufs s ! i)) (\<lambda>b.
     bnd (fetch disksize) (\<lambda>size.
     if \<not> h then panic ''iderw: buf not locked''
     else if b_valid b \<and> \<not> b_dirty b then panic ''iderw: nothing to do''
     else if b_dev b \<noteq> 1 then panic ''iderw: request not for disk 1''
     else if b_blockno b \<ge> size then panic ''iderw: block out of range''
     else if b_dirty b then
       modify (\<lambda>s. buf_upd i (\<lambda>b. b\<lparr>b_dirty := False, b_valid := True\<rparr>)
         (s\<lparr>disk := (disk s)(b_blockno b := b_data b),
            dwrites := dwrites s @ [(b_blockno b, b_data b)]\<rparr>))
     else
       modify (\<lambda>s. buf_upd i (\<lambda>b'. b'\<lparr>b_data := disk s (b_blockno b), b_valid := True\<rparr>) s))))"

subsection \<open>The cache\<close>

text \<open>The pointer manipulations of the ring: link buffer \<open>i\<close> right after the head, and
  unlink it from its neighbours.\<close>

definition link_head :: "nat \<Rightarrow> 'a bcache_scheme \<Rightarrow> 'a bcache_scheme" where
  "link_head i s =
     (let n = b_next (bufs s ! NBUF);
          s1 = buf_upd i (\<lambda>b. b\<lparr>b_next := n, b_prev := NBUF\<rparr>) s;
          s2 = buf_upd n (\<lambda>b. b\<lparr>b_prev := i\<rparr>) s1
      in buf_upd NBUF (\<lambda>b. b\<lparr>b_next := i\<rparr>) s2)"

definition unlink_buf :: "nat \<Rightarrow> 'a bcache_scheme \<Rightarrow> 'a bcache_scheme" where
  "unlink_buf i s =
     (let n = b_next (bufs s ! i);
          p = b_prev (bufs s ! i)
      in buf_upd p (\<lambda>b. b\<lparr>b_next := n\<rparr>) (buf_upd n (\<lambda>b. b\<lparr>b_prev := p\<rparr>) s))"

definition binit :: "'a bcache_scheme \<Rightarrow> 'a bcache_scheme" where
  "binit s =
     fold (\<lambda>i s. set_lock i initsleeplock (link_head i s)) [0..<NBUF]
       (buf_upd NBUF (\<lambda>b. b\<lparr>b_prev := NBUF, b_next := NBUF\<rparr>) s)"

text \<open>
  The loops of \<open>bget\<close> walk the ring from the head in one direction until they meet the
  head again. \<open>None\<close> is a walk that never ends; \<open>Some None\<close> one that finds nothing.
\<close>

partial_function (option) scan_ring :: "(nat \<Rightarrow> nat) \<Rightarrow> (nat \<Rightarrow> bool) \<Rightarrow> nat \<Rightarrow> nat option option" where
  "scan_ring step P i =
     (if i = NBUF then Some None else if P i then Some (Some i) else scan_ring step P (step i))"

definition bget_lock :: "nat \<Rightarrow> ('a bcache_scheme, nat) kernel" where
  "bget_lock i =
     bnd (acquiresleep (ChanBufLock i) (\<lambda>s. b_lock (bufs s ! i)) (set_lock i)) (\<lambda>_. ret i)"

definition bget :: "uint \<Rightarrow> uint \<Rightarrow> ('a bcache_scheme, nat) kernel" where
  "bget dev blockno =
     bnd (fetch bufs) (\<lambda>bs.
     case scan_ring (\<lambda>i. b_next (bs ! i))
            (\<lambda>i. b_dev (bs ! i) = dev \<and> b_blockno (bs ! i) = blockno) (b_next (bs ! NBUF)) of
       None \<Rightarrow> stuck Diverges
     | Some (Some i) \<Rightarrow>
         bnd (modify (buf_upd i (\<lambda>b. b\<lparr>b_refcnt := b_refcnt b + 1\<rparr>))) (\<lambda>_. bget_lock i)
     | Some None \<Rightarrow>
         (case scan_ring (\<lambda>i. b_prev (bs ! i))
                (\<lambda>i. b_refcnt (bs ! i) = 0 \<and> \<not> b_dirty (bs ! i)) (b_prev (bs ! NBUF)) of
            None \<Rightarrow> stuck Diverges
          | Some None \<Rightarrow> panic ''bget: no buffers''
          | Some (Some i) \<Rightarrow>
              bnd (modify (buf_upd i (\<lambda>b. b\<lparr>b_dev := dev, b_blockno := blockno,
                     b_valid := False, b_dirty := False, b_refcnt := 1\<rparr>)))
                  (\<lambda>_. bget_lock i)))"

definition bread :: "uint \<Rightarrow> uint \<Rightarrow> ('a bcache_scheme, nat) kernel" where
  "bread dev blockno =
     bnd (bget dev blockno) (\<lambda>i.
     bnd (fetch (\<lambda>s. b_valid (bufs s ! i))) (\<lambda>v.
     bnd (whenk (\<not> v) (iderw i)) (\<lambda>_. ret i)))"

definition bwrite :: "nat \<Rightarrow> ('a bcache_scheme, unit) kernel" where
  "bwrite i =
     bnd (holdingsleep (\<lambda>s. b_lock (bufs s ! i))) (\<lambda>h.
     if \<not> h then panic ''bwrite''
     else bnd (modify (buf_upd i (\<lambda>b. b\<lparr>b_dirty := True\<rparr>))) (\<lambda>_. iderw i))"

definition brelse :: "nat \<Rightarrow> ('a bcache_scheme, unit) kernel" where
  "brelse i =
     bnd (holdingsleep (\<lambda>s. b_lock (bufs s ! i))) (\<lambda>h.
     if \<not> h then panic ''brelse''
     else
       bnd (releasesleep (ChanBufLock i) (set_lock i)) (\<lambda>_.
       bnd (modify (buf_upd i (\<lambda>b. b\<lparr>b_refcnt := b_refcnt b - 1\<rparr>))) (\<lambda>_.
       bnd (fetch (\<lambda>s. b_refcnt (bufs s ! i))) (\<lambda>r.
       whenk (r = 0) (modify (\<lambda>s. link_head i (unlink_buf i s)))))))"

subsection \<open>The ring as a sequence\<close>

definition nexts :: "buf list \<Rightarrow> nat \<Rightarrow> nat" where "nexts bs i = b_next (bs ! i)"
definition prevs :: "buf list \<Rightarrow> nat \<Rightarrow> nat" where "prevs bs i = b_prev (bs ! i)"

text \<open>\<open>lru bs xs\<close>: the ring links all buffers, in the order \<open>xs\<close> from most to least recent.\<close>

definition lru :: "buf list \<Rightarrow> nat list \<Rightarrow> bool" where
  "lru bs xs \<longleftrightarrow> length bs = Suc NBUF \<and> distinct xs \<and> set xs = {..<NBUF} \<and>
     dll (nexts bs) (prevs bs) NBUF xs NBUF"

lemma scan_next:
  "dll nxt prv a xs NBUF \<Longrightarrow> NBUF \<notin> set xs \<Longrightarrow> scan_ring nxt P (nxt a) = Some (find P xs)"
proof (induction xs arbitrary: a)
  case Nil
  then show ?case by (simp add: scan_ring.simps)
next
  case (Cons x xs)
  then have "nxt a = x" "scan_ring nxt P (nxt x) = Some (find P xs)" "x \<noteq> NBUF" by auto
  then show ?case using scan_ring.simps[of nxt P x] by simp
qed

lemma scan_prev:
  "dll nxt prv NBUF xs z \<Longrightarrow> NBUF \<notin> set xs \<Longrightarrow> scan_ring prv P (prv z) = Some (find P (rev xs))"
proof (induction xs arbitrary: z rule: rev_induct)
  case Nil
  then show ?case by (simp add: scan_ring.simps)
next
  case (snoc x xs)
  then have "prv z = x" "scan_ring prv P (prv x) = Some (find P (rev xs))" "x \<noteq> NBUF"
    by (auto simp: dll_append)
  then show ?case using scan_ring.simps[of prv P x] by simp
qed

lemma lru_length: "lru bs xs \<Longrightarrow> length bs = Suc NBUF"
  and lru_distinct: "lru bs xs \<Longrightarrow> distinct (NBUF # xs)"
  and lru_set: "lru bs xs \<Longrightarrow> set xs = {..<NBUF}"
  by (auto simp: lru_def)

lemma lru_scan_next:
  "lru bs xs \<Longrightarrow> scan_ring (\<lambda>i. b_next (bs ! i)) P (b_next (bs ! NBUF)) = Some (find P xs)"
  using scan_next[of "nexts bs" "prevs bs" NBUF xs P]
  by (auto simp: lru_def nexts_def[symmetric, abs_def])

lemma lru_scan_prev:
  "lru bs xs \<Longrightarrow> scan_ring (\<lambda>i. b_prev (bs ! i)) P (b_prev (bs ! NBUF)) = Some (find P (rev xs))"
  using scan_prev[of "nexts bs" "prevs bs" xs NBUF P]
  by (auto simp: lru_def prevs_def[symmetric, abs_def])

lemma nth_upd_field: "f (bs[i := b] ! j) = (if i = j \<and> j < length bs then f b else f (bs ! j))"
  by (cases "i = j"; cases "j < length bs") (auto simp: list_update_beyond)

lemma nexts_upd [simp]: "i < length bs \<Longrightarrow> nexts (bs[i := b]) = (nexts bs)(i := b_next b)"
  and prevs_upd [simp]: "i < length bs \<Longrightarrow> prevs (bs[i := b]) = (prevs bs)(i := b_prev b)"
  by (rule ext, simp add: nexts_def prevs_def nth_upd_field[of b_next] nth_upd_field[of b_prev])+

lemma lru_upd:
  "b_next b = b_next (bs ! i) \<Longrightarrow> b_prev b = b_prev (bs ! i) \<Longrightarrow> lru (bs[i := b]) xs = lru bs xs"
proof (cases "i < length bs")
  assume "b_next b = b_next (bs ! i)" "b_prev b = b_prev (bs ! i)" "i < length bs"
  moreover from this have "(nexts bs)(i := b_next b) = nexts bs" "(prevs bs)(i := b_prev b) = prevs bs"
    by (simp_all add: fun_upd_idem nexts_def prevs_def)
  ultimately show ?thesis by (simp add: lru_def)
qed (simp add: list_update_beyond)

text \<open>The contents of a buffer, without its links.\<close>

definition erase :: "buf \<Rightarrow> buf" where
  "erase b = b\<lparr>b_prev := 0, b_next := 0\<rparr>"

lemma erase_eq_sel:
  "erase b = erase b' \<Longrightarrow> b_valid b = b_valid b'" "erase b = erase b' \<Longrightarrow> b_dirty b = b_dirty b'"
  "erase b = erase b' \<Longrightarrow> b_dev b = b_dev b'" "erase b = erase b' \<Longrightarrow> b_blockno b = b_blockno b'"
  "erase b = erase b' \<Longrightarrow> b_lock b = b_lock b'" "erase b = erase b' \<Longrightarrow> b_refcnt b = b_refcnt b'"
  "erase b = erase b' \<Longrightarrow> b_data b = b_data b'"
  by (cases b; cases b'; simp add: erase_def)+

lemma erase_upd [simp]: "erase (b\<lparr>b_prev := x\<rparr>) = erase b" "erase (b\<lparr>b_next := x\<rparr>) = erase b"
  by (simp_all add: erase_def)

lemma erase_nth_upd [simp]:
  "erase (bs[i := b] ! j) = (if i = j \<and> j < length bs then erase b else erase (bs ! j))"
  by (rule nth_upd_field)

lemma bufs_buf_upd [simp]: "bufs (buf_upd k f s) = (bufs s)[k := f (bufs s ! k)]"
  by (simp add: buf_upd_def)

lemma buf_upd_frame: "buf_upd k f s = s\<lparr>bufs := bufs (buf_upd k f s)\<rparr>"
  by (simp add: buf_upd_def)

lemma link_head_unlink_bufs:
  "erase (bufs (link_head i s) ! j) = erase (bufs s ! j)"
  "erase (bufs (unlink_buf i s) ! j) = erase (bufs s ! j)"
  by (auto simp: link_head_def unlink_buf_def Let_def nth_upd_field[of erase])

lemma link_head_frame: "link_head i s = s\<lparr>bufs := bufs (link_head i s)\<rparr>"
  and unlink_buf_frame: "unlink_buf i s = s\<lparr>bufs := bufs (unlink_buf i s)\<rparr>"
  by (simp_all add: link_head_def unlink_buf_def Let_def buf_upd_def)

lemma nexts_prevs_sel: "b_next (bs ! i) = nexts bs i" "b_prev (bs ! i) = prevs bs i"
  by (simp_all add: nexts_def prevs_def)

lemma link_head_dll:
  assumes "length (bufs s) = Suc NBUF" "dll (nexts (bufs s)) (prevs (bufs s)) NBUF xs NBUF"
    "distinct xs" "set xs \<subseteq> {..<NBUF}" "i < NBUF" "i \<notin> set xs"
  shows "dll (nexts (bufs (link_head i s))) (prevs (bufs (link_head i s))) NBUF (i # xs) NBUF"
proof -
  let ?n = "nexts (bufs s)" and ?p = "prevs (bufs s)"
  have first: "?n NBUF = hd (xs @ [NBUF])" using dll_first[OF assms(2)] .
  then have b: "?n NBUF < Suc NBUF" "?n NBUF \<noteq> i" using assms(4-6) by (cases xs; auto)+
  have "nexts (bufs (link_head i s)) = ?n(i := ?n NBUF, NBUF := i)"
    "prevs (bufs (link_head i s)) = ?p(i := NBUF, ?n NBUF := i)"
    using assms(1,5) b by (auto simp: link_head_def Let_def nexts_prevs_sel fun_eq_iff)
  moreover have "dll (?n(i := ?n NBUF, NBUF := i)) (?p(i := NBUF, ?n NBUF := i)) NBUF (i # xs) NBUF"
    using assms by (intro dll_link_front) auto
  ultimately show ?thesis by (simp only:)
qed

lemma unlink_buf_dll:
  assumes "lru (bufs s) xs" "i < NBUF"
  shows "dll (nexts (bufs (unlink_buf i s))) (prevs (bufs (unlink_buf i s))) NBUF (remove1 i xs) NBUF"
proof -
  let ?n = "nexts (bufs s)" and ?p = "prevs (bufs s)"
  have len: "length (bufs s) = Suc NBUF" and d: "dll ?n ?p NBUF xs NBUF" "distinct (NBUF # xs)"
    and i: "i \<in> set xs" and xs: "set xs = {..<NBUF}" using assms by (auto simp: lru_def)
  obtain ys zs where sp: "xs = ys @ i # zs" "i \<notin> set ys" using i by (meson split_list_first)
  have b: "?n i < Suc NBUF" "?p i < Suc NBUF"
    using dll_neighbours(3,4)[OF d i] unfolding xs by (metis insertE lessI lessThan_iff less_SucI)+
  have "nexts (bufs (unlink_buf i s)) = ?n(?p i := ?n i)" "prevs (bufs (unlink_buf i s)) = ?p(?n i := ?p i)"
    by (rule ext, simp add: unlink_buf_def Let_def nexts_prevs_sel len b)+
  moreover have "dll (?n(?p i := ?n i)) (?p(?n i := ?p i)) NBUF (ys @ zs) NBUF"
    using d sp by (intro dll_unlink) auto
  moreover have "remove1 i xs = ys @ zs" using sp by (simp add: remove1_append)
  ultimately show ?thesis by (simp only:)
qed

lemma length_link_unlink [simp]:
  "length (bufs (link_head i s)) = length (bufs s)" "length (bufs (unlink_buf i s)) = length (bufs s)"
  by (simp_all add: link_head_def unlink_buf_def Let_def)

lemma move_front_lru:
  assumes "lru (bufs s) xs" "i < NBUF"
  shows "lru (bufs (link_head i (unlink_buf i s))) (i # remove1 i xs)"
  using assms unlink_buf_dll[OF assms] link_head_dll[of "unlink_buf i s" "remove1 i xs" i]
  by (auto simp: lru_def)

lemma binit_prefix:
  assumes "length (bufs s) = Suc NBUF" "k \<le> NBUF"
  defines "s' \<equiv> fold (\<lambda>i s. set_lock i initsleeplock (link_head i s)) [0..<k]
      (buf_upd NBUF (\<lambda>b. b\<lparr>b_prev := NBUF, b_next := NBUF\<rparr>) s)"
  shows "length (bufs s') = Suc NBUF \<and> dll (nexts (bufs s')) (prevs (bufs s')) NBUF (rev [0..<k]) NBUF"
  unfolding s'_def using assms(2)
proof (induction k)
  case 0
  then show ?case using assms(1) by simp
next
  case (Suc k)
  let ?s = "fold (\<lambda>i s. set_lock i initsleeplock (link_head i s)) [0..<k]
      (buf_upd NBUF (\<lambda>b. b\<lparr>b_prev := NBUF, b_next := NBUF\<rparr>) s)"
  have len: "length (bufs ?s) = Suc NBUF" and d: "dll (nexts (bufs ?s)) (prevs (bufs ?s)) NBUF (rev [0..<k]) NBUF"
    using Suc by auto
  let ?bs = "bufs (link_head k ?s)"
  have "dll (nexts ?bs) (prevs ?bs) NBUF (k # rev [0..<k]) NBUF"
    using len d Suc.prems by (intro link_head_dll) auto
  moreover have "nexts (bufs (set_lock k initsleeplock (link_head k ?s))) = nexts ?bs"
    "prevs (bufs (set_lock k initsleeplock (link_head k ?s))) = prevs ?bs"
    by (rule ext, simp add: nexts_def prevs_def nth_upd_field[of b_next] nth_upd_field[of b_prev])+
  ultimately show ?case using len by simp
qed

lemma binit_lru:
  "length (bufs s) = Suc NBUF \<Longrightarrow> lru (bufs (binit s)) (rev [0..<NBUF])"
  using binit_prefix[of s NBUF] by (auto simp: lru_def binit_def)

subsection \<open>The cache's invariant and what it holds\<close>

text \<open>
  A buffer in a consistent state: a modified buffer has been read, a buffer is referenced
  once exactly while it is locked (no process waits for it), buffers in use belong to the
  disk, and an idle clean buffer agrees with the disk.
\<close>

definition buf_ok :: "(uint \<Rightarrow> block) \<Rightarrow> buf \<Rightarrow> bool" where
  "buf_ok d b \<longleftrightarrow> (b_dirty b \<longrightarrow> b_valid b) \<and>
     b_refcnt b = (if sl_locked (b_lock b) then 1 else 0) \<and>
     (sl_locked (b_lock b) \<or> b_dirty b \<longrightarrow> b_dev b = 1) \<and>
     (b_dev b = 1 \<and> b_valid b \<and> \<not> b_dirty b \<and> \<not> sl_locked (b_lock b) \<longrightarrow> b_data b = d (b_blockno b))"

text \<open>Buffer \<open>b\<close> caches block \<open>bn\<close> of the disk.\<close>

definition caches :: "uint \<Rightarrow> buf \<Rightarrow> bool" where
  "caches bn b \<longleftrightarrow> b_dev b = 1 \<and> b_blockno b = bn"

definition uniq :: "buf list \<Rightarrow> bool" where
  "uniq bs \<longleftrightarrow> (\<forall>i<NBUF. \<forall>j<NBUF. \<forall>bn. caches bn (bs ! i) \<and> caches bn (bs ! j) \<longrightarrow> i = j)"

definition bio_inv :: "'a bcache_scheme \<Rightarrow> bool" where
  "bio_inv s \<longleftrightarrow> (\<exists>xs. lru (bufs s) xs) \<and> uniq (bufs s) \<and> (\<forall>i<NBUF. buf_ok (disk s) (bufs s ! i)) \<and> in_proc s"

text \<open>The contents of the disk as seen through the cache.\<close>

definition view_of :: "(uint \<Rightarrow> block) \<Rightarrow> buf list \<Rightarrow> uint \<Rightarrow> block" where
  "view_of d bs bn =
     (case find_idx (\<lambda>b. caches bn b \<and> b_valid b) (take NBUF bs) of
        None \<Rightarrow> d bn | Some i \<Rightarrow> b_data (bs ! i))"

abbreviation view :: "'a bcache_scheme \<Rightarrow> uint \<Rightarrow> block" where
  "view s \<equiv> view_of (disk s) (bufs s)"

definition blocks_with :: "(buf \<Rightarrow> bool) \<Rightarrow> buf list \<Rightarrow> uint set" where
  "blocks_with P bs = {bn. \<exists>i<NBUF. caches bn (bs ! i) \<and> P (bs ! i)}"

abbreviation dirty_blocks :: "'a bcache_scheme \<Rightarrow> uint set" where
  "dirty_blocks s \<equiv> blocks_with b_dirty (bufs s)"

abbreviation locked_blocks :: "'a bcache_scheme \<Rightarrow> uint set" where
  "locked_blocks s \<equiv> blocks_with (\<lambda>b. sl_locked (b_lock b)) (bufs s)"

text \<open>The running process holds buffer \<open>i\<close>, which contains block \<open>bn\<close>.\<close>

definition held :: "'a bcache_scheme \<Rightarrow> nat \<Rightarrow> uint \<Rightarrow> bool" where
  "held s i bn \<longleftrightarrow> i < NBUF \<and> caches bn (bufs s ! i) \<and> b_valid (bufs s ! i) \<and>
     b_lock (bufs s ! i) = held_by (mypid s) \<and> bn < disksize s"

lemma uniqD: "uniq bs \<Longrightarrow> i < NBUF \<Longrightarrow> j < NBUF \<Longrightarrow> caches bn (bs ! i) \<Longrightarrow> caches bn (bs ! j) \<Longrightarrow> i = j"
  unfolding uniq_def by blast

lemma caches_inj: "caches bn b \<Longrightarrow> caches bn' b \<Longrightarrow> bn = bn'"
  by (auto simp: caches_def)

lemma view_of_cached:
  assumes "uniq bs" "i < NBUF" "NBUF \<le> length bs" "caches bn (bs ! i)" "b_valid (bs ! i)"
  shows "view_of d bs bn = b_data (bs ! i)"
proof -
  have "find_idx (\<lambda>b. caches bn b \<and> b_valid b) (take NBUF bs) = Some i"
    using assms uniqD[OF assms(1)] by (intro find_idx_unique) auto
  then show ?thesis by (simp add: view_of_def)
qed

lemma view_of_uncached:
  "NBUF \<le> length bs \<Longrightarrow> (\<And>i. i < NBUF \<Longrightarrow> caches bn (bs ! i) \<Longrightarrow> \<not> b_valid (bs ! i)) \<Longrightarrow>
   view_of d bs bn = d bn"
  by (auto simp: view_of_def find_idx_Some_iff split: option.split)

text \<open>Replacing the buffer in slot \<open>i\<close> by one that caches block \<open>bn\<close>, when no other slot does.\<close>

definition only_slot :: "buf list \<Rightarrow> nat \<Rightarrow> uint \<Rightarrow> bool" where
  "only_slot bs i bn \<longleftrightarrow> (\<forall>j<NBUF. j \<noteq> i \<longrightarrow> \<not> caches bn (bs ! j))"

lemma only_slotI: "uniq bs \<Longrightarrow> i < NBUF \<Longrightarrow> caches bn (bs ! i) \<Longrightarrow> only_slot bs i bn"
  using uniqD[of bs] by (auto simp: only_slot_def)

lemma uniq_replace:
  assumes "uniq bs" "i < NBUF" "NBUF \<le> length bs" "caches bn b" "only_slot bs i bn"
  shows "uniq (bs[i := b])"
  unfolding uniq_def
proof (intro allI impI)
  fix j k bn' assume *: "j < NBUF" "k < NBUF" "caches bn' (bs[i := b] ! j) \<and> caches bn' (bs[i := b] ! k)"
  have new: "caches bn' b \<Longrightarrow> bn' = bn" using assms(4) caches_inj by blast
  consider "j = i" "k = i" | "j = i" "k \<noteq> i" | "j \<noteq> i" "k = i" | "j \<noteq> i" "k \<noteq> i" by blast
  then show "j = k"
  proof cases
    case 2
    then show ?thesis using * new assms(2,3,5) by (auto simp: only_slot_def)
  next
    case 3
    then show ?thesis using * new assms(2,3,5) by (auto simp: only_slot_def)
  next
    case 4
    then show ?thesis using * uniqD[OF assms(1), of j k bn'] by simp
  qed simp
qed

lemma view_of_replace:
  assumes u: "uniq bs" "i < NBUF" "NBUF \<le> length bs" "caches bn b" "only_slot bs i bn" "b_valid b"
    and old: "\<And>o'. caches o' (bs ! i) \<Longrightarrow> b_valid (bs ! i) \<Longrightarrow> o' \<noteq> bn \<Longrightarrow> b_data (bs ! i) = d o'"
    and d: "\<And>x. x \<noteq> bn \<Longrightarrow> d' x = d x"
  shows "view_of d' (bs[i := b]) = (view_of d bs)(bn := b_data b)"
proof (rule ext)
  fix x
  have u': "uniq (bs[i := b])" using u by (intro uniq_replace)
  show "view_of d' (bs[i := b]) x = ((view_of d bs)(bn := b_data b)) x"
  proof (cases "x = bn")
    case True
    then show ?thesis using u view_of_cached[OF u', of i bn d'] by simp
  next
    case False
    show ?thesis
    proof (cases "\<exists>j<NBUF. j \<noteq> i \<and> caches x (bs ! j) \<and> b_valid (bs ! j)")
      case True
      then obtain j where j: "j < NBUF" "j \<noteq> i" "caches x (bs ! j)" "b_valid (bs ! j)" by blast
      then show ?thesis
        using False u view_of_cached[OF u', of j x d'] view_of_cached[OF u(1), of j x d] by simp
    next
      case none: False
      have "view_of d' (bs[i := b]) x = d' x"
        using none False u caches_inj[OF u(4), of x] by (intro view_of_uncached) (auto simp: nth_list_update_if)
      moreover have "view_of d bs x = d x"
      proof (cases "caches x (bs ! i) \<and> b_valid (bs ! i)")
        case True
        then show ?thesis using old[of x] False view_of_cached[OF u(1-3), of x d] by simp
      next
        case no: False
        then show ?thesis using none u(3) by (intro view_of_uncached) blast+
      qed
      ultimately show ?thesis using False d[of x] by simp
    qed
  qed
qed

lemma blocks_with_replace:
  assumes "i < NBUF" "NBUF \<le> length bs" "caches bn b" "only_slot bs i bn"
    and "P (bs ! i) \<Longrightarrow> b_dev (bs ! i) = 1 \<Longrightarrow> b_blockno (bs ! i) = bn"
  shows "blocks_with P (bs[i := b]) = (if P b then insert bn (blocks_with P bs) else blocks_with P bs - {bn})"
proof (rule set_eqI)
  fix x
  have split: "x \<in> blocks_with P cs \<longleftrightarrow> caches x (cs ! i) \<and> P (cs ! i) \<or>
      (\<exists>j<NBUF. j \<noteq> i \<and> caches x (cs ! j) \<and> P (cs ! j))" for cs
    using assms(1) by (auto simp: blocks_with_def)
  have "(\<exists>j<NBUF. j \<noteq> i \<and> caches x (bs[i := b] ! j) \<and> P (bs[i := b] ! j)) \<longleftrightarrow>
      (\<exists>j<NBUF. j \<noteq> i \<and> caches x (bs ! j) \<and> P (bs ! j))" by auto
  moreover have "caches x (bs[i := b] ! i) \<and> P (bs[i := b] ! i) \<longleftrightarrow> x = bn \<and> P b"
    using assms(1,2,3) caches_inj by auto
  moreover have "caches x (bs ! i) \<and> P (bs ! i) \<Longrightarrow> x = bn" using assms(5) by (auto simp: caches_def)
  moreover have "x = bn \<Longrightarrow> \<not> (\<exists>j<NBUF. j \<noteq> i \<and> caches x (bs ! j) \<and> P (bs ! j))"
    using assms(4) by (auto simp: only_slot_def)
  ultimately show "x \<in> blocks_with P (bs[i := b]) \<longleftrightarrow>
      x \<in> (if P b then insert bn (blocks_with P bs) else blocks_with P bs - {bn})"
    unfolding split[of "bs[i := b]"] if_distrib[of "(\<in>) x"] using split[of bs] by auto
qed

lemma blocks_with_erase:
  assumes "\<And>j. j < NBUF \<Longrightarrow> erase (bs' ! j) = erase (bs ! j)"
    and "\<And>b b'. erase b = erase b' \<Longrightarrow> P b = P b'"
  shows "blocks_with P bs' = blocks_with P bs"
proof -
  have "caches x (bs' ! j) = caches x (bs ! j)" "P (bs' ! j) = P (bs ! j)" if "j < NBUF" for x j
    using erase_eq_sel(3,4)[OF assms(1)[OF that]] assms(2)[OF assms(1)[OF that]]
    by (simp_all add: caches_def)
  then show ?thesis by (auto simp: blocks_with_def)
qed

subsection \<open>What the operations do\<close>

lemma bio_invD:
  assumes "bio_inv s"
  shows "uniq (bufs s)" "length (bufs s) = Suc NBUF" "in_proc s"
    "i < NBUF \<Longrightarrow> buf_ok (disk s) (bufs s ! i)" "\<exists>xs. lru (bufs s) xs"
  using assms by (auto simp: bio_inv_def lru_def)

lemma bio_inv_replace:
  assumes inv: "bio_inv s" and i: "i < NBUF" and b: "caches bn b" "only_slot (bufs s) i bn"
    and links: "b_next b = b_next (bufs s ! i)" "b_prev b = b_prev (bufs s ! i)"
    and ok: "buf_ok d b" and d: "\<And>x. x \<noteq> bn \<Longrightarrow> d x = disk s x"
  shows "bio_inv (s\<lparr>disk := d, bufs := (bufs s)[i := b]\<rparr>)"
proof -
  note D = bio_invD[OF inv]
  have "buf_ok d ((bufs s)[i := b] ! j)" if "j < NBUF" for j
  proof (cases "j = i")
    case True
    then show ?thesis using ok i D(2) by simp
  next
    case False
    have "buf_ok (disk s) (bufs s ! j)" using D(4) that by blast
    moreover have "b_dev (bufs s ! j) = 1 \<Longrightarrow> d (b_blockno (bufs s ! j)) = disk s (b_blockno (bufs s ! j))"
      using b(2) that False by (intro d) (auto simp: only_slot_def caches_def)
    ultimately show ?thesis using False by (auto simp: buf_ok_def)
  qed
  moreover have "uniq ((bufs s)[i := b])" using D b i by (intro uniq_replace) auto
  moreover have "\<exists>xs. lru ((bufs s)[i := b]) xs" using D(5) lru_upd[OF links] by simp
  ultimately show ?thesis using D(3) by (simp add: bio_inv_def in_proc_def)
qed

lemma find_SomeD: "find P xs = Some i \<Longrightarrow> i \<in> set xs \<and> P i"
  by (auto simp: find_Some_iff in_set_conv_nth)

lemma find_unique:
  assumes "i \<in> set xs" "P i" "\<And>j. j \<in> set xs \<Longrightarrow> P j \<Longrightarrow> j = i"
  shows "find P xs = Some i"
proof (cases "find P xs")
  case None
  then show ?thesis using assms(1,2) by (simp add: find_None_iff)
next
  case (Some j)
  then show ?thesis using assms(3) find_SomeD[OF Some] by blast
qed

lemma free_buffer:
  assumes inv: "bio_inv s" and room: "card (dirty_blocks s \<union> locked_blocks s) < NBUF"
  shows "\<exists>i<NBUF. b_refcnt (bufs s ! i) = 0 \<and> \<not> b_dirty (bufs s ! i)"
proof (rule ccontr)
  assume none: "\<not> ?thesis"
  let ?bn = "\<lambda>i. b_blockno (bufs s ! i)"
  have busy: "caches (?bn i) (bufs s ! i) \<and> (b_dirty (bufs s ! i) \<or> sl_locked (b_lock (bufs s ! i)))"
    if "i < NBUF" for i
    using none that bio_invD(4)[OF inv that] by (auto simp: buf_ok_def caches_def split: if_splits)
  have "inj_on ?bn {..<NBUF}"
  proof (rule inj_onI)
    fix i j assume ij: "i \<in> {..<NBUF}" "j \<in> {..<NBUF}" "?bn i = ?bn j"
    then have "caches (?bn i) (bufs s ! i)" "caches (?bn i) (bufs s ! j)"
      using busy[of i] busy[of j] by auto
    then show "i = j" using ij uniqD[OF bio_invD(1)[OF inv]] by blast
  qed
  then have "NBUF = card (?bn ` {..<NBUF})" by (simp add: card_image)
  also have "\<dots> \<le> card (dirty_blocks s \<union> locked_blocks s)"
  proof (rule card_mono)
    have "dirty_blocks s \<union> locked_blocks s \<subseteq> ?bn ` {..<NBUF}"
      by (auto simp: blocks_with_def caches_def)
    then show "finite (dirty_blocks s \<union> locked_blocks s)" by (rule finite_subset) simp
    show "?bn ` {..<NBUF} \<subseteq> dirty_blocks s \<union> locked_blocks s"
      using busy unfolding blocks_with_def by blast
  qed
  finally show False using room by simp
qed

lemma acquiresleep_run:
  "in_proc s \<Longrightarrow> \<not> sl_locked (lk s) \<Longrightarrow>
   acquiresleep c lk upd s = Inr ((), upd (held_by (mypid s)) s)"
  by (auto simp: acquiresleep_def bnd_def fetch_def myproc_def modify_def in_proc_def held_by_def mypid_def)

lemma bget_lock_run:
  assumes "in_proc s" "\<not> sl_locked (b_lock b)" "i < length (bufs s)"
  shows "bget_lock i (s\<lparr>bufs := (bufs s)[i := b]\<rparr>) =
     Inr (i, s\<lparr>bufs := (bufs s)[i := b\<lparr>b_lock := held_by (mypid s)\<rparr>]\<rparr>)"
proof -
  let ?s = "s\<lparr>bufs := (bufs s)[i := b]\<rparr>"
  have "acquiresleep (ChanBufLock i) (\<lambda>s. b_lock (bufs s ! i)) (set_lock i) ?s =
      Inr ((), set_lock i (held_by (mypid s)) ?s)"
    using assms by (subst acquiresleep_run) (simp_all add: in_proc_def mypid_def)
  then show ?thesis using assms by (simp add: bget_lock_def bnd_run ret_run buf_upd_def)
qed

lemma bget_hit:
  assumes inv: "bio_inv s" and i: "i < NBUF" "caches bn (bufs s ! i)" "\<not> sl_locked (b_lock (bufs s ! i))"
  shows "bget 1 bn s = Inr (i, s\<lparr>bufs := (bufs s)[i :=
    (bufs s ! i)\<lparr>b_refcnt := 1, b_lock := held_by (mypid s)\<rparr>]\<rparr>)"
proof -
  note D = bio_invD[OF inv]
  obtain xs where xs: "lru (bufs s) xs" using D(5) by blast
  have "find (\<lambda>i. b_dev (bufs s ! i) = 1 \<and> b_blockno (bufs s ! i) = bn) xs = Some i"
    using i lru_set[OF xs] uniqD[OF D(1)] by (intro find_unique) (auto simp: caches_def)
  moreover have "b_refcnt (bufs s ! i) = 0" using D(4)[OF i(1)] i(3) by (simp add: buf_ok_def)
  moreover have "bget_lock i (buf_upd i (\<lambda>b. b\<lparr>b_refcnt := 1\<rparr>) s) = Inr (i, s\<lparr>bufs := (bufs s)[i :=
      (bufs s ! i)\<lparr>b_refcnt := 1, b_lock := held_by (mypid s)\<rparr>]\<rparr>)"
    using bget_lock_run[of s "(bufs s ! i)\<lparr>b_refcnt := 1\<rparr>" i] D i by (simp add: buf_upd_def)
  ultimately show ?thesis
    by (simp add: bget_def bnd_def fetch_run modify_run lru_scan_next[OF xs] buf_upd_def)
qed

lemma bget_miss:
  assumes inv: "bio_inv s" and none: "\<And>i. i < NBUF \<Longrightarrow> \<not> caches bn (bufs s ! i)"
    and room: "card (dirty_blocks s \<union> locked_blocks s) < NBUF"
  obtains i where "i < NBUF" "b_refcnt (bufs s ! i) = 0" "\<not> b_dirty (bufs s ! i)"
    "bget 1 bn s = Inr (i, s\<lparr>bufs := (bufs s)[i := (bufs s ! i)\<lparr>b_dev := 1, b_blockno := bn,
       b_valid := False, b_dirty := False, b_refcnt := 1, b_lock := held_by (mypid s)\<rparr>]\<rparr>)"
proof -
  note D = bio_invD[OF inv]
  obtain xs where xs: "lru (bufs s) xs" using D(5) by blast
  let ?P = "\<lambda>i. b_refcnt (bufs s ! i) = 0 \<and> \<not> b_dirty (bufs s ! i)"
  have miss: "find (\<lambda>i. b_dev (bufs s ! i) = 1 \<and> b_blockno (bufs s ! i) = bn) xs = None"
    using none lru_set[OF xs] by (auto simp: find_None_iff caches_def)
  obtain i where i: "find ?P (rev xs) = Some i"
    using free_buffer[OF inv room] lru_set[OF xs] by (cases "find ?P (rev xs)") (auto simp: find_None_iff)
  then have P: "i < NBUF" "?P i" using find_SomeD[OF i] lru_set[OF xs] by auto
  moreover have "\<not> sl_locked (b_lock (bufs s ! i))"
    using D(4)[OF P(1)] P(2) by (auto simp: buf_ok_def)
  moreover let ?b = "(bufs s ! i)\<lparr>b_dev := 1, b_blockno := bn, b_valid := False, b_dirty := False, b_refcnt := 1\<rparr>"
  have "bget 1 bn s = bget_lock i (s\<lparr>bufs := (bufs s)[i := ?b]\<rparr>)"
    using miss i by (simp add: bget_def bnd_def fetch_run modify_run lru_scan_next[OF xs]
        lru_scan_prev[OF xs] buf_upd_def)
  ultimately show ?thesis using that[of i] bget_lock_run[of s ?b i] D by simp
qed

lemma iderw_read:
  assumes "in_proc s" "b_lock (bufs s ! i) = held_by (mypid s)" "\<not> b_valid (bufs s ! i)"
    "\<not> b_dirty (bufs s ! i)" "b_dev (bufs s ! i) = 1" "b_blockno (bufs s ! i) < disksize s"
  shows "iderw i s = Inr ((), buf_upd i (\<lambda>b. b\<lparr>b_data := disk s (b_blockno b), b_valid := True\<rparr>) s)"
proof -
  have "holdingsleep (\<lambda>s. b_lock (bufs s ! i)) s = Inr (True, s)"
    using wp_holdingsleep[OF assms(1), of "\<lambda>s. b_lock (bufs s ! i)" "\<lambda>r s'. r \<and> s' = s"] assms(2)
    by (auto simp: wp_iff)
  then show ?thesis using assms by (simp add: iderw_def bnd_def run_simps buf_upd_def)
qed

lemma iderw_write:
  assumes "in_proc s" "b_lock (bufs s ! i) = held_by (mypid s)"
    "b_dirty (bufs s ! i)" "b_dev (bufs s ! i) = 1" "b_blockno (bufs s ! i) = bn" "bn < disksize s"
  shows "iderw i s = Inr ((), buf_upd i (\<lambda>b. b\<lparr>b_dirty := False, b_valid := True\<rparr>)
    (s\<lparr>disk := (disk s)(bn := b_data (bufs s ! i)),
       dwrites := dwrites s @ [(bn, b_data (bufs s ! i))]\<rparr>))"
proof -
  have "holdingsleep (\<lambda>s. b_lock (bufs s ! i)) s = Inr (True, s)"
    using wp_holdingsleep[OF assms(1), of "\<lambda>s. b_lock (bufs s ! i)" "\<lambda>r s'. r \<and> s' = s"] assms(2)
    by (auto simp: wp_iff)
  then show ?thesis using assms by (simp add: iderw_def bnd_def run_simps)
qed

text \<open>Handing out buffer \<open>i\<close>, locked and filled, for block \<open>bn\<close>.\<close>

lemma bread_result:
  fixes s :: "'a bcache_scheme"
  assumes inv: "bio_inv s" and i: "i < NBUF" "only_slot (bufs s) i bn" "\<not> sl_locked (b_lock (bufs s ! i))"
    and b: "caches bn b" "b_valid b" "b_lock b = held_by (mypid s)" "b_refcnt b = 1"
      "b_next b = b_next (bufs s ! i)" "b_prev b = b_prev (bufs s ! i)" "b_data b = view s bn"
    and dirty: "b_dirty b = b_dirty (bufs s ! i)" "b_dirty (bufs s ! i) \<Longrightarrow> caches bn (bufs s ! i)"
    and bn: "bn < disksize s"
  defines "s' \<equiv> s\<lparr>bufs := (bufs s)[i := b]\<rparr>"
  shows "bio_inv s' \<and> held s' i bn \<and> view s' = view s \<and> dirty_blocks s' = dirty_blocks s \<and>
    locked_blocks s' = insert bn (locked_blocks s) \<and> (\<forall>j x. held s j x \<longrightarrow> held s' j x \<and> j \<noteq> i)"
proof -
  note D = bio_invD[OF inv]
  have le: "NBUF \<le> length (bufs s)" using D(2) by simp
  have "s' = s\<lparr>disk := disk s, bufs := (bufs s)[i := b]\<rparr>" by (simp add: s'_def)
  moreover have "buf_ok (disk s) b" using b by (auto simp: buf_ok_def caches_def)
  ultimately have inv': "bio_inv s'" using bio_inv_replace[OF inv i(1) b(1) i(2) b(5,6), of "disk s"] by simp
  have hld: "held s' i bn"
    using i b bn D(2) by (auto simp: held_def s'_def mypid_def)
  have old: "b_data (bufs s ! i) = disk s x"
    if "caches x (bufs s ! i)" "b_valid (bufs s ! i)" "x \<noteq> bn" for x
  proof -
    have "\<not> b_dirty (bufs s ! i)" using dirty(2) that caches_inj by blast
    then show ?thesis using D(4)[OF i(1)] i(3) that(1,2) by (simp add: buf_ok_def caches_def)
  qed
  have "view s' = (view s)(bn := b_data b)"
    using view_of_replace[OF D(1) i(1) le b(1) i(2) b(2) old refl] by (simp add: s'_def)
  then have vw: "view s' = view s" using b(7) by simp
  have "dirty_blocks s' = (if b_dirty b then insert bn (dirty_blocks s) else dirty_blocks s - {bn})"
    using blocks_with_replace[OF i(1) le b(1) i(2), of b_dirty] dirty(2) by (simp add: s'_def caches_def)
  moreover have "bn \<in> dirty_blocks s \<longleftrightarrow> b_dirty b"
  proof
    assume "bn \<in> dirty_blocks s"
    then obtain j where "j < NBUF" "caches bn (bufs s ! j)" "b_dirty (bufs s ! j)"
      by (auto simp: blocks_with_def)
    then show "b_dirty b" using i(2) dirty(1) by (cases "j = i") (auto simp: only_slot_def)
  next
    assume "b_dirty b"
    then show "bn \<in> dirty_blocks s" using i(1) dirty unfolding blocks_with_def by blast
  qed
  ultimately have dirty': "dirty_blocks s' = dirty_blocks s"
    by (cases "b_dirty b") (simp_all add: insert_absorb)
  moreover have "locked_blocks s' = insert bn (locked_blocks s)"
    using blocks_with_replace[OF i(1) le b(1) i(2), of "\<lambda>b. sl_locked (b_lock b)"] i(3) b(3)
    by (simp add: s'_def)
  moreover have "held s' j x \<and> j \<noteq> i" if "held s j x" for j x
  proof -
    have "j \<noteq> i" using that i(3) by (auto simp: held_def)
    then show ?thesis using that by (simp add: held_def s'_def mypid_def)
  qed
  ultimately show ?thesis using dirty' inv' hld vw by blast
qed

lemma bread_run:
  assumes get: "bget 1 bn s = Inr (i, s\<lparr>bufs := (bufs s)[i := b]\<rparr>)" and i: "i < length (bufs s)" "in_proc s"
    and b: "caches bn b" "b_lock b = held_by (mypid s)" "bn < disksize s" "\<not> b_valid b \<Longrightarrow> \<not> b_dirty b"
  shows "bread 1 bn s = Inr (i, s\<lparr>bufs := (bufs s)[i :=
    b\<lparr>b_data := if b_valid b then b_data b else disk s bn, b_valid := True\<rparr>]\<rparr>)"
proof (cases "b_valid b")
  case True
  then have "b\<lparr>b_data := if b_valid b then b_data b else disk s bn, b_valid := True\<rparr> = b" by simp
  then show ?thesis using True i(1)
    by (simp only: bread_def bnd_def get fetch_run ret_run whenk_run) simp
next
  case False
  let ?s = "s\<lparr>bufs := (bufs s)[i := b]\<rparr>"
  have "iderw i ?s = Inr ((), buf_upd i (\<lambda>b. b\<lparr>b_data := disk ?s (b_blockno b), b_valid := True\<rparr>) ?s)"
    using i b False by (intro iderw_read) (auto simp: in_proc_def mypid_def caches_def)
  then have "iderw i ?s = Inr ((), s\<lparr>bufs := (bufs s)[i := b\<lparr>b_data := disk s bn, b_valid := True\<rparr>]\<rparr>)"
    using b(1) i(1) by (simp add: buf_upd_def caches_def)
  then show ?thesis using False i(1)
    by (simp add: bread_def bnd_def get fetch_run ret_run whenk_run)
qed

lemma bread_from_bget:
  assumes inv: "bio_inv s" and get: "bget 1 bn s = Inr (i, s\<lparr>bufs := (bufs s)[i := b]\<rparr>)"
    and i: "i < NBUF" "only_slot (bufs s) i bn" "\<not> sl_locked (b_lock (bufs s ! i))" and bn: "bn < disksize s"
    and b: "caches bn b" "b_lock b = held_by (mypid s)" "b_refcnt b = 1"
      "b_next b = b_next (bufs s ! i)" "b_prev b = b_prev (bufs s ! i)" "b_dirty b \<Longrightarrow> b_valid b"
      "(if b_valid b then b_data b else disk s bn) = view s bn"
      "b_dirty b = b_dirty (bufs s ! i)" "b_dirty (bufs s ! i) \<Longrightarrow> caches bn (bufs s ! i)"
  shows "wp (bread 1 bn) (\<lambda>i s'. s' = s\<lparr>bufs := bufs s'\<rparr> \<and> bio_inv s' \<and> held s' i bn \<and>
    view s' = view s \<and> dirty_blocks s' = dirty_blocks s \<and>
    locked_blocks s' = insert bn (locked_blocks s) \<and> (\<forall>j x. held s j x \<longrightarrow> held s' j x \<and> j \<noteq> i)) s"
proof -
  define b' where "b' = b\<lparr>b_data := if b_valid b then b_data b else disk s bn, b_valid := True\<rparr>"
  have len: "i < length (bufs s)" using bio_invD(2)[OF inv] i(1) by simp
  have nb: "\<not> b_valid b \<Longrightarrow> \<not> b_dirty b" using b(6) by blast
  have run: "bread 1 bn s = Inr (i, s\<lparr>bufs := (bufs s)[i := b']\<rparr>)"
    unfolding b'_def using bread_run[OF get len bio_invD(3)[OF inv] b(1,2) bn nb] .
  have b': "caches bn b'" "b_valid b'" "b_lock b' = held_by (mypid s)" "b_refcnt b' = 1"
    "b_next b' = b_next (bufs s ! i)" "b_prev b' = b_prev (bufs s ! i)" "b_data b' = view s bn"
    "b_dirty b' = b_dirty (bufs s ! i)" using b(1-5,7,8) by (simp_all add: b'_def caches_def)
  show ?thesis unfolding wp_def run using bread_result[OF inv i b' b(9) bn] by simp
qed

lemma bread_spec:
  fixes s :: "'a bcache_scheme"
  assumes inv: "bio_inv s" and bn: "bn < disksize s" "bn \<notin> locked_blocks s"
    and room: "bn \<in> dirty_blocks s \<or> card (dirty_blocks s \<union> locked_blocks s) < NBUF"
  shows "wp (bread 1 bn) (\<lambda>i s'. s' = s\<lparr>bufs := bufs s'\<rparr> \<and> bio_inv s' \<and> held s' i bn \<and>
    view s' = view s \<and> dirty_blocks s' = dirty_blocks s \<and>
    locked_blocks s' = insert bn (locked_blocks s) \<and> (\<forall>j x. held s j x \<longrightarrow> held s' j x \<and> j \<noteq> i)) s"
proof (cases "\<exists>i<NBUF. caches bn (bufs s ! i)")
  case True
  then obtain i where i: "i < NBUF" "caches bn (bufs s ! i)" by blast
  note D = bio_invD(1-3)[OF inv] and ok = bio_invD(4)[OF inv i(1)]
  have unl: "\<not> sl_locked (b_lock (bufs s ! i))" using i bn(2) by (auto simp: blocks_with_def)
  have os: "only_slot (bufs s) i bn" using D(1) i by (rule only_slotI)
  have le: "NBUF \<le> length (bufs s)" using D(2) by simp
  have d: "(if b_valid (bufs s ! i) then b_data (bufs s ! i) else disk s bn) = view s bn"
  proof (cases "b_valid (bufs s ! i)")
    case True
    then show ?thesis using view_of_cached[OF D(1) i(1) le i(2), of "disk s"] by simp
  next
    case False
    then have "\<not> b_valid (bufs s ! j)" if "j < NBUF" "caches bn (bufs s ! j)" for j
      using uniqD[OF D(1) that(1) i(1) that(2) i(2)] by simp
    then show ?thesis using False view_of_uncached[OF le, of bn "disk s"] by simp
  qed
  show ?thesis
    using i ok d by (intro bread_from_bget[OF inv bget_hit[OF inv i unl] i(1) os unl bn(1)])
      (simp_all add: caches_def buf_ok_def split: if_splits)
next
  case False
  then have none: "\<And>i. i < NBUF \<Longrightarrow> \<not> caches bn (bufs s ! i)" by blast
  then have room: "card (dirty_blocks s \<union> locked_blocks s) < NBUF"
    using room by (auto simp: blocks_with_def)
  obtain i where i: "i < NBUF" "b_refcnt (bufs s ! i) = 0" "\<not> b_dirty (bufs s ! i)"
    and get: "bget 1 bn s = Inr (i, s\<lparr>bufs := (bufs s)[i := (bufs s ! i)\<lparr>b_dev := 1, b_blockno := bn,
       b_valid := False, b_dirty := False, b_refcnt := 1, b_lock := held_by (mypid s)\<rparr>]\<rparr>)"
    using bget_miss[OF inv none room] by blast
  have os: "only_slot (bufs s) i bn" using none by (simp add: only_slot_def)
  have unl: "\<not> sl_locked (b_lock (bufs s ! i))"
    using i bio_invD(4)[OF inv i(1)] by (auto simp: buf_ok_def)
  have "disk s bn = view s bn"
    using none bio_invD(2)[OF inv] by (intro view_of_uncached[symmetric]) auto
  then show ?thesis
    using i by (intro bread_from_bget[OF inv get i(1) os unl bn(1)]) (simp_all add: caches_def)
qed

text \<open>Changing the data of a held buffer.\<close>

lemma held_slot:
  assumes "bio_inv s" "held s i bn"
  shows "i < NBUF" "i < length (bufs s)" "NBUF \<le> length (bufs s)" "caches bn (bufs s ! i)" "only_slot (bufs s) i bn"
    "b_valid (bufs s ! i)" "b_lock (bufs s ! i) = held_by (mypid s)" "bn < disksize s" "b_refcnt (bufs s ! i) = 1"
    "view s bn = b_data (bufs s ! i)"
proof -
  note D = bio_invD[OF assms(1)]
  have h: "i < NBUF" "caches bn (bufs s ! i)" "b_valid (bufs s ! i)"
    "b_lock (bufs s ! i) = held_by (mypid s)" "bn < disksize s"
    using assms(2) by (auto simp: held_def)
  then show "i < NBUF" "i < length (bufs s)" "NBUF \<le> length (bufs s)" "caches bn (bufs s ! i)"
    "b_valid (bufs s ! i)" "b_lock (bufs s ! i) = held_by (mypid s)" "bn < disksize s" using D(2) by auto
  show "only_slot (bufs s) i bn" using D(1) h by (intro only_slotI)
  show "b_refcnt (bufs s ! i) = 1" using D(4)[OF h(1)] h(4) by (simp add: buf_ok_def)
  show "view s bn = b_data (bufs s ! i)" using D h view_of_cached[OF D(1) h(1) _ h(2,3)] by simp
qed

text \<open>Updating a held buffer in place, the lock and the links kept, the disk changed at most
  at the block the buffer holds.\<close>

lemma held_update:
  fixes s :: "'a bcache_scheme"
  assumes inv: "bio_inv s" and h: "held s i bn"
    and b: "caches bn b" "b_valid b" "b_lock b = b_lock (bufs s ! i)" "b_refcnt b = b_refcnt (bufs s ! i)"
      "b_next b = b_next (bufs s ! i)" "b_prev b = b_prev (bufs s ! i)"
    and d: "\<And>x. x \<noteq> bn \<Longrightarrow> d x = disk s x"
  defines "s' \<equiv> s\<lparr>disk := d, bufs := (bufs s)[i := b]\<rparr>"
  shows "bio_inv s'" "view s' = (view s)(bn := b_data b)"
    "dirty_blocks s' = (if b_dirty b then insert bn (dirty_blocks s) else dirty_blocks s - {bn})"
    "locked_blocks s' = locked_blocks s" "held s j x \<Longrightarrow> held s' j x"
proof -
  note D = bio_invD[OF inv] and H = held_slot[OF inv h]
  have bl: "b_lock b = held_by (mypid s)" "b_refcnt b = 1" using b(3,4) H(7,9) by simp_all
  have "buf_ok d b" using b(1,2) bl by (simp add: buf_ok_def caches_def)
  then show "bio_inv s'" unfolding s'_def
    using bio_inv_replace[OF inv H(1) b(1) H(5) b(5,6)] d by blast
  show "view s' = (view s)(bn := b_data b)"
    using view_of_replace[OF D(1) H(1,3) b(1) H(5) b(2), of "disk s" d] caches_inj[OF H(4)] d
    by (simp add: s'_def)
  have one: "P (bufs s ! i) \<Longrightarrow> b_dev (bufs s ! i) = 1 \<Longrightarrow> b_blockno (bufs s ! i) = bn" for P :: "buf \<Rightarrow> bool"
    using H(4) by (simp add: caches_def)
  show "dirty_blocks s' = (if b_dirty b then insert bn (dirty_blocks s) else dirty_blocks s - {bn})"
    using blocks_with_replace[OF H(1,3) b(1) H(5) one, of b_dirty] by (simp add: s'_def)
  have "bn \<in> locked_blocks s" using H(1,4,7) unfolding blocks_with_def by force
  then show "locked_blocks s' = locked_blocks s"
    using blocks_with_replace[OF H(1,3) b(1) H(5) one, of "\<lambda>b. sl_locked (b_lock b)"] bl(1)
    by (simp add: s'_def insert_absorb)
  show "held s' j x" if "held s j x"
  proof (cases "j = i")
    case True
    then have "x = bn" using that H(4) caches_inj by (auto simp: held_def)
    then show ?thesis using True b bl H by (simp add: held_def s'_def mypid_def)
  next
    case False
    then show ?thesis using that by (simp add: held_def s'_def mypid_def)
  qed
qed

definition set_data :: "nat \<Rightarrow> block \<Rightarrow> 'a bcache_scheme \<Rightarrow> 'a bcache_scheme" where
  "set_data i x s = buf_upd i (\<lambda>b. b\<lparr>b_data := x\<rparr>) s"

lemma bio_inv_indep [simp]:
  "bio_inv (s\<lparr>dwrites := w\<rparr>) = bio_inv s" "held (s\<lparr>dwrites := w\<rparr>) = held s"
  by (simp_all add: bio_inv_def in_proc_def held_def mypid_def fun_eq_iff)

lemma set_data_spec:
  fixes s :: "'a bcache_scheme"
  assumes inv: "bio_inv s" and h: "held s i bn"
  shows "bio_inv (set_data i x s)" "view (set_data i x s) = (view s)(bn := x)"
    "dirty_blocks (set_data i x s) = dirty_blocks s" "locked_blocks (set_data i x s) = locked_blocks s"
    "held s j y \<Longrightarrow> held (set_data i x s) j y"
proof -
  let ?b = "(bufs s ! i)\<lparr>b_data := x\<rparr>"
  note H = held_slot[OF inv h]
  have c: "caches bn ?b" "b_valid ?b" using H(4,6) by (simp_all add: caches_def)
  note U = held_update[OF inv h c, of "disk s"]
  have eq: "set_data i x s = s\<lparr>disk := disk s, bufs := (bufs s)[i := ?b]\<rparr>"
    by (simp add: set_data_def buf_upd_def)
  have "bn \<in> dirty_blocks s \<longleftrightarrow> b_dirty (bufs s ! i)"
    using H(1,4,5) by (auto simp: blocks_with_def only_slot_def)
  then show "dirty_blocks (set_data i x s) = dirty_blocks s"
    unfolding eq using U(3) by (cases "b_dirty (bufs s ! i)") (simp_all add: insert_absorb)
  show "bio_inv (set_data i x s)" "view (set_data i x s) = (view s)(bn := x)"
    "locked_blocks (set_data i x s) = locked_blocks s"
    "held s j y \<Longrightarrow> held (set_data i x s) j y"
    unfolding eq using U(1,2,4,5) by simp_all
qed

text \<open>\<open>log_write\<close> marks a held buffer dirty.\<close>

lemma mark_dirty_spec:
  fixes s :: "'a bcache_scheme"
  assumes inv: "bio_inv s" and h: "held s i bn"
  defines "s' \<equiv> buf_upd i (\<lambda>b. b\<lparr>b_dirty := True\<rparr>) s"
  shows "bio_inv s'" "view s' = view s" "dirty_blocks s' = insert bn (dirty_blocks s)"
    "locked_blocks s' = locked_blocks s" "held s j y \<Longrightarrow> held s' j y"
proof -
  let ?b = "(bufs s ! i)\<lparr>b_dirty := True\<rparr>"
  note H = held_slot[OF inv h]
  have c: "caches bn ?b" "b_valid ?b" using H(4,6) by (simp_all add: caches_def)
  note U = held_update[OF inv h c, of "disk s"]
  have eq: "s' = s\<lparr>disk := disk s, bufs := (bufs s)[i := ?b]\<rparr>"
    by (simp add: s'_def buf_upd_def)
  show "bio_inv s'" "view s' = view s" "dirty_blocks s' = insert bn (dirty_blocks s)"
    "locked_blocks s' = locked_blocks s" "held s j y \<Longrightarrow> held s' j y"
    unfolding eq using U H(10)[symmetric] by simp_all
qed

lemma bwrite_spec:
  fixes s :: "'a bcache_scheme"
  assumes inv: "bio_inv s" and h: "held s i bn"
  shows "wp (bwrite i) (\<lambda>_ s'.
    s' = s\<lparr>disk := (disk s)(bn := view s bn), dwrites := dwrites s @ [(bn, view s bn)], bufs := bufs s'\<rparr> \<and>
    bio_inv s' \<and> view s' = view s \<and> dirty_blocks s' = dirty_blocks s - {bn} \<and>
    locked_blocks s' = locked_blocks s \<and> (\<forall>j y. held s j y \<longrightarrow> held s' j y)) s"
proof -
  let ?b = "(bufs s ! i)\<lparr>b_dirty := False, b_valid := True\<rparr>" and ?d = "(disk s)(bn := view s bn)"
  let ?s = "buf_upd i (\<lambda>b. b\<lparr>b_dirty := True\<rparr>) s"
  let ?s' = "s\<lparr>disk := ?d, bufs := (bufs s)[i := ?b]\<rparr>"
  note D = bio_invD(1-3)[OF inv] and H = held_slot[OF inv h]
  have c: "caches bn ?b" "b_valid ?b" using H(4) by (simp_all add: caches_def)
  note U = held_update[OF inv h c, of ?d]
  have "holdingsleep (\<lambda>s. b_lock (bufs s ! i)) s = Inr (True, s)"
    using wp_holdingsleep[OF D(3), of "\<lambda>s. b_lock (bufs s ! i)" "\<lambda>r s'. r \<and> s' = s"] H(7)
    by (auto simp: wp_iff)
  moreover have "iderw i ?s = Inr ((), ?s'\<lparr>dwrites := dwrites s @ [(bn, view s bn)]\<rparr>)"
    using D H by (subst iderw_write[where bn = bn]) (simp_all add: in_proc_def mypid_def caches_def buf_upd_def)
  ultimately have run: "bwrite i s = Inr ((), ?s'\<lparr>dwrites := dwrites s @ [(bn, view s bn)]\<rparr>)"
    by (simp add: bwrite_def bnd_def modify_run)
  show ?thesis unfolding wp_def run using U H(10)[symmetric] by simp
qed

text \<open>Only the links of the buffers change.\<close>

lemma relink:
  fixes s :: "'a bcache_scheme"
  assumes inv: "bio_inv s" and l: "lru bs xs" and e: "\<And>j. erase (bs ! j) = erase (bufs s ! j)"
  defines "s' \<equiv> s\<lparr>bufs := bs\<rparr>"
  shows "bio_inv s'" "view s' = view s" "dirty_blocks s' = dirty_blocks s"
    "locked_blocks s' = locked_blocks s" "held s' j y = held s j y"
proof -
  note sel = erase_eq_sel[OF e]
  have c: "caches x (bs ! j) = caches x (bufs s ! j)" for x j using sel(3,4) by (simp add: caches_def)
  have ok: "buf_ok (disk s) (bs ! j) = buf_ok (disk s) (bufs s ! j)" for j
    unfolding buf_ok_def sel ..
  have "uniq bs" using bio_invD(1)[OF inv] unfolding uniq_def c .
  then show "bio_inv s'"
    using bio_invD(3,4)[OF inv] l ok by (auto simp: bio_inv_def s'_def in_proc_def)
  have len: "length bs = length (bufs s)" using l bio_invD(2)[OF inv] by (simp add: lru_def)
  have "find_idx (\<lambda>b. caches x b \<and> b_valid b) (take NBUF bs) =
      find_idx (\<lambda>b. caches x b \<and> b_valid b) (take NBUF (bufs s))" for x
    by (intro find_idx_cong) (simp_all add: len c sel(1))
  then show "view s' = view s" by (simp add: view_of_def s'_def fun_eq_iff sel(7) split: option.split)
  have "blocks_with P bs = blocks_with P (bufs s)" if "\<And>j. P (bs ! j) = P (bufs s ! j)" for P
    unfolding blocks_with_def c that ..
  then show "dirty_blocks s' = dirty_blocks s" "locked_blocks s' = locked_blocks s"
    by (simp_all add: s'_def sel(2,5))
  show "held s' j y = held s j y" by (simp add: held_def s'_def mypid_def c sel(1,5))
qed

lemma held_wakeup: "in_proc s \<Longrightarrow> held (wakeup1 c s) = held s"
  by (simp add: held_def fun_eq_iff) (simp add: wakeup1_def)

lemma bio_inv_wakeup [simp]: "bio_inv (wakeup1 c s) = bio_inv s"
  by (simp add: bio_inv_def) (simp add: wakeup1_def)

text \<open>Unlocking a held buffer that is pinned or agrees with the disk.\<close>

lemma unlock_spec:
  fixes s :: "'a bcache_scheme"
  assumes inv: "bio_inv s" and h: "held s i bn" and sync: "bn \<in> dirty_blocks s \<or> disk s bn = view s bn"
  defines "s' \<equiv> s\<lparr>bufs := (bufs s)[i := (bufs s ! i)\<lparr>b_lock := initsleeplock, b_refcnt := 0\<rparr>]\<rparr>"
  shows "bio_inv s'" "view s' = view s" "dirty_blocks s' = dirty_blocks s"
    "locked_blocks s' = locked_blocks s - {bn}" "j \<noteq> i \<Longrightarrow> held s j y \<Longrightarrow> held s' j y"
proof -
  let ?b = "(bufs s ! i)\<lparr>b_lock := initsleeplock, b_refcnt := 0\<rparr>"
  note D = bio_invD[OF inv] and H = held_slot[OF inv h]
  have c: "caches bn ?b" "b_valid ?b" using H(4,6) by (simp_all add: caches_def)
  have dd: "bn \<in> dirty_blocks s \<longleftrightarrow> b_dirty (bufs s ! i)"
    using H(1,4,5) by (auto simp: blocks_with_def only_slot_def)
  then have "buf_ok (disk s) ?b"
    using sync H(4,6,10) by (cases "b_dirty (bufs s ! i)") (simp_all add: buf_ok_def caches_def)
  then show "bio_inv s'"
    using bio_inv_replace[OF inv H(1) c(1) H(5), of "disk s"] by (simp add: s'_def)
  show "view s' = view s"
  proof -
    have "view s' = (view s)(bn := b_data ?b)" unfolding s'_def
      using view_of_replace[OF D(1) H(1,3) c(1) H(5) c(2), of "disk s" "disk s"] caches_inj[OF H(4)]
      by simp
    also have "\<dots> = view s" by (rule fun_upd_idem) (simp add: H(10))
    finally show ?thesis .
  qed
  have one: "P (bufs s ! i) \<Longrightarrow> b_dev (bufs s ! i) = 1 \<Longrightarrow> b_blockno (bufs s ! i) = bn" for P :: "buf \<Rightarrow> bool"
    using H(4) by (simp add: caches_def)
  have "dirty_blocks s' = (if b_dirty ?b then insert bn (dirty_blocks s) else dirty_blocks s - {bn})"
    using blocks_with_replace[OF H(1,3) c(1) H(5) one, of b_dirty] by (simp add: s'_def)
  then show "dirty_blocks s' = dirty_blocks s"
    using dd by (cases "bn \<in> dirty_blocks s") (simp_all only: insert_absorb if_True if_False, simp_all add: insert_absorb)
  show "locked_blocks s' = locked_blocks s - {bn}"
    using blocks_with_replace[OF H(1,3) c(1) H(5) one, of "\<lambda>b. sl_locked (b_lock b)"] by (simp add: s'_def)
  show "j \<noteq> i \<Longrightarrow> held s j y \<Longrightarrow> held s' j y" by (simp add: held_def s'_def mypid_def)
qed

lemma move_frame:
  "link_head i (unlink_buf i s) = s\<lparr>bufs := bufs (link_head i (unlink_buf i s))\<rparr>"
proof -
  obtain bs where "unlink_buf i s = s\<lparr>bufs := bs\<rparr>" using unlink_buf_frame by blast
  then show ?thesis using link_head_frame[of i "s\<lparr>bufs := bs\<rparr>"] by simp
qed

lemma brelse_run:
  fixes s :: "'a bcache_scheme"
  assumes inv: "bio_inv s" and h: "held s i bn"
  defines "t \<equiv> wakeup1 (ChanBufLock i)
    (s\<lparr>bufs := (bufs s)[i := (bufs s ! i)\<lparr>b_lock := initsleeplock, b_refcnt := 0\<rparr>]\<rparr>)"
  shows "brelse i s = Inr ((), link_head i (unlink_buf i t))"
proof -
  note D = bio_invD(1-3)[OF inv] and H = held_slot[OF inv h]
  have "holdingsleep (\<lambda>s. b_lock (bufs s ! i)) s = Inr (True, s)"
    using wp_holdingsleep[OF D(3), of "\<lambda>s. b_lock (bufs s ! i)" "\<lambda>r s'. r \<and> s' = s"] H(7)
    by (auto simp: wp_iff)
  moreover have "buf_upd i (\<lambda>b. b\<lparr>b_refcnt := b_refcnt b - 1\<rparr>)
      (wakeup1 (ChanBufLock i) (set_lock i initsleeplock s)) = t"
    using H(2,9) by (simp add: t_def buf_upd_def wakeup1_def)
  moreover have "b_refcnt (bufs t ! i) = 0" using H(2) by (simp add: t_def wakeup1_def)
  moreover have "releasesleep (ChanBufLock i) (set_lock i) s =
      Inr ((), wakeup1 (ChanBufLock i) (set_lock i initsleeplock s))"
    by (simp add: releasesleep_def bnd_def modify_run wakeup_def initsleeplock_def)
  ultimately show ?thesis
    by (simp add: brelse_def bnd_def modify_run fetch_run whenk_run)
qed

lemma brelse_spec:
  fixes s :: "'a bcache_scheme"
  assumes inv: "bio_inv s" and h: "held s i bn" and sync: "bn \<in> dirty_blocks s \<or> disk s bn = view s bn"
  shows "wp (brelse i) (\<lambda>_ s'. s' = s\<lparr>procs := map (wake_one (ChanBufLock i)) (procs s), bufs := bufs s'\<rparr> \<and>
    bio_inv s' \<and> view s' = view s \<and> dirty_blocks s' = dirty_blocks s \<and>
    locked_blocks s' = locked_blocks s - {bn} \<and> (\<forall>j y. j \<noteq> i \<longrightarrow> held s j y \<longrightarrow> held s' j y)) s"
proof -
  let ?u = "s\<lparr>bufs := (bufs s)[i := (bufs s ! i)\<lparr>b_lock := initsleeplock, b_refcnt := 0\<rparr>]\<rparr>"
  let ?t = "wakeup1 (ChanBufLock i) ?u"
  let ?s' = "link_head i (unlink_buf i ?t)"
  note U = unlock_spec[OF inv h sync]
  have t: "bio_inv ?t" "bufs ?t = bufs ?u" "disk ?t = disk s" "held ?t = held ?u"
    using U(1) bio_invD(3)[OF U(1)] by (simp_all add: held_wakeup) (simp_all add: wakeup1_def)
  obtain xs where "lru (bufs ?t) xs" using bio_invD(5)[OF t(1)] by blast
  then have l: "lru (bufs ?s') (i # remove1 i xs)"
    using held_slot(1)[OF inv h] by (rule move_front_lru)
  have e: "erase (bufs ?s' ! j) = erase (bufs ?t ! j)" for j by (simp add: link_head_unlink_bufs)
  note R = relink[OF t(1) l e]
  have "?s' = ?t\<lparr>bufs := bufs ?s'\<rparr>" by (rule move_frame)
  moreover have "?t\<lparr>bufs := bs\<rparr> = s\<lparr>procs := map (wake_one (ChanBufLock i)) (procs s), bufs := bs\<rparr>" for bs
    by (simp add: wakeup1_def)
  ultimately have eq: "?s' = s\<lparr>procs := map (wake_one (ChanBufLock i)) (procs s), bufs := bufs ?s'\<rparr>" by simp
  have post: "bio_inv (?t\<lparr>bufs := bs\<rparr>) \<and> view (?t\<lparr>bufs := bs\<rparr>) = view s \<and>
      dirty_blocks (?t\<lparr>bufs := bs\<rparr>) = dirty_blocks s \<and>
      locked_blocks (?t\<lparr>bufs := bs\<rparr>) = locked_blocks s - {bn} \<and>
      (\<forall>j y. j \<noteq> i \<longrightarrow> held s j y \<longrightarrow> held (?t\<lparr>bufs := bs\<rparr>) j y)" if "bs = bufs ?s'" for bs
    using R U(2-5) t(2-4) that by simp
  show ?thesis
    unfolding wp_def brelse_run[OF inv h] sum.case prod.case
    using eq post[OF refl] move_frame[of i ?t, symmetric] by simp
qed

subsection \<open>The cache's contract\<close>

text \<open>
  For its clients the cache is a consistent store: the disk \<open>d\<close>, the writes \<open>w\<close> made so far,
  the contents \<open>v\<close> seen through the cache, the pinned blocks \<open>D\<close> and the held blocks \<open>L\<close>.
  The rules below describe each operation on these five; \<open>frame\<close> says that nothing else of
  the kernel's state changes, apart from processes that were woken up.
\<close>

definition bio :: "'a bcache_scheme \<Rightarrow> (uint \<Rightarrow> block) \<Rightarrow> (uint \<times> block) list \<Rightarrow> (uint \<Rightarrow> block) \<Rightarrow>
    uint set \<Rightarrow> uint set \<Rightarrow> bool" where
  "bio s d w v D L \<longleftrightarrow> bio_inv s \<and> disk s = d \<and> dwrites s = w \<and> view s = v \<and> dirty_blocks s = D \<and>
     locked_blocks s = L"

definition restate :: "proc \<Rightarrow> proc \<Rightarrow> bool" where
  "restate p q \<longleftrightarrow> q\<lparr>p_state := p_state p\<rparr> = p"

definition frame :: "'a bcache_scheme \<Rightarrow> 'a bcache_scheme \<Rightarrow> bool" where
  "frame s s' \<longleftrightarrow> s' = s\<lparr>procs := procs s', disk := disk s', dwrites := dwrites s', bufs := bufs s'\<rparr> \<and>
     list_all2 restate (procs s) (procs s')"

named_theorems cache_rules \<open>the operations of the buffer cache on the abstract store\<close>

lemma restate_simps [simp]: "restate p p" "restate p (wake_one c p)"
  by (simp_all add: restate_def wake_one_def)

lemma restate_trans: "restate p q \<Longrightarrow> restate q r \<Longrightarrow> restate p r"
  unfolding restate_def by (metis proc.surjective proc.update_convs(4))

lemma restate_sel:
  assumes "restate p q"
  shows "p_pid q = p_pid p" "p_uid q = p_uid p" "p_gid q = p_gid p" "p_cwd q = p_cwd p" "p_ofile q = p_ofile p"
    "p_killed q = p_killed p" "p_parent q = p_parent p" "p_tf q = p_tf p" "p_sz q = p_sz p"
    "p_pgdir q = p_pgdir p" "p_name q = p_name p" "p_kstack q = p_kstack p" "p_context q = p_context p"
  using assms by (cases p; cases q; simp add: restate_def)+

lemma frame_refl [simp, intro]: "frame s s"
  by (simp add: frame_def list_all2_refl)

lemma frame_trans [trans]:
  assumes "frame s t" "frame t u"
  shows "frame s u"
proof -
  obtain ps d w bs where "t = s\<lparr>procs := ps, disk := d, dwrites := w, bufs := bs\<rparr>"
    using assms(1) unfolding frame_def by blast
  moreover obtain ps' d' w' bs' where "u = t\<lparr>procs := ps', disk := d', dwrites := w', bufs := bs'\<rparr>"
    using assms(2) unfolding frame_def by blast
  moreover have "list_all2 restate (procs s) (procs u)"
    using assms list_all2_trans[of restate restate restate] restate_trans unfolding frame_def by blast
  ultimately show ?thesis unfolding frame_def by simp
qed

lemma frame_bufs: "s' = s\<lparr>bufs := bs\<rparr> \<Longrightarrow> frame s s'"
  by (simp add: frame_def list_all2_refl)

lemma frame_disk: "s' = s\<lparr>disk := d, dwrites := w, bufs := bs\<rparr> \<Longrightarrow> frame s s'"
  by (simp add: frame_def list_all2_refl)

lemma frame_wake: "s' = s\<lparr>procs := map (wake_one c) (procs s), bufs := bs\<rparr> \<Longrightarrow> frame s s'"
  by (simp add: frame_def list_all2_map2 list_all2_refl)

lemma frame_sel:
  assumes "frame s s'"
  shows "disksize s' = disksize s" "cur_proc s' = cur_proc s" "mem s' = mem s" "initproc s' = initproc s"
    "bcache.more s' = bcache.more s" "nextpid s' = nextpid s" "freelist s' = freelist s"
    "length (procs s') = length (procs s)"
proof -
  obtain ps d w bs where "s' = s\<lparr>procs := ps, disk := d, dwrites := w, bufs := bs\<rparr>"
    "length ps = length (procs s)"
    using assms list_all2_lengthD unfolding frame_def by metis
  then show "disksize s' = disksize s" "cur_proc s' = cur_proc s" "mem s' = mem s" "initproc s' = initproc s"
    "bcache.more s' = bcache.more s" "nextpid s' = nextpid s" "freelist s' = freelist s"
    "length (procs s') = length (procs s)" by simp_all
qed

lemma bread_rule [cache_rules]:
  assumes "bio s d w v D L" "bn < disksize s" "bn \<notin> L" "bn \<in> D \<or> card (D \<union> L) < NBUF"
  shows "wp (bread 1 bn) (\<lambda>i s'. frame s s' \<and> bio s' d w v D (insert bn L) \<and> held s' i bn \<and>
    (\<forall>j x. held s j x \<longrightarrow> held s' j x \<and> j \<noteq> i)) s"
proof -
  have a: "bio_inv s" "bn \<notin> locked_blocks s"
    "bn \<in> dirty_blocks s \<or> card (dirty_blocks s \<union> locked_blocks s) < NBUF"
    using assms by (auto simp: bio_def)
  show ?thesis
  proof (rule wp_mono[OF bread_spec[OF a(1) assms(2) a(2,3)]], elim conjE)
    fix i s' assume s': "s' = s\<lparr>bufs := bufs s'\<rparr>" and r: "bio_inv s'" "held s' i bn" "view s' = view s"
      "dirty_blocks s' = dirty_blocks s" "locked_blocks s' = insert bn (locked_blocks s)"
      "\<forall>j x. held s j x \<longrightarrow> held s' j x \<and> j \<noteq> i"
    obtain bs where "s' = s\<lparr>bufs := bs\<rparr>" using s' by blast
    then have "disk s' = disk s" "dwrites s' = dwrites s" "frame s s'" by (simp_all add: frame_bufs)
    then show "frame s s' \<and> bio s' d w v D (insert bn L) \<and> held s' i bn \<and>
      (\<forall>j x. held s j x \<longrightarrow> held s' j x \<and> j \<noteq> i)"
      using r assms(1) unfolding bio_def by metis
  qed
qed

lemma set_data_rule:
  assumes "bio s d w v D L" "held s i bn"
  shows "frame s (set_data i x s)" "bio (set_data i x s) d w (v(bn := x)) D L"
    "held s j y \<Longrightarrow> held (set_data i x s) j y"
proof -
  have inv: "bio_inv s" using assms(1) by (simp add: bio_def)
  note S = set_data_spec[OF inv assms(2)]
  show "frame s (set_data i x s)"
    unfolding set_data_def buf_upd_def by (rule frame_bufs) (rule refl)
  show "bio (set_data i x s) d w (v(bn := x)) D L"
    using assms(1) S(1-4) by (simp add: bio_def) (auto simp: set_data_def buf_upd_def)
  show "held s j y \<Longrightarrow> held (set_data i x s) j y" by (rule S(5))
qed

lemma bwrite_rule [cache_rules]:
  assumes "bio s d w v D L" "held s i bn"
  shows "wp (bwrite i) (\<lambda>_ s'. frame s s' \<and> bio s' (d(bn := v bn)) (w @ [(bn, v bn)]) v (D - {bn}) L \<and>
    (\<forall>j y. held s j y \<longrightarrow> held s' j y)) s"
proof -
  have inv: "bio_inv s" using assms(1) by (simp add: bio_def)
  show ?thesis
  proof (rule wp_mono[OF bwrite_spec[OF inv assms(2)]], elim conjE)
    fix u s' assume s': "s' = s\<lparr>disk := (disk s)(bn := view s bn), dwrites := dwrites s @ [(bn, view s bn)], bufs := bufs s'\<rparr>"
      and r: "bio_inv s'" "view s' = view s" "dirty_blocks s' = dirty_blocks s - {bn}"
      "locked_blocks s' = locked_blocks s" "\<forall>j y. held s j y \<longrightarrow> held s' j y"
    obtain bs where "s' = s\<lparr>disk := (disk s)(bn := view s bn), dwrites := dwrites s @ [(bn, view s bn)], bufs := bs\<rparr>"
      using s' by blast
    then have "disk s' = (disk s)(bn := view s bn)" "dwrites s' = dwrites s @ [(bn, view s bn)]" "frame s s'"
      by (simp_all add: frame_disk)
    then show "frame s s' \<and> bio s' (d(bn := v bn)) (w @ [(bn, v bn)]) v (D - {bn}) L \<and>
      (\<forall>j y. held s j y \<longrightarrow> held s' j y)"
      using r assms(1) unfolding bio_def by metis
  qed
qed

lemma brelse_rule [cache_rules]:
  assumes "bio s d w v D L" "held s i bn" "bn \<in> D \<or> d bn = v bn"
  shows "wp (brelse i) (\<lambda>_ s'. frame s s' \<and> bio s' d w v D (L - {bn}) \<and>
    (\<forall>j y. j \<noteq> i \<longrightarrow> held s j y \<longrightarrow> held s' j y)) s"
proof -
  have inv: "bio_inv s" and sync: "bn \<in> dirty_blocks s \<or> disk s bn = view s bn"
    using assms(1,3) by (auto simp: bio_def)
  show ?thesis
  proof (rule wp_mono[OF brelse_spec[OF inv assms(2) sync]], elim conjE)
    fix u s' assume s': "s' = s\<lparr>procs := map (wake_one (ChanBufLock i)) (procs s), bufs := bufs s'\<rparr>"
      and r: "bio_inv s'" "view s' = view s" "dirty_blocks s' = dirty_blocks s"
      "locked_blocks s' = locked_blocks s - {bn}" "\<forall>j y. j \<noteq> i \<longrightarrow> held s j y \<longrightarrow> held s' j y"
    obtain bs where "s' = s\<lparr>procs := map (wake_one (ChanBufLock i)) (procs s), bufs := bs\<rparr>"
      using s' by blast
    then have "disk s' = disk s" "dwrites s' = dwrites s" "frame s s'" by (simp_all add: frame_wake)
    then show "frame s s' \<and> bio s' d w v D (L - {bn}) \<and> (\<forall>j y. j \<noteq> i \<longrightarrow> held s j y \<longrightarrow> held s' j y)"
      using r assms(1) unfolding bio_def by metis
  qed
qed

text \<open>A block that is neither pinned nor held agrees with the disk.\<close>

lemma bio_clean:
  assumes "bio s d w v D L" "bn \<notin> D" "bn \<notin> L"
  shows "v bn = d bn"
proof (cases "\<exists>i<NBUF. caches bn (bufs s ! i) \<and> b_valid (bufs s ! i)")
  case True
  then obtain i where i: "i < NBUF" "caches bn (bufs s ! i)" "b_valid (bufs s ! i)" by blast
  have inv: "bio_inv s" using assms(1) by (simp add: bio_def)
  have "\<not> b_dirty (bufs s ! i)" "\<not> sl_locked (b_lock (bufs s ! i))"
    using assms i by (auto simp: bio_def blocks_with_def)
  then have "b_data (bufs s ! i) = disk s bn"
    using bio_invD(4)[OF inv i(1)] i by (simp add: buf_ok_def caches_def)
  then show ?thesis
    using view_of_cached[OF bio_invD(1)[OF inv] i(1) _ i(2,3), of "disk s"] bio_invD(2)[OF inv] assms(1)
    by (auto simp: bio_def)
next
  case False
  then show ?thesis
    using view_of_uncached[of "bufs s" bn "disk s"] bio_invD(2)[of s] assms(1) by (auto simp: bio_def)
qed

subsection \<open>Initial state\<close>

definition buf_zero :: buf where
  "buf_zero = \<lparr>b_valid = False, b_dirty = False, b_dev = 0, b_blockno = 0, b_lock = initsleeplock,
     b_refcnt = 0, b_prev = 0, b_next = 0, b_data = (\<lambda>_. 0)\<rparr>"

definition proc_zero :: proc where
  "proc_zero = \<lparr>p_sz = 0, p_pgdir = 0, p_kstack = 0, p_state = UNUSED, p_pid = 0, p_parent = None,
     p_tf = 0, p_context = 0, p_chan = None, p_killed = False, p_ofile = replicate NOFILE None,
     p_cwd = None, p_name = [], p_uid = 0, p_gid = 0\<rparr>"

text \<open>A cache in which no buffer has been used since boot.\<close>

definition fresh_buf :: "buf \<Rightarrow> bool" where
  "fresh_buf b \<longleftrightarrow> b_dev b = 0 \<and> b_refcnt b = 0 \<and> \<not> b_dirty b \<and> b_lock b = initsleeplock"

lemma fresh_erase:
  assumes "erase b = erase b'"
  shows "fresh_buf b = fresh_buf b'"
  using erase_eq_sel(2,3,5,6)[OF assms] by (simp add: fresh_buf_def)

lemma binit_fresh_prefix:
  assumes "length (bufs s) = Suc NBUF" "\<And>j. j < NBUF \<Longrightarrow> fresh_buf (bufs s ! j)" "k \<le> NBUF"
  defines "s' \<equiv> fold (\<lambda>i s. set_lock i initsleeplock (link_head i s)) [0..<k]
      (buf_upd NBUF (\<lambda>b. b\<lparr>b_prev := NBUF, b_next := NBUF\<rparr>) s)"
  shows "s' = s\<lparr>bufs := bufs s'\<rparr> \<and> length (bufs s') = Suc NBUF \<and> (\<forall>j<NBUF. fresh_buf (bufs s' ! j))"
  unfolding s'_def using assms(3)
proof (induction k)
  case 0
  then show ?case using assms(1,2) by (simp add: buf_upd_def)
next
  case (Suc k)
  let ?s = "fold (\<lambda>i s. set_lock i initsleeplock (link_head i s)) [0..<k]
      (buf_upd NBUF (\<lambda>b. b\<lparr>b_prev := NBUF, b_next := NBUF\<rparr>) s)"
  have IH: "?s = s\<lparr>bufs := bufs ?s\<rparr>" "length (bufs ?s) = Suc NBUF" "\<forall>j<NBUF. fresh_buf (bufs ?s ! j)"
    using Suc by auto
  obtain bs where bs: "?s = s\<lparr>bufs := bs\<rparr>" using IH(1) by blast
  have "fresh_buf (bufs (link_head k ?s) ! j)" if "j < NBUF" for j
    using IH(3) that fresh_erase[OF link_head_unlink_bufs(1)] by blast
  then have "fresh_buf (bufs (set_lock k initsleeplock (link_head k ?s)) ! j)" if "j < NBUF" for j
    using that unfolding bufs_buf_upd nth_upd_field[of fresh_buf]
    by (cases "k = j") (simp_all add: fresh_buf_def)
  moreover have "link_head k ?s = s\<lparr>bufs := bufs (link_head k ?s)\<rparr>"
    using link_head_frame[of k "s\<lparr>bufs := bs\<rparr>"] unfolding bs by simp
  then obtain cs where "link_head k ?s = s\<lparr>bufs := cs\<rparr>" by blast
  then have "set_lock k initsleeplock (link_head k ?s) =
      s\<lparr>bufs := bufs (set_lock k initsleeplock (link_head k ?s))\<rparr>"
    by (simp add: buf_upd_def)
  ultimately show ?case using IH(2) by simp
qed

lemma binit_bio_inv:
  assumes "length (bufs s) = Suc NBUF" "\<And>j. j < NBUF \<Longrightarrow> fresh_buf (bufs s ! j)" "in_proc s"
  shows "bio_inv (binit s)" "binit s = s\<lparr>bufs := bufs (binit s)\<rparr>"
    "dirty_blocks (binit s) = {}" "locked_blocks (binit s) = {}"
proof -
  have b: "binit s = s\<lparr>bufs := bufs (binit s)\<rparr>" "\<forall>j<NBUF. fresh_buf (bufs (binit s) ! j)"
    using binit_fresh_prefix[OF assms(1,2), of NBUF] by (auto simp: binit_def)
  show "binit s = s\<lparr>bufs := bufs (binit s)\<rparr>" by (rule b(1))
  have "uniq (bufs (binit s))" using b(2) by (auto simp: uniq_def caches_def fresh_buf_def)
  moreover have "buf_ok d (bufs (binit s) ! j)" if "j < NBUF" for d j
    using b(2) that by (simp add: buf_ok_def fresh_buf_def)
  moreover have "in_proc (binit s)" using assms(3) by (subst b(1)) (simp add: in_proc_def)
  ultimately show "bio_inv (binit s)" using binit_lru[OF assms(1)] by (auto simp: bio_inv_def)
  show "dirty_blocks (binit s) = {}" "locked_blocks (binit s) = {}"
    using b(2) by (auto simp: blocks_with_def caches_def fresh_buf_def)
qed

definition bcache_boot :: "(uint \<Rightarrow> block) \<Rightarrow> bcache" where
  "bcache_boot d = binit
     \<lparr>mem = (\<lambda>_. 0), kend = 0x80100000, use_lock = True, freelist = 0,
      procs = [proc_zero\<lparr>p_state := RUNNING, p_pid := 1\<rparr>], nextpid = 2, initproc = Some 0,
      cur_proc = Some 0, trapret_sym = 0, forkret_sym = 0,
      disk = d, disksize = 1000, dwrites = [], bufs = replicate (Suc NBUF) buf_zero\<rparr>"

lemma bcache_boot_inv:
  "bio_inv (bcache_boot d)" "dirty_blocks (bcache_boot d) = {}" "locked_blocks (bcache_boot d) = {}"
  "disksize (bcache_boot d) = 1000" "disk (bcache_boot d) = d" "dwrites (bcache_boot d) = []"
proof -
  define s :: bcache where "s = \<lparr>mem = (\<lambda>_. 0), kend = 0x80100000, use_lock = True, freelist = 0,
      procs = [proc_zero\<lparr>p_state := RUNNING, p_pid := 1\<rparr>], nextpid = 2, initproc = Some 0,
      cur_proc = Some 0, trapret_sym = 0, forkret_sym = 0,
      disk = d, disksize = 1000, dwrites = [], bufs = replicate (Suc NBUF) buf_zero\<rparr>"
  have b: "length (bufs s) = Suc NBUF" "\<And>j. j < NBUF \<Longrightarrow> fresh_buf (bufs s ! j)" "in_proc s"
    by (simp_all add: s_def fresh_buf_def buf_zero_def in_proc_def nth_Cons split: nat.split)
  have e: "bcache_boot d = binit s" by (simp add: bcache_boot_def s_def)
  note B = binit_bio_inv[OF b]
  show "bio_inv (bcache_boot d)" "dirty_blocks (bcache_boot d) = {}" "locked_blocks (bcache_boot d) = {}"
    unfolding e using B by simp_all
  obtain bs where "binit s = s\<lparr>bufs := bs\<rparr>" using B(2) by blast
  then show "disksize (bcache_boot d) = 1000" "disk (bcache_boot d) = d" "dwrites (bcache_boot d) = []"
    unfolding e by (simp_all add: s_def)
qed

lemma bcache_boot_uncached: "i < NBUF \<Longrightarrow> \<not> caches bn (bufs (bcache_boot d) ! i)"
proof -
  let ?s = "\<lparr>mem = (\<lambda>_. 0), kend = 0x80100000, use_lock = True, freelist = 0,
      procs = [proc_zero\<lparr>p_state := RUNNING, p_pid := 1\<rparr>], nextpid = 2, initproc = Some 0,
      cur_proc = Some 0, trapret_sym = 0, forkret_sym = 0,
      disk = d, disksize = 1000, dwrites = [], bufs = replicate (Suc NBUF) buf_zero\<rparr>"
  have "length (bufs ?s) = Suc NBUF" "\<And>j. j < NBUF \<Longrightarrow> fresh_buf (bufs ?s ! j)"
    by (simp_all add: fresh_buf_def buf_zero_def nth_Cons split: nat.split)
  from binit_fresh_prefix[OF this, of NBUF] have "\<forall>j<NBUF. fresh_buf (bufs (bcache_boot d) ! j)"
    by (simp add: bcache_boot_def binit_def)
  then show "i < NBUF \<Longrightarrow> \<not> caches bn (bufs (bcache_boot d) ! i)"
    by (simp add: fresh_buf_def caches_def)
qed

subsection \<open>Properties\<close>

text \<open>C4. Reading a block that nobody holds, with a buffer to spare, returns a locked buffer whose
  data is the block as seen through the cache. The cache stays consistent, the disk and every
  other block's contents stay the same, and no pinned or held buffer is evicted.\<close>

theorem bread_correct:
  fixes s :: "'a bcache_scheme"
  assumes "bio_inv s" "bn < disksize s" "bn \<notin> locked_blocks s"
    "bn \<in> dirty_blocks s \<or> card (dirty_blocks s \<union> locked_blocks s) < NBUF"
  shows "wp (bread 1 bn) (\<lambda>i s'. bio_inv s' \<and> held s' i bn \<and> b_data (bufs s' ! i) = view s bn \<and>
    view s' = view s \<and> disk s' = disk s \<and> dirty_blocks s' = dirty_blocks s \<and>
    locked_blocks s' = insert bn (locked_blocks s) \<and> (\<forall>j x. held s j x \<longrightarrow> held s' j x)) s"
proof (rule wp_mono[OF bread_spec[OF assms]])
  fix i s'
  assume *: "s' = s\<lparr>bufs := bufs s'\<rparr> \<and> bio_inv s' \<and> held s' i bn \<and>
    view s' = view s \<and> dirty_blocks s' = dirty_blocks s \<and>
    locked_blocks s' = insert bn (locked_blocks s) \<and> (\<forall>j x. held s j x \<longrightarrow> held s' j x \<and> j \<noteq> i)"
  then have "b_data (bufs s' ! i) = view s bn" using held_slot(10)[of s' i bn] by simp
  moreover obtain bs where "s' = s\<lparr>bufs := bs\<rparr>" using * by blast
  then have "disk s' = disk s" by simp
  ultimately show "bio_inv s' \<and> held s' i bn \<and> b_data (bufs s' ! i) = view s bn \<and>
    view s' = view s \<and> disk s' = disk s \<and> dirty_blocks s' = dirty_blocks s \<and>
    locked_blocks s' = insert bn (locked_blocks s) \<and> (\<forall>j x. held s j x \<longrightarrow> held s' j x)"
    using * by blast
qed

theorem bread_correct_witness:
  "wp (bread 1 7) (\<lambda>i s'. b_data (bufs s' ! i) = view (bcache_boot (\<lambda>n _. ucast n)) 7)
     (bcache_boot (\<lambda>n _. ucast n))"
  by (rule wp_mono[OF bread_correct]) (simp_all add: bcache_boot_inv NBUF_def)

text \<open>C5. Releasing a buffer makes it the most recently used one and keeps the order of the others,
  and the four pointer assignments keep the ring well-formed in both directions.\<close>

theorem brelse_moves_to_front:
  fixes s :: "'a bcache_scheme"
  assumes "bio_inv s" "held s i bn" "lru (bufs s) xs"
  shows "wp (brelse i) (\<lambda>_ s'. lru (bufs s') (i # remove1 i xs)) s"
proof -
  let ?u = "s\<lparr>bufs := (bufs s)[i := (bufs s ! i)\<lparr>b_lock := initsleeplock, b_refcnt := 0\<rparr>]\<rparr>"
  have "bufs (wakeup1 c ?u) = bufs ?u" for c by (simp add: wakeup1_def)
  then have "lru (bufs (wakeup1 (ChanBufLock i) ?u)) xs" using assms(3) by (simp add: lru_upd)
  from move_front_lru[OF this held_slot(1)[OF assms(1,2)]] show ?thesis
    by (simp add: wp_def brelse_run[OF assms(1,2)])
qed

theorem brelse_moves_to_front_witness:
  "\<exists>i s' xs. bread 1 7 (bcache_boot (\<lambda>n _. ucast n)) = Inr (i, s') \<and>
     wp (brelse i) (\<lambda>_ s''. lru (bufs s'') (i # xs)) s'"
proof -
  have "wp (bread 1 7) (\<lambda>i s'. bio_inv s' \<and> held s' i 7) (bcache_boot (\<lambda>n _. ucast n))"
    by (rule wp_mono[OF bread_spec]) (auto simp: bcache_boot_inv NBUF_def)
  then obtain i s' where r: "bread 1 7 (bcache_boot (\<lambda>n _. ucast n)) = Inr (i, s')"
    and h: "bio_inv s'" "held s' i 7"
    by (auto simp: wp_iff)
  obtain xs where "lru (bufs s') xs" using bio_invD(5)[OF h(1)] by blast
  from brelse_moves_to_front[OF h this] show ?thesis using r by blast
qed

text \<open>C6. When a block is not cached, \<open>bget\<close> recycles the least recently used buffer that is
  neither referenced nor pinned by the log; when every buffer is in use it panics. The two
  loops over the ring always end.\<close>

theorem bget_recycles_least_recent:
  fixes s :: "'a bcache_scheme"
  assumes "bio_inv s" "lru (bufs s) xs" "\<forall>i<NBUF. \<not> caches bn (bufs s ! i)"
  shows "(case find (\<lambda>i. b_refcnt (bufs s ! i) = 0 \<and> \<not> b_dirty (bufs s ! i)) (rev xs) of
      None \<Rightarrow> bget 1 bn s = Inl (Panic ''bget: no buffers'')
    | Some i \<Rightarrow> \<exists>s'. bget 1 bn s = Inr (i, s'))"
proof -
  let ?P = "\<lambda>i. b_refcnt (bufs s ! i) = 0 \<and> \<not> b_dirty (bufs s ! i)"
  note scan = lru_scan_next[OF assms(2)] lru_scan_prev[OF assms(2)]
  have miss: "find (\<lambda>i. b_dev (bufs s ! i) = 1 \<and> b_blockno (bufs s ! i) = bn) xs = None"
    using assms(3) lru_set[OF assms(2)] by (auto simp: find_None_iff caches_def)
  show ?thesis
  proof (cases "find ?P (rev xs)")
    case None
    then show ?thesis using miss by (simp add: bget_def bnd_def fetch_run panic_run scan)
  next
    case (Some i)
    then have P: "i < NBUF" "?P i" using find_SomeD[OF Some] lru_set[OF assms(2)] by auto
    let ?b = "(bufs s ! i)\<lparr>b_dev := 1, b_blockno := bn, b_valid := False, b_dirty := False, b_refcnt := 1\<rparr>"
    have "bget 1 bn s = bget_lock i (s\<lparr>bufs := (bufs s)[i := ?b]\<rparr>)"
      using miss Some by (simp add: bget_def bnd_def fetch_run modify_run scan buf_upd_def)
    moreover have "\<not> sl_locked (b_lock ?b)"
      using bio_invD(4)[OF assms(1) P(1)] P(2) by (auto simp: buf_ok_def)
    ultimately show ?thesis
      using Some bget_lock_run[of s ?b i] bio_invD(2,3)[OF assms(1)] P(1) by simp
  qed
qed

theorem bget_recycles_least_recent_witness:
  "\<exists>xs. lru (bufs (bcache_boot (\<lambda>n _. ucast n))) xs \<and>
     (case find (\<lambda>i. b_refcnt (bufs (bcache_boot (\<lambda>n _. ucast n)) ! i) = 0 \<and>
         \<not> b_dirty (bufs (bcache_boot (\<lambda>n _. ucast n)) ! i)) (rev xs) of
      None \<Rightarrow> bget 1 7 (bcache_boot (\<lambda>n _. ucast n)) = Inl (Panic ''bget: no buffers'')
    | Some i \<Rightarrow> \<exists>s'. bget 1 7 (bcache_boot (\<lambda>n _. ucast n)) = Inr (i, s'))"
proof -
  let ?s = "bcache_boot (\<lambda>n _. ucast n)"
  obtain xs where xs: "lru (bufs ?s) xs" using bio_invD(5)[OF bcache_boot_inv(1)] by blast
  have "\<forall>i<NBUF. \<not> caches 7 (bufs ?s ! i)" by (simp add: bcache_boot_uncached)
  from bget_recycles_least_recent[OF bcache_boot_inv(1) xs this] xs show ?thesis by blast
qed

end
