(* ===== verification/Log_Spec.thy ===== *)
theory Log_Spec
  imports Log
begin

text \<open>
  What the operations of the log do to the abstract store of the buffer cache: copying a
  block, writing and reading the header, \<open>write_log\<close>, \<open>install_trans\<close>, \<open>commit\<close> and
  recovery, each with the exact sequence of disk writes it performs.
\<close>

subsection \<open>Copying one block\<close>

lemma bread2_rule:
  assumes b: "bio s d w v D {}" "a \<noteq> b" "a < disksize s" "b < disksize s"
    and room: "a \<in> D \<or> card D < NBUF" "b \<in> D \<or> card (insert a D) < NBUF"
    and K: "\<And>x y t. frame s t \<Longrightarrow> bio t d w v D {a, b} \<Longrightarrow> held t x a \<Longrightarrow> held t y b \<Longrightarrow> x \<noteq> y \<Longrightarrow> wp (K x y) Q t"
  shows "wp (bnd (bread 1 a) (\<lambda>x. bnd (bread 1 b) (K x))) Q s"
proof (rule wp_bndI[OF bread_rule[OF b(1,3)]])
  show "a \<notin> {}" "a \<in> D \<or> card (D \<union> {}) < NBUF" using room by simp_all
  fix x t1
  assume t1: "frame s t1 \<and> bio t1 d w v D {a} \<and> held t1 x a \<and> (\<forall>j y. held s j y \<longrightarrow> held t1 j y \<and> j \<noteq> x)"
  then have "b < disksize t1" using b(4) frame_sel(1) by metis
  moreover have "b \<in> D \<or> card (D \<union> {a}) < NBUF" using room(2) by simp
  moreover have "b \<notin> {a}" using b(2) by simp
  ultimately show "wp (bnd (bread 1 b) (K x)) Q t1"
  proof (rule_tac wp_bndI[OF bread_rule])
    show "bio t1 d w v D {a}" using t1 by blast
    fix y t
    assume t: "frame t1 t \<and> bio t d w v D (insert b {a}) \<and> held t y b \<and> (\<forall>j z. held t1 j z \<longrightarrow> held t j z \<and> j \<noteq> y)"
    have "insert b {a} = {a, b}" by blast
    then show "wp (K x y) Q t" using t t1 frame_trans by (intro K) auto
  qed
qed

lemma copy_rule:
  assumes b: "bio s d w v D {a, b}" "a \<noteq> b" "held s x a" "held s y b" "x \<noteq> y" "b \<in> D \<or> d b = v b"
  shows "wp (bnd (modify (\<lambda>s. set_data x (b_data (bufs s ! y)) s)) (\<lambda>_.
      bnd (bwrite x) (\<lambda>_. bnd (brelse y) (\<lambda>_. brelse x))))
    (\<lambda>_ s'. frame s s' \<and> bio s' (d(a := v b)) (w @ [(a, v b)]) (v(a := v b)) (D - {a}) {}) s"
proof -
  have inv: "bio_inv s" and vb: "view s b = v b" using b(1) by (auto simp: bio_def)
  let ?s = "set_data x (v b) s" and ?v = "v(a := v b)" and ?d = "d(a := v b)"
  have data: "b_data (bufs s ! y) = v b" using held_slot(10)[OF inv b(4)] vb by simp
  note S = set_data_rule[OF b(1,3), where x = "v b"]
  have "wp (bnd (bwrite x) (\<lambda>_. bnd (brelse y) (\<lambda>_. brelse x)))
      (\<lambda>_ s'. frame s s' \<and> bio s' ?d (w @ [(a, v b)]) ?v (D - {a}) {}) ?s"
  proof (rule wp_bndI[OF bwrite_rule[OF S(2) S(3)[OF b(3)]]], elim conjE)
    fix u t assume t: "frame ?s t" "bio t (d(a := ?v a)) (w @ [(a, ?v a)]) ?v (D - {a}) {a, b}"
      "\<forall>j z. held ?s j z \<longrightarrow> held t j z"
    then have bt: "bio t ?d (w @ [(a, v b)]) ?v (D - {a}) {a, b}" by simp
    have h: "held t x a" "held t y b" using t(3) S(3) b(3,4) by blast+
    show "wp (bnd (brelse y) (\<lambda>_. brelse x)) (\<lambda>_ s'. frame s s' \<and> bio s' ?d (w @ [(a, v b)]) ?v (D - {a}) {}) t"
    proof (rule wp_bndI[OF brelse_rule[OF bt h(2)]], goal_cases)
      case 1
      then show ?case using b(2,6) by simp
    next
      case (2 u t')
      then have "bio t' ?d (w @ [(a, v b)]) ?v (D - {a}) {a}" "held t' x a" "frame t t'"
        using b(2,5) h(1) by (simp_all add: insert_Diff_if)
      then show ?case
        using brelse_rule[of t' ?d "w @ [(a, v b)]" ?v "D - {a}" "{a}" x a] frame_trans[OF S(1) frame_trans[OF t(1)]]
        by (auto elim!: wp_mono intro: frame_trans)
    qed
  qed
  then show ?thesis by (simp add: wp_bnd wp_modify data)
qed

subsection \<open>Layout of the log on disk\<close>

text \<open>The header block, followed by \<open>LOGSIZE\<close> log blocks.\<close>

definition slot :: "'a log_scheme \<Rightarrow> nat \<Rightarrow> uint" where
  "slot s i = log_start s + of_nat i + 1"

definition log_geom :: "'a log_scheme \<Rightarrow> bool" where
  "log_geom s \<longleftrightarrow> log_dev s = 1 \<and> unat (log_start s) + LOGSIZE < unat (disksize s)"

text \<open>A block outside the log: file system data that transactions may write.\<close>

definition home :: "'a log_scheme \<Rightarrow> uint \<Rightarrow> bool" where
  "home s bn \<longleftrightarrow> bn < disksize s \<and> bn \<noteq> log_start s \<and> (\<forall>i<LOGSIZE. bn \<noteq> slot s i)"

lemma unat_slot:
  assumes "log_geom s" "i < LOGSIZE"
  shows "unat (slot s i) = unat (log_start s) + i + 1"
proof -
  have "unat (log_start s) + i + 1 < 2 ^ 32"
    using assms unat_uint_bound[of "disksize s"] by (simp add: log_geom_def)
  then show ?thesis
    using assms(2) by (simp add: slot_def unat_word_ariths unat_of_nat LOGSIZE_def)
qed

lemma slot_less: "log_geom s \<Longrightarrow> i < LOGSIZE \<Longrightarrow> slot s i < disksize s"
  by (simp add: word_less_nat_alt unat_slot log_geom_def)

lemma start_less: "log_geom s \<Longrightarrow> log_start s < disksize s"
  by (simp add: word_less_nat_alt log_geom_def)

lemma slot_neq_start: "log_geom s \<Longrightarrow> i < LOGSIZE \<Longrightarrow> slot s i \<noteq> log_start s"
  by (metis unat_slot add.assoc add_eq_self_zero add_is_0 zero_neq_one)

lemma slot_inj: "log_geom s \<Longrightarrow> i < LOGSIZE \<Longrightarrow> j < LOGSIZE \<Longrightarrow> slot s i = slot s j \<Longrightarrow> i = j"
  by (drule arg_cong[of _ _ unat]) (simp add: unat_slot)

lemma home_above:
  assumes "log_geom s" "unat (log_start s) + LOGSIZE < unat bn" "bn < disksize s"
  shows "home s bn"
  using assms unat_slot[OF assms(1)] unfolding home_def by auto

text \<open>The disk after a sequence of writes.\<close>

definition apply_writes :: "(uint \<Rightarrow> block) \<Rightarrow> (uint \<times> block) list \<Rightarrow> uint \<Rightarrow> block" where
  "apply_writes d ws = fold (\<lambda>(b, x) f. f(b := x)) ws d"

lemma apply_writes_simps [simp]:
  "apply_writes d [] = d" "apply_writes d (ws @ [(a, x)]) = (apply_writes d ws)(a := x)"
  by (simp_all add: apply_writes_def)

lemma apply_writes_append: "apply_writes d (ws @ vs) = apply_writes (apply_writes d ws) vs"
  by (simp add: apply_writes_def)

lemma apply_writes_other: "x \<notin> fst ` set ws \<Longrightarrow> apply_writes d ws x = d x"
  by (induction ws rule: rev_induct) (auto simp: apply_writes_def)

lemma apply_writes_mem:
  "distinct (map fst ws) \<Longrightarrow> (a, x) \<in> set ws \<Longrightarrow> apply_writes d ws a = x"
proof (induction ws rule: rev_induct)
  case (snoc y ws)
  obtain b z where y: "y = (b, z)" by fastforce
  show ?case
  proof (cases "b = a")
    case True
    then have "x = z" using snoc.prems y by (auto simp: image_iff)
    then show ?thesis using True y by simp
  next
    case False
    then show ?thesis using snoc y by auto
  qed
qed simp

text \<open>State fields of the log that its own operations change.\<close>

lemma bio_log_fields [simp]:
  "bio (s\<lparr>lh_n := n\<rparr>) = bio s" "bio (s\<lparr>lh_block := bl\<rparr>) = bio s"
  "bio (s\<lparr>outstanding := k\<rparr>) = bio s" "bio (s\<lparr>committing := c\<rparr>) = bio s"
  "held (s\<lparr>lh_n := n\<rparr>) = held s" "held (s\<lparr>lh_block := bl\<rparr>) = held s"
  "held (s\<lparr>outstanding := k\<rparr>) = held s" "held (s\<lparr>committing := c\<rparr>) = held s"
  by (simp_all add: bio_def bio_inv_def in_proc_def held_def mypid_def fun_eq_iff)

lemma frame_log_sel:
  fixes s s' :: "'a log_scheme"
  assumes "frame s s'"
  shows "log_start s' = log_start s" "log_size s' = log_size s" "log_dev s' = log_dev s" "lh_n s' = lh_n s"
    "lh_block s' = lh_block s" "outstanding s' = outstanding s" "committing s' = committing s"
    "slot s' = slot s" "log_geom s' = log_geom s" "home s' = home s" "log.more s' = log.more s"
proof -
  obtain ps d w bs where "s' = s\<lparr>procs := ps, disk := d, dwrites := w, bufs := bs\<rparr>"
    using assms unfolding frame_def by blast
  then show "log_start s' = log_start s" "log_size s' = log_size s" "log_dev s' = log_dev s" "lh_n s' = lh_n s"
    "lh_block s' = lh_block s" "outstanding s' = outstanding s" "committing s' = committing s"
    "slot s' = slot s" "log_geom s' = log_geom s" "home s' = home s" "log.more s' = log.more s"
    by (simp_all add: slot_def log_geom_def home_def fun_eq_iff)
qed

subsection \<open>Writing the log\<close>

lemma write_log_one_rule:
  assumes "bio s d w v D {}" "log_geom s" "i < LOGSIZE" "lh_block s ! i = bn" "home s bn"
    "bn \<in> D" "slot s i \<notin> D" "card D < NBUF"
  shows "wp (write_log_one i) (\<lambda>_ s'. frame s s' \<and>
    bio s' (d(slot s i := v bn)) (w @ [(slot s i, v bn)]) (v(slot s i := v bn)) D {}) s"
proof -
  have a: "slot s i \<noteq> bn" "slot s i < disksize s" "bn < disksize s"
    using assms(3,5) slot_less[OF assms(2,3)] by (auto simp: home_def)
  have "wp (bnd (bread 1 (slot s i)) (\<lambda>to. bnd (bread 1 bn) (\<lambda>from.
      bnd (modify (\<lambda>s. set_data to (b_data (bufs s ! from)) s)) (\<lambda>_.
      bnd (bwrite to) (\<lambda>_. bnd (brelse from) (\<lambda>_. brelse to))))))
    (\<lambda>_ s'. frame s s' \<and>
      bio s' (d(slot s i := v bn)) (w @ [(slot s i, v bn)]) (v(slot s i := v bn)) D {}) s"
  proof (rule bread2_rule[OF assms(1) a])
    fix x y t
    assume t: "frame s t" "bio t d w v D {slot s i, bn}" "held t x (slot s i)" "held t y bn" "x \<noteq> y"
    show "wp (bnd (modify (\<lambda>s. set_data x (b_data (bufs s ! y)) s)) (\<lambda>_.
        bnd (bwrite x) (\<lambda>_. bnd (brelse y) (\<lambda>_. brelse x))))
      (\<lambda>_ s'. frame s s' \<and>
        bio s' (d(slot s i := v bn)) (w @ [(slot s i, v bn)]) (v(slot s i := v bn)) D {}) t"
      using copy_rule[OF t(2) a(1) t(3-5)] assms(6,7) frame_trans[OF t(1)] by (auto elim: wp_mono)
  qed (use assms(6,8) in auto)
  then show ?thesis
    using assms(2,4) by (simp add: write_log_one_def wp_simps log_geom_def slot_def)
qed

text \<open>The blocks of the current transaction.\<close>

definition logged :: "'a log_scheme \<Rightarrow> uint list" where
  "logged s = take (nat (lh_n s)) (lh_block s)"

text \<open>
  A transaction in progress: the header lists distinct blocks outside the log, they are
  exactly the blocks pinned in the cache, and at least one buffer is left to copy with.
\<close>

definition trans_ok :: "'a log_scheme \<Rightarrow> uint set \<Rightarrow> bool" where
  "trans_ok s D \<longleftrightarrow> log_geom s \<and> 0 \<le> lh_n s \<and> lh_n s < int LOGSIZE \<and> log_size s \<le> int LOGSIZE \<and> length (lh_block s) = LOGSIZE \<and>
     distinct (logged s) \<and> set (logged s) = D \<and> (\<forall>bn \<in> D. home s bn)"

lemma trans_okD:
  assumes "trans_ok s D"
  shows "log_geom s" "length (logged s) = nat (lh_n s)" "nat (lh_n s) < LOGSIZE" "card D = nat (lh_n s)"
    "i < nat (lh_n s) \<Longrightarrow> logged s ! i = lh_block s ! i" "distinct (logged s)" "set (logged s) = D"
    "i < nat (lh_n s) \<Longrightarrow> home s (lh_block s ! i)" "i < nat (lh_n s) \<Longrightarrow> lh_block s ! i \<in> D"
    "i < LOGSIZE \<Longrightarrow> slot s i \<notin> D" "log_start s \<notin> D"
proof -
  have t: "log_geom s" "0 \<le> lh_n s" "lh_n s < int LOGSIZE" "length (lh_block s) = LOGSIZE"
    "distinct (logged s)" "set (logged s) = D" "\<forall>bn \<in> D. home s bn"
    using assms by (auto simp: trans_ok_def)
  then show "log_geom s" and len: "length (logged s) = nat (lh_n s)" and "nat (lh_n s) < LOGSIZE"
    "distinct (logged s)" "set (logged s) = D" by (simp_all add: logged_def)
  show "card D = nat (lh_n s)" using t len distinct_card by fastforce
  show nth: "i < nat (lh_n s) \<Longrightarrow> logged s ! i = lh_block s ! i" for i by (simp add: logged_def)
  show mem: "i < nat (lh_n s) \<Longrightarrow> lh_block s ! i \<in> D" for i
    using t(6) len nth nth_mem by metis
  then show "i < nat (lh_n s) \<Longrightarrow> home s (lh_block s ! i)" using t(7) by blast
  show "i < LOGSIZE \<Longrightarrow> slot s i \<notin> D" "log_start s \<notin> D" using t(7) by (auto simp: home_def)
qed

definition log_writes :: "'a log_scheme \<Rightarrow> (uint \<Rightarrow> block) \<Rightarrow> nat \<Rightarrow> (uint \<times> block) list" where
  "log_writes s v n = map (\<lambda>i. (slot s i, v (lh_block s ! i))) [0..<n]"

lemma log_writes_Suc:
  "log_writes s v (Suc n) = log_writes s v n @ [(slot s n, v (lh_block s ! n))]"
  by (simp add: log_writes_def)

lemma log_writes_home: "home s bn \<Longrightarrow> n \<le> LOGSIZE \<Longrightarrow> apply_writes f (log_writes s v n) bn = f bn"
proof (rule apply_writes_other)
  assume "home s bn" "n \<le> LOGSIZE"
  then have "\<forall>i<n. bn \<noteq> slot s i" by (simp add: home_def)
  then show "bn \<notin> fst ` set (log_writes s v n)" by (auto simp: log_writes_def)
qed

lemma write_log_rule:
  assumes b: "bio s d w v D {}" and t: "trans_ok s D"
  defines "ws \<equiv> log_writes s v (nat (lh_n s))"
  shows "wp write_log (\<lambda>_ s'. frame s s' \<and> bio s' (apply_writes d ws) (w @ ws) (apply_writes v ws) D {}) s"
proof -
  note T = trans_okD[OF t]
  let ?n = "nat (lh_n s)"
  define I where "I i s' \<longleftrightarrow> frame s s' \<and>
    bio s' (apply_writes d (log_writes s v i)) (w @ log_writes s v i) (apply_writes v (log_writes s v i)) D {}"
    for i and s' :: "'a log_scheme"
  have "wp (for_each write_log_one [0..<?n]) (\<lambda>_. I ?n) s"
  proof (rule wp_for_upto)
    show "I 0 s" using b by (simp add: I_def log_writes_def)
    fix i s' assume i: "i < ?n" and I: "I i s'"
    let ?bn = "lh_block s ! i"
    have f: "frame s s'" and b': "bio s' (apply_writes d (log_writes s v i)) (w @ log_writes s v i)
        (apply_writes v (log_writes s v i)) D {}" using I by (auto simp: I_def)
    note F = frame_log_sel[OF f]
    have "wp (write_log_one i) (\<lambda>_ s''. frame s' s'' \<and>
        bio s'' ((apply_writes d (log_writes s v i))(slot s' i := apply_writes v (log_writes s v i) ?bn))
          ((w @ log_writes s v i) @ [(slot s' i, apply_writes v (log_writes s v i) ?bn)])
          ((apply_writes v (log_writes s v i))(slot s' i := apply_writes v (log_writes s v i) ?bn)) D {}) s'"
      using T i F NBUF_def LOGSIZE_def by (intro write_log_one_rule[OF b']) auto
    moreover have "apply_writes v (log_writes s v i) ?bn = v ?bn"
      using T(3) T(8)[OF i] i by (intro log_writes_home) auto
    ultimately show "wp (write_log_one i) (\<lambda>_. I (Suc i)) s'"
      using F(8) frame_trans[OF f] by (auto simp: I_def log_writes_Suc elim!: wp_mono)
  qed
  then show ?thesis using T(3) by (simp add: write_log_def wp_simps I_def[abs_def] ws_def)
qed

subsection \<open>The header\<close>

lemma write_head_rule:
  assumes b: "bio s d w v D {}" and g: "log_geom s" "log_start s \<notin> D" "card D < NBUF" "nat (lh_n s) \<le> LOGSIZE"
  defines "h \<equiv> put_head (lh_n s) (lh_block s) (v (log_start s))"
  shows "wp write_head (\<lambda>_ s'. frame s s' \<and>
    bio s' (d(log_start s := h)) (w @ [(log_start s, h)]) (v(log_start s := h)) D {}) s"
proof -
  let ?a = "log_start s"
  have "wp (bnd (bread 1 ?a) (\<lambda>x.
      bnd (modify (\<lambda>s'. set_data x (put_head (lh_n s) (lh_block s) (b_data (bufs s' ! x))) s')) (\<lambda>_.
      bnd (bwrite x) (\<lambda>_. brelse x))))
    (\<lambda>_ s'. frame s s' \<and> bio s' (d(?a := h)) (w @ [(?a, h)]) (v(?a := h)) D {}) s"
  proof (rule wp_bndI[OF bread_rule[OF b start_less[OF g(1)]]], simp, use g(3) in simp, elim conjE)
    fix x t assume t: "frame s t" "bio t d w v D {?a}" "held t x ?a"
    have "b_data (bufs t ! x) = v ?a" using held_slot(10)[OF _ t(3)] t(2) by (auto simp: bio_def)
    then have data: "put_head (lh_n s) (lh_block s) (b_data (bufs t ! x)) = h" by (simp add: h_def)
    note S = set_data_rule[OF t(2,3), where x = h]
    have "wp (bnd (bwrite x) (\<lambda>_. brelse x))
      (\<lambda>_ s'. frame s s' \<and> bio s' (d(?a := h)) (w @ [(?a, h)]) (v(?a := h)) D {}) (set_data x h t)"
    proof (rule wp_bndI[OF bwrite_rule[OF S(2) S(3)[OF t(3)]]], elim conjE)
      fix u t' assume t': "frame (set_data x h t) t'"
        "bio t' (d(?a := (v(?a := h)) ?a)) (w @ [(?a, (v(?a := h)) ?a)]) (v(?a := h)) (D - {?a}) {?a}"
        "\<forall>j y. held (set_data x h t) j y \<longrightarrow> held t' j y"
      then have bt: "bio t' (d(?a := h)) (w @ [(?a, h)]) (v(?a := h)) D {?a}" using g(2) by simp
      have "frame s t'" using t(1) S(1) t'(1) frame_trans by blast
      then show "wp (brelse x)
          (\<lambda>_ s'. frame s s' \<and> bio s' (d(?a := h)) (w @ [(?a, h)]) (v(?a := h)) D {}) t'"
        using brelse_rule[OF bt, of x ?a] t'(3) S(3)[OF t(3)] frame_trans by (auto elim!: wp_mono)
    qed
    then show "wp (bnd (modify (\<lambda>s'. set_data x (put_head (lh_n s) (lh_block s) (b_data (bufs s' ! x))) s')) (\<lambda>_.
        bnd (bwrite x) (\<lambda>_. brelse x)))
      (\<lambda>_ s'. frame s s' \<and> bio s' (d(?a := h)) (w @ [(?a, h)]) (v(?a := h)) D {}) t"
      by (simp add: wp_bnd wp_modify data)
  qed
  moreover have "log_dev s = 1" using g(1) by (simp add: log_geom_def)
  ultimately show ?thesis using g(4) by (simp add: write_head_def wp_bnd wp_fetch)
qed

lemma bld32_bst32_same [simp]: "bld32 (bst32 b i x) i = x"
  by (simp add: bld32_def bst32_def)

lemma bld32_bst32_other: "i + 4 \<le> j \<or> j + 4 \<le> i \<Longrightarrow> bld32 (bst32 b i x) j = bld32 b j"
  by (auto simp: bld32_def bst32_def)

lemma bld32_put_blocks:
  "i + 4 \<le> 4 \<or> 4 + 4 * n \<le> i \<Longrightarrow>
   bld32 (fold (\<lambda>i b. bst32 b (4 + 4 * i) (bl ! i)) [0..<n] b) i = bld32 b i"
  by (induction n) (auto simp: bld32_bst32_other)

lemma hdr_put_head:
  assumes "0 \<le> n" "n \<le> int LOGSIZE"
  shows "hdr_n (put_head n bl b) = n" "i < nat n \<Longrightarrow> hdr_block (put_head n bl b) i = bl ! i"
proof -
  have "sint (word_of_int n :: uint) = n"
    using assms by (simp add: sint_sbintrunc' signed_take_bit_int_eq_self LOGSIZE_def)
  then show "hdr_n (put_head n bl b) = n"
    by (simp add: hdr_n_def put_head_def bld32_put_blocks)
  have "hdr_block (fold (\<lambda>i b. bst32 b (4 + 4 * i) (bl ! i)) [0..<m] b') i = bl ! i" if "i < m" for m b'
    using that
  proof (induction m)
    case (Suc m)
    then show ?case by (cases "i = m") (auto simp: hdr_block_def bld32_bst32_other)
  qed simp
  then show "i < nat n \<Longrightarrow> hdr_block (put_head n bl b) i = bl ! i"
    by (simp add: put_head_def)
qed

subsection \<open>Installing\<close>

lemma install_one_rule:
  assumes b: "bio s d w v D {}" and g: "log_geom s" "i < LOGSIZE" "lh_block s ! i = bn" "home s bn"
    and room: "slot s i \<notin> D" "card D < NBUF" "bn \<in> D \<or> card (insert (slot s i) D) < NBUF"
  shows "wp (install_one i) (\<lambda>_ s'. frame s s' \<and>
    bio s' (d(bn := v (slot s i))) (w @ [(bn, v (slot s i))]) (v(bn := v (slot s i))) (D - {bn}) {}) s"
proof -
  let ?a = "slot s i"
  have a: "?a \<noteq> bn" "?a < disksize s" "bn < disksize s"
    using g(2,4) slot_less[OF g(1,2)] by (auto simp: home_def)
  have sync: "?a \<in> D \<or> d ?a = v ?a" using bio_clean[OF b room(1)] by simp
  have "wp (bnd (bread 1 ?a) (\<lambda>lbuf. bnd (bread 1 bn) (\<lambda>dbuf.
      bnd (modify (\<lambda>s. set_data dbuf (b_data (bufs s ! lbuf)) s)) (\<lambda>_.
      bnd (bwrite dbuf) (\<lambda>_. bnd (brelse lbuf) (\<lambda>_. brelse dbuf))))))
    (\<lambda>_ s'. frame s s' \<and>
      bio s' (d(bn := v ?a)) (w @ [(bn, v ?a)]) (v(bn := v ?a)) (D - {bn}) {}) s"
  proof (rule bread2_rule[OF b a])
    fix x y t
    assume t: "frame s t" "bio t d w v D {?a, bn}" "held t x ?a" "held t y bn" "x \<noteq> y"
    have "bio t d w v D {bn, ?a}" using t(2) by (simp add: insert_commute)
    from copy_rule[OF this a(1)[symmetric] t(4,3) t(5)[symmetric] sync]
    show "wp (bnd (modify (\<lambda>s. set_data y (b_data (bufs s ! x)) s)) (\<lambda>_.
        bnd (bwrite y) (\<lambda>_. bnd (brelse x) (\<lambda>_. brelse y))))
      (\<lambda>_ s'. frame s s' \<and> bio s' (d(bn := v ?a)) (w @ [(bn, v ?a)]) (v(bn := v ?a)) (D - {bn}) {}) t"
      using frame_trans[OF t(1)] by (auto elim: wp_mono)
  qed (use room in auto)
  then show ?thesis using g(1,3) by (simp add: install_one_def wp_simps log_geom_def slot_def)
qed

definition install_writes :: "'a log_scheme \<Rightarrow> (uint \<Rightarrow> block) \<Rightarrow> nat \<Rightarrow> (uint \<times> block) list" where
  "install_writes s v n = map (\<lambda>i. (lh_block s ! i, v (slot s i))) [0..<n]"

lemma install_writes_Suc:
  "install_writes s v (Suc n) = install_writes s v n @ [(lh_block s ! n, v (slot s n))]"
  by (simp add: install_writes_def)

lemma fst_install_writes: "fst ` set (install_writes s v n) = (\<lambda>i. lh_block s ! i) ` {..<n}"
  by (force simp: install_writes_def)

lemma install_writes_log:
  assumes "\<And>i. i < n \<Longrightarrow> home s (lh_block s ! i)" "bn = log_start s \<or> (\<exists>i<LOGSIZE. bn = slot s i)"
  shows "apply_writes f (install_writes s v n) bn = f bn"
  using assms by (intro apply_writes_other) (auto simp: fst_install_writes home_def)

text \<open>
  Installation either unpins the transaction's own blocks (during a commit) or starts with
  an idle cache (during recovery).
\<close>

lemma install_trans_rule:
  assumes b: "bio s d w v D {}" and g: "log_geom s" "nat (lh_n s) < LOGSIZE" "distinct (logged s)"
      "length (lh_block s) = LOGSIZE"
    and h: "\<And>i. i < nat (lh_n s) \<Longrightarrow> home s (lh_block s ! i)" and D: "D = set (logged s) \<or> D = {}"
  defines "ws \<equiv> install_writes s v (nat (lh_n s))"
  shows "wp install_trans (\<lambda>_ s'. frame s s' \<and> bio s' (apply_writes d ws) (w @ ws) (apply_writes v ws) {} {}) s"
proof -
  let ?n = "nat (lh_n s)" and ?W = "install_writes s v"
  have len: "length (logged s) = ?n" and nth: "i < ?n \<Longrightarrow> logged s ! i = lh_block s ! i" for i
    using g(2,4) by (simp_all add: logged_def)
  have cD: "card D < NBUF" "finite D"
    using D g(2) len distinct_card[OF g(3)] by (auto simp: NBUF_def LOGSIZE_def)
  have sD: "slot s i \<notin> D" if "i < LOGSIZE" for i
    using D h that len nth by (auto simp: home_def in_set_conv_nth)
  define I where "I i s' \<longleftrightarrow> frame s s' \<and>
    bio s' (apply_writes d (?W i)) (w @ ?W i) (apply_writes v (?W i)) (D - set (take i (logged s))) {}"
    for i and s' :: "'a log_scheme"
  have "wp (for_each install_one [0..<?n]) (\<lambda>_. I ?n) s"
  proof (rule wp_for_upto)
    show "I 0 s" using b by (simp add: I_def install_writes_def)
    fix i s' assume i: "i < ?n" and I: "I i s'"
    let ?bn = "lh_block s ! i" and ?D = "D - set (take i (logged s))"
    have f: "frame s s'" and b': "bio s' (apply_writes d (?W i)) (w @ ?W i) (apply_writes v (?W i)) ?D {}"
      using I by (auto simp: I_def)
    note F = frame_log_sel[OF f]
    have take: "set (take (Suc i) (logged s)) = insert ?bn (set (take i (logged s)))"
      using i len nth by (simp add: take_Suc_conv_app_nth)
    have "?bn \<notin> set (take i (logged s))"
      using g(3) i len nth by (metis distinct_take id_take_nth_drop less_imp_le_nat nth_mem not_distinct_conv_prefix
          append_take_drop_id distinct_append disjoint_iff Cons_nth_drop_Suc list.set_intros(1))
    then have room: "?bn \<in> ?D \<or> card (insert (slot s i) ?D) < NBUF"
      using D i len nth nth_mem[of i "logged s"] by (auto simp: NBUF_def)
    have card: "card ?D < NBUF" using cD card_mono[of D ?D] by (meson Diff_subset le_less_trans)
    have "apply_writes v (?W i) (slot s i) = v (slot s i)"
      using h i g(2) by (intro install_writes_log) (auto intro: less_trans)
    then have "wp (install_one i) (\<lambda>_ s''. frame s' s'' \<and>
        bio s'' ((apply_writes d (?W i))(?bn := v (slot s i))) ((w @ ?W i) @ [(?bn, v (slot s i))])
          ((apply_writes v (?W i))(?bn := v (slot s i))) (?D - {?bn}) {}) s'"
      using install_one_rule[OF b', of i ?bn] g(1,2) F h[OF i] i room card sD[of i] by simp
    moreover have "?D - {?bn} = D - set (take (Suc i) (logged s))" unfolding take by blast
    ultimately show "wp (install_one i) (\<lambda>_. I (Suc i)) s'"
      using frame_trans[OF f] by (auto simp: I_def install_writes_Suc elim!: wp_mono)
  qed
  moreover have "D - set (take ?n (logged s)) = {}" using D len by auto
  ultimately show ?thesis using g(2) by (simp add: install_trans_def wp_simps I_def[abs_def] ws_def)
qed

subsection \<open>Recovery\<close>

text \<open>Like \<open>frame\<close>, but the log's own bookkeeping may change.\<close>

definition lframe :: "'a log_scheme \<Rightarrow> 'a log_scheme \<Rightarrow> bool" where
  "lframe s s' \<longleftrightarrow> frame s (s'\<lparr>lh_n := lh_n s, lh_block := lh_block s, outstanding := outstanding s,
     committing := committing s\<rparr>)"

lemma lframeE:
  assumes "lframe s s'"
  obtains ps d w bs n bl k c where
    "s' = s\<lparr>procs := ps, disk := d, dwrites := w, bufs := bs, lh_n := n, lh_block := bl, outstanding := k, committing := c\<rparr>"
    "list_all2 restate (procs s) ps"
proof -
  define t where "t = s'\<lparr>lh_n := lh_n s, lh_block := lh_block s, outstanding := outstanding s, committing := committing s\<rparr>"
  have f: "frame s t" using assms by (simp add: lframe_def t_def)
  have "s' = t\<lparr>lh_n := lh_n s', lh_block := lh_block s', outstanding := outstanding s', committing := committing s'\<rparr>"
    by (simp add: t_def)
  moreover have "t = s\<lparr>procs := procs t, disk := disk t, dwrites := dwrites t, bufs := bufs t\<rparr>"
    "list_all2 restate (procs s) (procs t)" using f by (simp_all add: frame_def)
  ultimately show ?thesis using that by metis
qed

lemma lframeI:
  "s' = s\<lparr>procs := ps, disk := d, dwrites := w, bufs := bs, lh_n := n, lh_block := bl, outstanding := k, committing := c\<rparr> \<Longrightarrow>
   list_all2 restate (procs s) ps \<Longrightarrow> lframe s s'"
  by (simp add: lframe_def frame_def)

lemma frame_lframe:
  assumes "frame s s'"
  shows "lframe s s'"
  using assms by (simp add: lframe_def frame_log_sel(4-7)[OF assms, symmetric])

lemma lframe_trans [trans]:
  assumes "lframe s t" "lframe t u"
  shows "lframe s u"
proof -
  obtain ps d w bs n bl k c where t: "t = s\<lparr>procs := ps, disk := d, dwrites := w, bufs := bs, lh_n := n,
      lh_block := bl, outstanding := k, committing := c\<rparr>" "list_all2 restate (procs s) ps"
    using assms(1) by (rule lframeE)
  obtain ps' d' w' bs' n' bl' k' c' where u: "u = t\<lparr>procs := ps', disk := d', dwrites := w', bufs := bs',
      lh_n := n', lh_block := bl', outstanding := k', committing := c'\<rparr>" "list_all2 restate (procs t) ps'"
    using assms(2) by (rule lframeE)
  have "list_all2 restate ps ps'" using t(1) u(2) by simp
  with t(2) have "list_all2 restate (procs s) ps'"
    using list_all2_trans[of restate restate restate] restate_trans by blast
  then show ?thesis using t(1) u(1) by (intro lframeI) simp_all
qed

lemma lframe_upd [simp, intro]:
  "lframe s s" "lframe s (s\<lparr>lh_n := n\<rparr>)" "lframe s (s\<lparr>lh_n := n, lh_block := bl\<rparr>)"
  "lframe s (s\<lparr>outstanding := k\<rparr>)" "lframe s (s\<lparr>committing := c\<rparr>)"
  by (simp_all add: lframe_def)

lemma lframe_sel:
  fixes s s' :: "'a log_scheme"
  assumes "lframe s s'"
  shows "log_start s' = log_start s" "log_size s' = log_size s" "log_dev s' = log_dev s"
    "slot s' = slot s" "log_geom s' = log_geom s" "home s' = home s" "log.more s' = log.more s"
    "disksize s' = disksize s" "cur_proc s' = cur_proc s" "length (procs s') = length (procs s)" "mem s' = mem s"
proof -
  obtain ps d w bs n bl k c where e: "s' = s\<lparr>procs := ps, disk := d, dwrites := w, bufs := bs, lh_n := n,
      lh_block := bl, outstanding := k, committing := c\<rparr>" "list_all2 restate (procs s) ps"
    using assms by (rule lframeE)
  have "length ps = length (procs s)" using e(2) by (simp add: list_all2_lengthD)
  with e(1) show "log_start s' = log_start s" "log_size s' = log_size s" "log_dev s' = log_dev s"
    "slot s' = slot s" "log_geom s' = log_geom s" "home s' = home s" "log.more s' = log.more s"
    "disksize s' = disksize s" "cur_proc s' = cur_proc s" "length (procs s') = length (procs s)" "mem s' = mem s"
    by (simp_all add: slot_def log_geom_def home_def fun_eq_iff)
qed

lemma read_head_rule:
  assumes b: "bio s d w v D {}" and g: "log_geom s" "log_start s \<notin> D" "card D < NBUF"
    and n: "nat (hdr_n (v (log_start s))) \<le> LOGSIZE"
  defines "h \<equiv> v (log_start s)"
  shows "wp read_head (\<lambda>_ s'. lframe s s' \<and> bio s' d w v D {} \<and> lh_n s' = hdr_n h \<and>
    lh_block s' = map (hdr_block h) [0..<nat (hdr_n h)] @ drop (nat (hdr_n h)) (lh_block s)) s"
    (is "wp _ ?Q s")
proof -
  let ?a = "log_start s" and ?n = "hdr_n h"
  let ?u = "\<lambda>s. s\<lparr>lh_n := ?n, lh_block := map (hdr_block h) [0..<nat ?n] @ drop (nat ?n) (lh_block s)\<rparr>"
  have "wp (bnd (bread 1 ?a) (\<lambda>x. bnd (fetch (\<lambda>s. b_data (bufs s ! x))) (\<lambda>lh.
      if nat (hdr_n lh) > LOGSIZE then stuck OutOfBounds
      else bnd (modify (\<lambda>s. s\<lparr>lh_n := hdr_n lh,
              lh_block := map (hdr_block lh) [0..<nat (hdr_n lh)] @ drop (nat (hdr_n lh)) (lh_block s)\<rparr>))
           (\<lambda>_. brelse x)))) ?Q s"
  proof (rule wp_bndI[OF bread_rule[OF b start_less[OF g(1)]]], simp, use g(3) in simp, elim conjE)
    fix x t assume t: "frame s t" "bio t d w v D {?a}" "held t x ?a"
    have data: "b_data (bufs t ! x) = h" using held_slot(10)[OF _ t(3)] t(2) by (auto simp: bio_def h_def)
    have sync: "?a \<in> D \<or> d ?a = v ?a" using bio_clean[OF b g(2)] by simp
    have bu: "bio (?u t) d w v D {?a}" "held (?u t) x ?a" using t(2,3) by simp_all
    have "wp (brelse x) ?Q (?u t)"
    proof (rule wp_mono[OF brelse_rule[OF bu sync]], elim conjE)
      fix u s' assume s': "frame (?u t) s'" "bio s' d w v D ({?a} - {?a})"
      have "lframe s s'"
        using frame_lframe[OF t(1)] lframe_upd(3)[of t] frame_lframe[OF s'(1)] lframe_trans by blast
      then show "?Q u s'" using s' frame_log_sel[OF s'(1)] frame_log_sel(5)[OF t(1)] by simp
    qed
    then show "wp (bnd (fetch (\<lambda>s. b_data (bufs s ! x))) (\<lambda>lh.
        if nat (hdr_n lh) > LOGSIZE then stuck OutOfBounds
        else bnd (modify (\<lambda>s. s\<lparr>lh_n := hdr_n lh,
                lh_block := map (hdr_block lh) [0..<nat (hdr_n lh)] @ drop (nat (hdr_n lh)) (lh_block s)\<rparr>))
             (\<lambda>_. brelse x))) ?Q t"
      using n by (simp add: wp_simps data h_def)
  qed
  moreover have "log_dev s = 1" using g(1) by (simp add: log_geom_def)
  ultimately show ?thesis by (simp add: read_head_def wp_bnd wp_fetch)
qed

text \<open>The header on disk lists a committed transaction, or none.\<close>

definition hdr_ok :: "'a log_scheme \<Rightarrow> block \<Rightarrow> bool" where
  "hdr_ok s h \<longleftrightarrow> nat (hdr_n h) < LOGSIZE \<and> distinct (map (hdr_block h) [0..<nat (hdr_n h)]) \<and>
     (\<forall>i < nat (hdr_n h). home s (hdr_block h i))"

text \<open>The disk writes of a recovery: install every logged block, then clear the header.\<close>

definition recover_writes :: "'a log_scheme \<Rightarrow> (uint \<Rightarrow> block) \<Rightarrow> (uint \<times> block) list" where
  "recover_writes s d =
     (let h = d (log_start s) in
      map (\<lambda>i. (hdr_block h i, d (slot s i))) [0..<nat (hdr_n h)] @ [(log_start s, bst32 h 0 0)])"

lemma put_head_0 [simp]: "put_head 0 bl b = bst32 b 0 0"
  by (simp add: put_head_def)

lemma recover_rule:
  assumes b: "bio s d w v {} {}" and g: "log_geom s" "length (lh_block s) = LOGSIZE"
    and h: "hdr_ok s (d (log_start s))"
  defines "ws \<equiv> recover_writes s d"
  shows "wp recover_from_log (\<lambda>_ s'. lframe s s' \<and> lh_n s' = 0 \<and> length (lh_block s') = LOGSIZE \<and>
    bio s' (apply_writes d ws) (w @ ws) (apply_writes d ws) {} {}) s" (is "wp _ ?Q s")
proof -
  let ?a = "log_start s" and ?n = "nat (hdr_n (d (log_start s)))"
  have v: "v = d" using bio_clean[OF b] by (auto simp: fun_eq_iff)
  have H: "?n < LOGSIZE" "distinct (map (hdr_block (d ?a)) [0..<?n])" "\<And>i. i < ?n \<Longrightarrow> home s (hdr_block (d ?a) i)"
    using h by (auto simp: hdr_ok_def)
  show ?thesis unfolding recover_from_log_def
  proof (rule wp_bndI[OF read_head_rule[OF b g(1)]], simp, simp add: NBUF_def, use H(1) v in simp, elim conjE)
    fix u t assume t: "lframe s t" "bio t d w v {} {}" "lh_n t = hdr_n (v ?a)"
      "lh_block t = map (hdr_block (v ?a)) [0..<nat (hdr_n (v ?a))] @ drop (nat (hdr_n (v ?a))) (lh_block s)"
    note F = lframe_sel[OF t(1)]
    have len: "length (lh_block t) = LOGSIZE" using t(4) v H(1) g(2) by simp
    have nth: "lh_block t ! i = hdr_block (d ?a) i" if "i < ?n" for i using that t(4) v by (simp add: nth_append)
    have lg: "logged t = map (hdr_block (d ?a)) [0..<?n]" using t(3,4) v by (simp add: logged_def)
    have iw: "install_writes t v ?n = map (\<lambda>i. (hdr_block (d ?a) i, d (slot s i))) [0..<?n]"
      using nth v F(4) by (simp add: install_writes_def)
    show "wp (bnd install_trans (\<lambda>_. bnd (modify (\<lambda>s. s\<lparr>lh_n := 0\<rparr>)) (\<lambda>_. write_head))) ?Q t"
    proof (rule wp_bndI[OF install_trans_rule[OF t(2)]])
      show "log_geom t" "nat (lh_n t) < LOGSIZE" "distinct (logged t)" "length (lh_block t) = LOGSIZE"
        "\<And>i. i < nat (lh_n t) \<Longrightarrow> home t (lh_block t ! i)" "{} = set (logged t) \<or> {} = {}"
        using F g H t(3) v len lg nth by simp_all
      let ?iw = "install_writes t v (nat (lh_n t))"
      fix u' t' assume t': "frame t t' \<and> bio t' (apply_writes d ?iw) (w @ ?iw) (apply_writes v ?iw) {} {}"
      note F' = frame_log_sel[OF conjunct1[OF t']]
      let ?s = "t'\<lparr>lh_n := 0\<rparr>"
      have bs: "bio ?s (apply_writes d ?iw) (w @ ?iw) (apply_writes v ?iw) {} {}" using t' by simp
      have hd: "apply_writes v ?iw ?a = d ?a"
        using install_writes_log[of "nat (lh_n t)" t ?a v v] H nth t(3) v F by simp
      have "wp write_head (\<lambda>_ s'. frame ?s s' \<and> bio s' ((apply_writes d ?iw)(?a := bst32 (d ?a) 0 0))
          ((w @ ?iw) @ [(?a, bst32 (d ?a) 0 0)]) ((apply_writes v ?iw)(?a := bst32 (d ?a) 0 0)) {} {}) ?s"
        using write_head_rule[OF bs] F F' g(1) hd by (simp add: NBUF_def log_geom_def)
      moreover have "ws = ?iw @ [(?a, bst32 (d ?a) 0 0)]"
        using t(3) v iw by (simp add: ws_def recover_writes_def Let_def)
      moreover have "lframe s ?s" using t(1) frame_lframe[OF conjunct1[OF t']] lframe_upd(2) lframe_trans by blast
      then have "lframe s s' \<and> lh_n s' = 0 \<and> length (lh_block s') = LOGSIZE" if "frame ?s s'" for s'
        using lframe_trans[OF _ frame_lframe[OF that]] frame_log_sel(4,5)[OF that] len F'(5) by simp
      ultimately have "wp write_head ?Q ?s" using v by (auto elim!: wp_mono)
      then show "wp (bnd (modify (\<lambda>s. s\<lparr>lh_n := 0\<rparr>)) (\<lambda>_. write_head)) ?Q t'"
        by (simp add: wp_bnd wp_modify)
    qed
  qed
qed

subsection \<open>Commit\<close>

text \<open>
  The disk writes of a commit, in order: the log blocks, the header that commits the
  transaction, the home locations, and the cleared header.
\<close>

definition commit_head :: "'a log_scheme \<Rightarrow> (uint \<Rightarrow> block) \<Rightarrow> block" where
  "commit_head s v = put_head (lh_n s) (lh_block s) (v (log_start s))"

definition home_writes :: "'a log_scheme \<Rightarrow> (uint \<Rightarrow> block) \<Rightarrow> nat \<Rightarrow> (uint \<times> block) list" where
  "home_writes s v n = map (\<lambda>i. (lh_block s ! i, v (lh_block s ! i))) [0..<n]"

definition commit_writes :: "'a log_scheme \<Rightarrow> (uint \<Rightarrow> block) \<Rightarrow> (uint \<times> block) list" where
  "commit_writes s v = log_writes s v (nat (lh_n s)) @ [(log_start s, commit_head s v)] @
     home_writes s v (nat (lh_n s)) @ [(log_start s, bst32 (commit_head s v) 0 0)]"

lemma apply_log_writes_slot:
  assumes "log_geom s" "n \<le> LOGSIZE" "i < n"
  shows "apply_writes f (log_writes s v n) (slot s i) = v (lh_block s ! i)"
proof (rule apply_writes_mem)
  have "map fst (log_writes s v n) = map (slot s) [0..<n]" by (simp add: log_writes_def)
  moreover have "inj_on (slot s) (set [0..<n])"
    using slot_inj[OF assms(1)] assms(2) by (auto intro!: inj_onI)
  ultimately show "distinct (map fst (log_writes s v n))" by (simp add: distinct_map)
  show "(slot s i, v (lh_block s ! i)) \<in> set (log_writes s v n)"
    using assms(3) by (auto simp: log_writes_def)
qed

lemma log_writes_start:
  "log_geom s \<Longrightarrow> n \<le> LOGSIZE \<Longrightarrow> apply_writes f (log_writes s v n) (log_start s) = f (log_start s)"
proof (rule apply_writes_other)
  assume a: "log_geom s" "n \<le> LOGSIZE"
  have "slot s i \<noteq> log_start s" if "i < n" for i
    using slot_neq_start[OF a(1), of i] a(2) that by simp
  then show "log_start s \<notin> fst ` set (log_writes s v n)" by (force simp: log_writes_def)
qed

lemma trans_ok_frame:
  assumes "frame s s'"
  shows "trans_ok s' D = trans_ok s D" "logged s' = logged s"
  using frame_log_sel[OF assms] by (simp_all add: trans_ok_def logged_def)

lemma commit_rule:
  assumes b: "bio s d w v D {}" and t: "trans_ok s D" and n: "0 < lh_n s"
  defines "ws \<equiv> commit_writes s v"
  shows "wp commit (\<lambda>_ s'. lframe s s' \<and> lh_n s' = 0 \<and> lh_block s' = lh_block s \<and>
    outstanding s' = outstanding s \<and> committing s' = committing s \<and>
    bio s' (apply_writes d ws) (w @ ws) (apply_writes v ws) {} {}) s" (is "wp _ ?Q s")
proof -
  note T = trans_okD[OF t]
  let ?n = "nat (lh_n s)" and ?a = "log_start s"
  let ?lw = "log_writes s v ?n" and ?H = "commit_head s v"
  let ?v1 = "(apply_writes v ?lw)(?a := ?H)" and ?d1 = "(apply_writes d ?lw)(?a := ?H)"
  have cD: "card D < NBUF" using T(3,4) by (simp add: NBUF_def LOGSIZE_def)
  have iw: "install_writes s ?v1 ?n = home_writes s v ?n"
    using T(3) apply_log_writes_slot[OF T(1), of ?n _ v v] slot_neq_start[OF T(1)]
    by (auto simp: install_writes_def home_writes_def)
  have step1: "wp (bnd write_log (\<lambda>_. write_head)) (\<lambda>_ s'. frame s s' \<and>
      bio s' ?d1 (w @ ?lw @ [(?a, ?H)]) ?v1 D {}) s"
  proof (rule wp_bndI[OF write_log_rule[OF b t]], elim conjE)
    fix u s1 assume s1: "frame s s1" "bio s1 (apply_writes d ?lw) (w @ ?lw) (apply_writes v ?lw) D {}"
    note F = frame_log_sel[OF s1(1)]
    have "put_head (lh_n s1) (lh_block s1) (apply_writes v ?lw (log_start s1)) = ?H"
      using F log_writes_start[OF T(1)] T(3) by (simp add: commit_head_def)
    then show "wp write_head (\<lambda>_ s'. frame s s' \<and> bio s' ?d1 (w @ ?lw @ [(?a, ?H)]) ?v1 D {}) s1"
      using write_head_rule[OF s1(2)] F T cD frame_trans[OF s1(1)] by (auto elim!: wp_mono)
  qed
  have step2: "wp (bnd install_trans (\<lambda>_. bnd (modify (\<lambda>s. s\<lparr>lh_n := 0\<rparr>)) (\<lambda>_. write_head))) ?Q s2"
    if s2: "frame s s2" "bio s2 ?d1 (w @ ?lw @ [(?a, ?H)]) ?v1 D {}" for s2
  proof -
    note F = frame_log_sel[OF s2(1)] trans_ok_frame[OF s2(1)]
    have "wp install_trans (\<lambda>_ s'. frame s2 s' \<and> bio s' (apply_writes ?d1 (home_writes s v ?n))
        (w @ ?lw @ [(?a, ?H)] @ home_writes s v ?n) (apply_writes ?v1 (home_writes s v ?n)) {} {}) s2"
      using install_trans_rule[OF s2(2)] F T t iw
      by (simp add: install_writes_def trans_ok_def)
    then show ?thesis
    proof (rule wp_bndI, elim conjE)
      fix u s3 assume s3: "frame s2 s3" "bio s3 (apply_writes ?d1 (home_writes s v ?n))
        (w @ ?lw @ [(?a, ?H)] @ home_writes s v ?n) (apply_writes ?v1 (home_writes s v ?n)) {} {}"
      let ?s = "s3\<lparr>lh_n := 0\<rparr>" and ?vh = "apply_writes ?v1 (home_writes s v ?n)"
      have f: "lframe s ?s" using s2(1) s3(1) frame_trans frame_lframe lframe_upd(2) lframe_trans by blast
      note G = frame_log_sel[OF frame_trans[OF s2(1) s3(1)]]
      have bs: "bio ?s (apply_writes ?d1 (home_writes s v ?n)) (w @ ?lw @ [(?a, ?H)] @ home_writes s v ?n) ?vh {} {}"
        using s3(2) by simp
      have "?vh ?a = ?H" unfolding iw[symmetric]
        using install_writes_log[of ?n s ?a ?v1 ?v1] T(8) by simp
      then have "wp write_head (\<lambda>_ s'. frame ?s s' \<and> bio s' ((apply_writes ?d1 (home_writes s v ?n))(?a := bst32 ?H 0 0))
          ((w @ ?lw @ [(?a, ?H)] @ home_writes s v ?n) @ [(?a, bst32 ?H 0 0)]) (?vh(?a := bst32 ?H 0 0)) {} {}) ?s"
        using write_head_rule[OF bs] G T(1) by (simp add: NBUF_def log_geom_def)
      moreover have "lframe s s' \<and> lh_n s' = 0 \<and> lh_block s' = lh_block s \<and>
          outstanding s' = outstanding s \<and> committing s' = committing s" if "frame ?s s'" for s'
        using lframe_trans[OF f frame_lframe[OF that]] frame_log_sel[OF that] G by simp
      ultimately have "wp write_head ?Q ?s"
        by (elim wp_mono) (simp add: ws_def commit_writes_def apply_writes_append, simp add: apply_writes_def)
      then show "wp (bnd (modify (\<lambda>s. s\<lparr>lh_n := 0\<rparr>)) (\<lambda>_. write_head)) ?Q s3"
        by (simp add: wp_bnd wp_modify)
    qed
  qed
  have "wp (bnd (bnd write_log (\<lambda>_. write_head)) (\<lambda>_. bnd install_trans (\<lambda>_.
      bnd (modify (\<lambda>s. s\<lparr>lh_n := 0\<rparr>)) (\<lambda>_. write_head)))) ?Q s"
    by (rule wp_bndI[OF step1]) (use step2 in blast)
  then show ?thesis using n by (simp add: commit_def wp_fetch wp_bnd wp_whenk)
qed

subsection \<open>Adding a block to the transaction\<close>

lemma logged_append:
  assumes "length (lh_block s) = LOGSIZE" "0 \<le> lh_n s" "lh_n s < int LOGSIZE"
  shows "logged (s\<lparr>lh_block := (lh_block s)[nat (lh_n s) := bn], lh_n := lh_n s + 1\<rparr>) = logged s @ [bn]"
  using assms by (simp add: logged_def nat_add_distrib take_Suc_conv_app_nth)

lemma log_fields_sel [simp]:
  "slot (s\<lparr>lh_n := n\<rparr>) = slot s" "slot (s\<lparr>lh_block := bl\<rparr>) = slot s" "slot (s\<lparr>outstanding := k\<rparr>) = slot s"
  "slot (s\<lparr>committing := c\<rparr>) = slot s"
  "log_geom (s\<lparr>lh_n := n\<rparr>) = log_geom s" "log_geom (s\<lparr>lh_block := bl\<rparr>) = log_geom s"
  "log_geom (s\<lparr>outstanding := k\<rparr>) = log_geom s" "log_geom (s\<lparr>committing := c\<rparr>) = log_geom s"
  "home (s\<lparr>lh_n := n\<rparr>) = home s" "home (s\<lparr>lh_block := bl\<rparr>) = home s"
  "home (s\<lparr>outstanding := k\<rparr>) = home s" "home (s\<lparr>committing := c\<rparr>) = home s"
  by (simp_all add: slot_def log_geom_def home_def fun_eq_iff)

text \<open>The bookkeeping of \<open>log_write\<close>: a block already in the transaction is absorbed.\<close>

definition log_add :: "uint \<Rightarrow> 'a log_scheme \<Rightarrow> 'a log_scheme" where
  "log_add bn s = (let n = nat (lh_n s);
       i = (case find_idx (\<lambda>x. x = bn) (take n (lh_block s)) of Some i \<Rightarrow> i | None \<Rightarrow> n)
     in s\<lparr>lh_block := (lh_block s)[i := bn], lh_n := (if i = n then lh_n s + 1 else lh_n s)\<rparr>)"

lemma log_add_trans_ok:
  assumes t: "trans_ok s D" and bn: "home s bn" and room: "lh_n s < log_size s - 1"
  shows "trans_ok (log_add bn s) (insert bn D)" "bn \<in> D \<Longrightarrow> log_add bn s = s"
    "bn \<notin> D \<Longrightarrow> lh_n (log_add bn s) = lh_n s + 1"
proof -
  note T = trans_okD[OF t]
  have s: "length (lh_block s) = LOGSIZE" "0 \<le> lh_n s" "lh_n s + 1 < int LOGSIZE" "log_size s \<le> int LOGSIZE"
    "\<forall>b \<in> D. home s b" using t room by (auto simp: trans_ok_def)
  have hit: "log_add bn s = s" if in_D: "bn \<in> D"
  proof -
    obtain i where i: "find_idx (\<lambda>x. x = bn) (logged s) = Some i"
      using in_D T(7) find_idx_None_iff[of "\<lambda>x. x = bn" "logged s"] by (cases "find_idx (\<lambda>x. x = bn) (logged s)") auto
    then have "i < nat (lh_n s)" "lh_block s ! i = bn" using T(2,5) by (auto simp: find_idx_Some_iff)
    then show ?thesis using i list_update_id[of "lh_block s" i] by (simp add: log_add_def Let_def logged_def[symmetric])
  qed
  have miss: "log_add bn s = s\<lparr>lh_block := (lh_block s)[nat (lh_n s) := bn], lh_n := lh_n s + 1\<rparr>" if "bn \<notin> D"
  proof -
    have "find_idx (\<lambda>x. x = bn) (logged s) = None" using that T(7) by (auto simp: find_idx_None_iff)
    then show ?thesis by (simp add: log_add_def Let_def logged_def[symmetric])
  qed
  show "bn \<in> D \<Longrightarrow> log_add bn s = s" by (rule hit)
  show "bn \<notin> D \<Longrightarrow> lh_n (log_add bn s) = lh_n s + 1" using miss by simp
  show "trans_ok (log_add bn s) (insert bn D)"
  proof (cases "bn \<in> D")
    case True
    then show ?thesis using hit t by (simp add: insert_absorb)
  next
    case False
    then show ?thesis
      using miss[OF False] logged_append[of s bn] s T bn by (simp add: trans_ok_def)
  qed
qed

lemma log_write_rule:
  fixes s :: "'a log_scheme"
  assumes b: "bio s d w v D L" and h: "held s i bn" and t: "trans_ok s D" and bn: "home s bn"
    and room: "lh_n s < log_size s - 1" and out: "1 \<le> outstanding s"
  shows "wp (log_write i) (\<lambda>_ s'. lframe s s' \<and> bio s' d w v (insert bn D) L \<and> trans_ok s' (insert bn D) \<and>
    outstanding s' = outstanding s \<and> committing s' = committing s \<and>
    lh_n s' = (if bn \<in> D then lh_n s else lh_n s + 1) \<and> (\<forall>j y. held s j y \<longrightarrow> held s' j y)) s"
proof -
  have inv: "bio_inv s" using b by (simp add: bio_def)
  let ?s1 = "buf_upd i (\<lambda>x. x\<lparr>b_dirty := True\<rparr>) s"
  have blk: "b_blockno (bufs s ! i) = bn" using held_slot(4)[OF inv h] by (simp add: caches_def)
  have "lh_n s < int LOGSIZE" using t by (simp add: trans_ok_def)
  then have run: "log_write i s = Inr ((), log_add bn ?s1)"
    using room out by (simp add: log_write_def bnd_def fetch_run modify_run blk Let_def log_add_def buf_upd_def)
  note M = mark_dirty_spec[OF inv h]
  have "frame s ?s1" unfolding buf_upd_def by (rule frame_bufs) (rule refl)
  note F = frame_log_sel[OF this] trans_ok_frame[OF this] frame_lframe[OF this]
  have b1: "bio ?s1 d w v (insert bn D) L" using b M by (simp add: bio_def) (auto simp: buf_upd_def)
  have t1: "trans_ok ?s1 D" "home ?s1 bn" "lh_n ?s1 < log_size ?s1 - 1" using t bn room F by simp_all
  note A = log_add_trans_ok[OF t1]
  have la: "lframe ?s1 (log_add bn ?s1)" "bio (log_add bn ?s1) = bio ?s1" "held (log_add bn ?s1) = held ?s1"
    "outstanding (log_add bn ?s1) = outstanding ?s1" "committing (log_add bn ?s1) = committing ?s1"
    by (simp_all add: log_add_def Let_def lframe_def)
  show ?thesis unfolding wp_def run
    using la b1 A lframe_trans[OF F(14) la(1)] F(4,6,7) M(5) by simp
qed

subsection \<open>The two patterns of file system code\<close>

text \<open>Read a block and release it; read a block, change it, log it and release it.\<close>

definition with_block :: "uint \<Rightarrow> uint \<Rightarrow> (block \<Rightarrow> 'b) \<Rightarrow> ('a bcache_scheme, 'b) kernel" where
  "with_block dev bn f =
     bnd (bread dev bn) (\<lambda>bp.
     bnd (fetch (\<lambda>s. f (b_data (bufs s ! bp)))) (\<lambda>x.
     bnd (brelse bp) (\<lambda>_. ret x)))"

definition update_block :: "uint \<Rightarrow> uint \<Rightarrow> (block \<Rightarrow> block) \<Rightarrow> ('a log_scheme, unit) kernel" where
  "update_block dev bn f =
     bnd (bread dev bn) (\<lambda>bp.
     bnd (modify (\<lambda>s. set_data bp (f (b_data (bufs s ! bp))) s)) (\<lambda>_.
     bnd (log_write bp) (\<lambda>_. brelse bp)))"

lemma held_data: "bio s d w v D L \<Longrightarrow> held s i bn \<Longrightarrow> b_data (bufs s ! i) = v bn"
  using held_slot(10)[of s i bn] by (auto simp: bio_def)

lemma with_block_rule:
  assumes b: "bio s d w v D L" and bn: "bn < disksize s" "bn \<notin> L" "bn \<in> D \<or> card (D \<union> L) < NBUF"
  shows "wp (with_block 1 bn f) (\<lambda>x s'. x = f (v bn) \<and> frame s s' \<and> bio s' d w v D L \<and>
    (\<forall>j y. held s j y \<longrightarrow> held s' j y)) s"
  unfolding with_block_def
proof (rule wp_bndI[OF bread_rule[OF b bn]], elim conjE)
  fix i t assume t: "frame s t" "bio t d w v D (insert bn L)" "held t i bn"
    "\<forall>j x. held s j x \<longrightarrow> held t j x \<and> j \<noteq> i"
  have sync: "bn \<in> D \<or> d bn = v bn" using bio_clean[OF b _ bn(2)] by auto
  have "wp (bnd (brelse i) (\<lambda>_. ret (f (v bn)))) (\<lambda>x s'. x = f (v bn) \<and> frame s s' \<and> bio s' d w v D L \<and>
    (\<forall>j y. held s j y \<longrightarrow> held s' j y)) t"
    using brelse_rule[OF t(2,3) sync] frame_trans[OF t(1)] t(4) bn(2)
    by (auto simp: wp_bnd wp_ret elim!: wp_mono)
  then show "wp (bnd (fetch (\<lambda>s. f (b_data (bufs s ! i)))) (\<lambda>x. bnd (brelse i) (\<lambda>_. ret x)))
      (\<lambda>x s'. x = f (v bn) \<and> frame s s' \<and> bio s' d w v D L \<and> (\<forall>j y. held s j y \<longrightarrow> held s' j y)) t"
    by (simp add: wp_bnd wp_fetch held_data[OF t(2,3)])
qed

lemma update_block_rule:
  fixes s :: "'a log_scheme"
  assumes b: "bio s d w v D L" and bn: "home s bn" "bn \<notin> L" "bn \<in> D \<or> card (D \<union> L) < NBUF"
    and t: "trans_ok s D" "lh_n s < log_size s - 1" "1 \<le> outstanding s"
  shows "wp (update_block 1 bn f) (\<lambda>_ s'. lframe s s' \<and> bio s' d w (v(bn := f (v bn))) (insert bn D) L \<and>
    trans_ok s' (insert bn D) \<and> outstanding s' = outstanding s \<and> committing s' = committing s \<and>
    lh_n s' = (if bn \<in> D then lh_n s else lh_n s + 1) \<and> (\<forall>j y. held s j y \<longrightarrow> held s' j y)) s"
    (is "wp _ ?Q s")
  unfolding update_block_def
proof (rule wp_bndI[OF bread_rule[OF b conjunct1[OF bn(1)[unfolded home_def]] bn(2,3)]], elim conjE)
  fix i s1 assume s1: "frame s s1" "bio s1 d w v D (insert bn L)" "held s1 i bn"
    "\<forall>j x. held s j x \<longrightarrow> held s1 j x \<and> j \<noteq> i"
  let ?x = "f (v bn)" and ?v = "v(bn := f (v bn))"
  let ?s2 = "set_data i ?x s1"
  note S = set_data_rule[OF s1(2,3), where x = ?x]
  have f2: "frame s ?s2" using s1(1) S(1) by (rule frame_trans)
  note F = frame_log_sel[OF f2] trans_ok_frame[OF f2]
  have ok: "trans_ok ?s2 D" "home ?s2 bn" "lh_n ?s2 < log_size ?s2 - 1" "1 \<le> outstanding ?s2" using F bn t by simp_all
  have "wp (bnd (log_write i) (\<lambda>_. brelse i)) ?Q ?s2"
  proof (rule wp_bndI[OF log_write_rule[OF S(2) S(3)[OF s1(3)] ok]], elim conjE)
    fix u s3 assume s3: "lframe ?s2 s3" "bio s3 d w ?v (insert bn D) (insert bn L)" "trans_ok s3 (insert bn D)"
      "outstanding s3 = outstanding ?s2" "committing s3 = committing ?s2"
      "lh_n s3 = (if bn \<in> D then lh_n ?s2 else lh_n ?s2 + 1)" "\<forall>j y. held ?s2 j y \<longrightarrow> held s3 j y"
    have h: "held s3 i bn" using s3(7) S(3) s1(3) by blast
    have "?Q u s'" if s': "frame s3 s'" "bio s' d w ?v (insert bn D) (insert bn L - {bn})"
      "\<forall>j y. j \<noteq> i \<longrightarrow> held s3 j y \<longrightarrow> held s' j y" for s'
    proof -
      have "lframe s s'" using f2 s3(1) s'(1) frame_lframe lframe_trans by blast
      then show ?thesis
        using s' s3 s1(4) S(3) F bn(2) frame_log_sel[OF s'(1)] trans_ok_frame[OF s'(1)] by auto
    qed
    then show "wp (brelse i) ?Q s3" using brelse_rule[OF s3(2) h] by (auto elim!: wp_mono)
  qed
  then show "wp (bnd (modify (\<lambda>s. set_data i (f (b_data (bufs s ! i))) s)) (\<lambda>_. bnd (log_write i) (\<lambda>_. brelse i))) ?Q s1"
    by (simp add: wp_bnd wp_modify held_data[OF s1(2,3)])
qed

end
