(* ===== verification/Crash.thy ===== *)
theory Crash
  imports Log_Spec
begin

text \<open>
  Crash safety of the log. A crash keeps a prefix of the disk writes of a commit and loses
  the cache; at the next boot \<open>recover_from_log\<close> runs on that disk. Whatever the prefix, the
  file system's blocks come back as they were before the transaction, all of them, or as
  the transaction left them, all of them.
\<close>

subsection \<open>The disk after a crash\<close>

text \<open>Recovery changes the blocks outside the log to the logged contents the header names.\<close>

lemma recover_home:
  assumes ok: "hdr_ok s (d (log_start s))" and g: "log_geom s" and bn: "home s bn"
  shows "apply_writes d (recover_writes s d) bn =
    (case find_idx (\<lambda>b. b = bn) (map (hdr_block (d (log_start s))) [0..<nat (hdr_n (d (log_start s)))]) of
       None \<Rightarrow> d bn | Some i \<Rightarrow> d (slot s i))"
proof -
  let ?a = "log_start s" and ?n = "nat (hdr_n (d (log_start s)))"
  let ?bl = "map (hdr_block (d ?a)) [0..<?n]" and ?iw = "map (\<lambda>i. (hdr_block (d ?a) i, d (slot s i))) [0..<?n]"
  have "?a \<noteq> bn" using bn by (auto simp: home_def)
  then have e: "apply_writes d (recover_writes s d) bn = apply_writes d ?iw bn"
    by (simp add: recover_writes_def Let_def)
  have f: "map fst ?iw = ?bl" by simp
  show ?thesis
  proof (cases "find_idx (\<lambda>b. b = bn) ?bl")
    case None
    then have "bn \<notin> set (map fst ?iw)" unfolding f by (auto simp: find_idx_None_iff)
    then have "bn \<notin> fst ` set ?iw" by (simp only: list.set_map not_False_eq_True)
    then show ?thesis using None e apply_writes_other[of bn ?iw d] by simp
  next
    case (Some i)
    then have i: "i < ?n" "hdr_block (d ?a) i = bn" by (auto simp: find_idx_Some_iff)
    have "distinct (map fst ?iw)" unfolding f using ok by (simp add: hdr_ok_def)
    moreover have "(bn, d (slot s i)) \<in> set ?iw" using i by auto
    ultimately show ?thesis using Some e apply_writes_mem by simp
  qed
qed

lemma recover_clean:
  assumes "hdr_n (d (log_start s)) = 0" "home s bn"
  shows "hdr_ok s (d (log_start s))" "apply_writes d (recover_writes s d) bn = d bn"
  using assms by (auto simp: hdr_ok_def LOGSIZE_def recover_writes_def Let_def apply_writes_def home_def)

lemma hdr_n_cleared [simp]: "hdr_n (bst32 b 0 0) = 0"
  by (simp add: hdr_n_def)

text \<open>The disk once the commit header has been written and \<open>m\<close> blocks have been installed.\<close>

definition committed_disk :: "'a log_scheme \<Rightarrow> (uint \<Rightarrow> block) \<Rightarrow> (uint \<Rightarrow> block) \<Rightarrow> nat \<Rightarrow> uint \<Rightarrow> block" where
  "committed_disk s d v m = apply_writes ((apply_writes d (log_writes s v (nat (lh_n s))))
     (log_start s := commit_head s v)) (home_writes s v m)"

lemma committed_disk_sel:
  assumes t: "trans_ok s D" and m: "m \<le> nat (lh_n s)"
  shows "committed_disk s d v m (log_start s) = commit_head s v"
    "i < nat (lh_n s) \<Longrightarrow> committed_disk s d v m (slot s i) = v (lh_block s ! i)"
    "home s bn \<Longrightarrow> committed_disk s d v m bn = (if bn \<in> set (take m (logged s)) then v bn else d bn)"
proof -
  note T = trans_okD[OF t]
  have fst: "fst ` set (home_writes s v m) = set (take m (logged s))"
    using m T(2,5) by (force simp: home_writes_def in_set_conv_nth)
  have hw: "log_start s \<notin> fst ` set (home_writes s v m)" "i < LOGSIZE \<Longrightarrow> slot s i \<notin> fst ` set (home_writes s v m)" for i
    using T(7,10,11) set_take_subset[of m "logged s"] unfolding fst by auto
  show "committed_disk s d v m (log_start s) = commit_head s v"
    using hw(1) by (simp add: committed_disk_def apply_writes_other)
  show "committed_disk s d v m (slot s i) = v (lh_block s ! i)" if "i < nat (lh_n s)"
    using hw(2)[of i] that T(3) slot_neq_start[OF T(1), of i] apply_log_writes_slot[OF T(1), of "nat (lh_n s)" i]
    by (simp add: committed_disk_def apply_writes_other)
  assume bn: "home s bn"
  then have a: "bn \<noteq> log_start s" by (simp add: home_def)
  show "committed_disk s d v m bn = (if bn \<in> set (take m (logged s)) then v bn else d bn)"
  proof (cases "bn \<in> set (take m (logged s))")
    case True
    then obtain i where i: "i < m" "lh_block s ! i = bn"
      using m T(2,5) by (auto simp: in_set_conv_nth)
    have "map fst (home_writes s v m) = take m (logged s)"
      using m T(2,5) by (auto intro!: nth_equalityI simp: home_writes_def)
    then have "distinct (map fst (home_writes s v m))" using T(6) by simp
    moreover have "(bn, v bn) \<in> set (home_writes s v m)" using i by (force simp: home_writes_def)
    ultimately show ?thesis using True by (simp add: committed_disk_def apply_writes_mem)
  next
    case False
    then show ?thesis
      using fst a log_writes_home[OF bn, of "nat (lh_n s)"] T(3)
      by (simp add: committed_disk_def apply_writes_other)
  qed
qed

text \<open>After the header is on disk, recovery completes the transaction.\<close>

lemma committed_recovers:
  assumes t: "trans_ok s D" and m: "m \<le> nat (lh_n s)" and clean: "\<And>b. b \<notin> D \<Longrightarrow> v b = d b"
  defines "c \<equiv> committed_disk s d v m"
  shows "hdr_ok s (c (log_start s))" "home s bn \<Longrightarrow> apply_writes c (recover_writes s c) bn = v bn"
proof -
  note T = trans_okD[OF t] and C = committed_disk_sel[OF t m]
  let ?n = "nat (lh_n s)"
  have n: "0 \<le> lh_n s" "lh_n s \<le> int LOGSIZE" using t by (auto simp: trans_ok_def)
  note P = hdr_put_head[OF n, where bl = "lh_block s" and b = "v (log_start s)"]
  have hn: "hdr_n (c (log_start s)) = lh_n s" using C(1) P(1) by (simp add: c_def commit_head_def)
  have hb: "hdr_block (c (log_start s)) i = lh_block s ! i" if "i < ?n" for i
    using C(1) P(2) that by (simp add: c_def commit_head_def)
  have bl: "map (hdr_block (c (log_start s))) [0..<?n] = logged s"
    using hb T(2,5) by (auto intro: nth_equalityI)
  show ok: "hdr_ok s (c (log_start s))" using T bl hn hb by (simp add: hdr_ok_def)
  assume bn: "home s bn"
  show "apply_writes c (recover_writes s c) bn = v bn"
  proof (cases "find_idx (\<lambda>b. b = bn) (logged s)")
    case None
    then have "bn \<notin> D" using T(7) by (auto simp: find_idx_None_iff)
    moreover have "bn \<notin> set (take m (logged s))" using calculation T(7) in_set_takeD by metis
    ultimately show ?thesis
      using None recover_home[where d = c, OF ok T(1) bn] bl hn C(3)[OF bn] clean[of bn] by (simp add: c_def)
  next
    case (Some i)
    then have "i < ?n" "lh_block s ! i = bn" using T(2,5) by (auto simp: find_idx_Some_iff)
    then show ?thesis using Some recover_home[where d = c, OF ok T(1) bn] bl hn C(2)[of i] by (simp add: c_def)
  qed
qed

text \<open>After all writes the disk holds the transaction's contents.\<close>

lemma commit_all:
  assumes t: "trans_ok s D" and clean: "\<And>b. b \<notin> D \<Longrightarrow> v b = d b" and bn: "home s bn"
  shows "apply_writes d (commit_writes s v) bn = v bn"
proof -
  note T = trans_okD[OF t]
  have e: "apply_writes d (commit_writes s v) =
      (committed_disk s d v (nat (lh_n s)))(log_start s := bst32 (commit_head s v) 0 0)"
    by (simp add: commit_writes_def committed_disk_def apply_writes_append) (simp add: apply_writes_def)
  have "bn \<noteq> log_start s" "take (nat (lh_n s)) (logged s) = logged s" using bn T(2) by (auto simp: home_def)
  then show ?thesis
    using e committed_disk_sel(3)[OF t le_refl bn] T(7) clean[of bn] by simp
qed

text \<open>Every prefix of the commit's writes recovers to the old or to the new contents.\<close>

lemma commit_prefix_recovers:
  fixes s :: "'a log_scheme"
  assumes t: "trans_ok s D" and clean: "\<And>b. b \<notin> D \<Longrightarrow> v b = d b" and h0: "hdr_n (d (log_start s)) = 0"
  defines "c k \<equiv> apply_writes d (take k (commit_writes s v))"
  shows "hdr_ok s (c k (log_start s)) \<and>
    ((\<forall>bn. home s bn \<longrightarrow> apply_writes (c k) (recover_writes s (c k)) bn = d bn) \<or>
     (\<forall>bn. home s bn \<longrightarrow> apply_writes (c k) (recover_writes s (c k)) bn = v bn))"
proof -
  note T = trans_okD[OF t]
  let ?n = "nat (lh_n s)" and ?H = "commit_head s v"
  have len: "length (log_writes s v ?n) = ?n" "length (home_writes s v ?n) = ?n"
    by (simp_all add: log_writes_def home_writes_def)
  consider "k \<le> ?n" | m where "k = ?n + 1 + m" "m \<le> ?n" | "2 * ?n + 2 \<le> k"
    using le_Suc_ex[of "?n + 1" k] by fastforce
  then show ?thesis
  proof cases
    case 1
    then have "take k (commit_writes s v) = log_writes s v k"
      using len by (simp add: commit_writes_def) (simp add: log_writes_def take_map)
    then have c: "c k = apply_writes d (log_writes s v k)" by (simp add: c_def)
    have k: "k \<le> LOGSIZE" using 1 T(3) by simp
    have "c k (log_start s) = d (log_start s)" using c log_writes_start[OF T(1) k] by simp
    moreover have "home s bn \<Longrightarrow> c k bn = d bn" for bn using c log_writes_home k by simp
    ultimately show ?thesis using h0 recover_clean[of "c k" s] by (auto simp: hdr_ok_def LOGSIZE_def)
  next
    case (2 m)
    then have "take k (commit_writes s v) = log_writes s v ?n @ [(log_start s, ?H)] @ home_writes s v m"
      using len by (simp add: commit_writes_def) (simp add: home_writes_def take_map)
    then have "c k = committed_disk s d v m"
      by (simp add: c_def committed_disk_def apply_writes_append) (simp add: apply_writes_def)
    then show ?thesis using committed_recovers[OF t 2(2) clean] by simp
  next
    case 3
    then have c: "c k = (committed_disk s d v ?n)(log_start s := bst32 ?H 0 0)"
      using len by (simp add: c_def commit_writes_def committed_disk_def apply_writes_append) (simp add: apply_writes_def)
    have "c k = apply_writes d (commit_writes s v)" using 3 len by (simp add: c_def commit_writes_def)
    then have "c k bn = v bn" if "home s bn" for bn using commit_all[OF t clean that] by simp
    moreover have "hdr_n (c k (log_start s)) = 0" using c by simp
    ultimately show ?thesis using recover_clean[of "c k" s] by (auto simp: hdr_ok_def LOGSIZE_def)
  qed
qed

text \<open>Recovery can itself be interrupted: running it again gives the same result.\<close>

lemma recover_prefix_recovers:
  fixes s :: "'a log_scheme" and d :: "uint \<Rightarrow> block" and k :: nat
  assumes ok: "hdr_ok s (d (log_start s))" and g: "log_geom s"
  defines "c \<equiv> apply_writes d (take k (recover_writes s d))"
  shows "hdr_ok s (c (log_start s)) \<and>
    (\<forall>bn. home s bn \<longrightarrow> apply_writes c (recover_writes s c) bn = apply_writes d (recover_writes s d) bn)"
proof -
  let ?a = "log_start s" and ?n = "nat (hdr_n (d (log_start s)))"
  let ?iw = "\<lambda>m. map (\<lambda>i. (hdr_block (d ?a) i, d (slot s i))) [0..<m]"
  have nhome: "x \<notin> fst ` set (?iw m)" if "m \<le> ?n" "x = ?a \<or> (\<exists>i<LOGSIZE. x = slot s i)" for x m
    using ok that by (auto simp: hdr_ok_def home_def)
  show ?thesis
  proof (cases "k \<le> ?n")
    case True
    then have c: "c = apply_writes d (?iw k)"
      by (simp add: c_def recover_writes_def Let_def take_map)
    have a: "c ?a = d ?a" using nhome[OF True] by (simp add: c apply_writes_other)
    have sl: "c (slot s i) = d (slot s i)" if "i < ?n" for i
    proof -
      have "i < LOGSIZE" using that ok by (simp add: hdr_ok_def)
      then show ?thesis unfolding c using nhome[OF True, of "slot s i"] by (intro apply_writes_other) blast
    qed
    let ?F = "\<lambda>bn. find_idx (\<lambda>b. b = bn) (map (hdr_block (d ?a)) [0..<?n])"
    have "c bn = d bn" if "?F bn = None" for bn
    proof -
      have "bn \<notin> fst ` set (?iw k)" using that True by (auto simp: find_idx_None_iff)
      then show ?thesis by (simp add: c apply_writes_other)
    qed
    moreover have "i < ?n" if "?F bn = Some i" for i bn using find_idx_Some_less[OF that] by simp
    ultimately show ?thesis
      using recover_home[where d = c, OF _ g] recover_home[where d = d, OF ok g] ok a sl
      by (auto split: option.splits)
  next
    case False
    then have c: "c = apply_writes d (recover_writes s d)" by (simp add: c_def recover_writes_def Let_def)
    have "c ?a = bst32 (d ?a) 0 0" by (simp add: c recover_writes_def Let_def)
    then show ?thesis using recover_clean[of c s] c by (auto simp: hdr_ok_def LOGSIZE_def)
  qed
qed

subsection \<open>Crash and reboot\<close>

text \<open>A freshly booted kernel on disk \<open>d\<close>: an idle cache, and the log's place as before.\<close>

definition booted :: "'a log_scheme \<Rightarrow> (uint \<Rightarrow> block) \<Rightarrow> 'a log_scheme \<Rightarrow> bool" where
  "booted s d r \<longleftrightarrow> bio_inv r \<and> disk r = d \<and> dirty_blocks r = {} \<and> locked_blocks r = {} \<and>
     log_dev r = log_dev s \<and> log_start r = log_start s \<and> disksize r = disksize s \<and> length (lh_block r) = LOGSIZE"

lemma booted_rule:
  assumes "booted s d r" "log_geom s" "hdr_ok s (d (log_start s))"
  shows "wp recover_from_log (\<lambda>_ r'. disk r' = apply_writes d (recover_writes s d)) r"
proof -
  have b: "bio r d (dwrites r) (view r) {} {}" using assms(1) by (simp add: booted_def bio_def)
  have eq: "log_start r = log_start s" "slot r = slot s" "log_geom r = log_geom s" "home r = home s"
    using assms(1) by (auto simp: booted_def slot_def log_geom_def home_def fun_eq_iff)
  then have "hdr_ok r = hdr_ok s" "recover_writes r d = recover_writes s d"
    by (auto simp: hdr_ok_def recover_writes_def fun_eq_iff)
  then have "wp recover_from_log (\<lambda>_ s'. lframe r s' \<and> lh_n s' = 0 \<and> length (lh_block s') = LOGSIZE \<and>
    bio s' (apply_writes d (recover_writes s d)) (dwrites r @ recover_writes s d)
      (apply_writes d (recover_writes s d)) {} {}) r"
    using recover_rule[OF b] assms eq by (simp add: booted_def)
  then show ?thesis by (rule wp_mono) (simp add: bio_def)
qed

subsection \<open>A concrete log\<close>

definition log_boot :: "(uint \<Rightarrow> block) \<Rightarrow> log" where
  "log_boot d = bcache.extend (bcache_boot d)
     \<lparr>log_start = 2, log_size = 30, outstanding = 0, committing = False, log_dev = 1, lh_n = 0,
      lh_block = replicate LOGSIZE 0\<rparr>"

lemma extend_sel [simp]:
  "bio_inv (bcache.extend b x) = bio_inv b" "bufs (bcache.extend b x) = bufs b"
  "disk (bcache.extend b x) = disk b" "disksize (bcache.extend b x) = disksize b"
  "dwrites (bcache.extend b x) = dwrites b" "cur_proc (bcache.extend b x) = cur_proc b"
  by (simp_all add: bcache.extend_def bio_inv_def in_proc_def)

lemma log_boot_sel [simp]:
  "log_start (log_boot d) = 2" "log_size (log_boot d) = 30" "outstanding (log_boot d) = 0"
  "\<not> committing (log_boot d)" "log_dev (log_boot d) = 1" "lh_n (log_boot d) = 0"
  "lh_block (log_boot d) = replicate LOGSIZE 0" "disksize (log_boot d) = 1000" "disk (log_boot d) = d"
  by (simp_all add: log_boot_def bcache.extend_def bcache_boot_inv)

lemma log_boot_bio: "bio (log_boot d) d (dwrites (log_boot d)) d {} {}"
proof -
  have "bio (log_boot d) d (dwrites (log_boot d)) (view (log_boot d)) {} {}"
    using bcache_boot_inv[of d] by (simp add: bio_def) (simp add: log_boot_def)
  moreover from bio_clean[OF this] have "view (log_boot d) = d" by (auto simp: fun_eq_iff)
  ultimately show ?thesis by simp
qed

lemma log_boot_ok: "log_geom (log_boot d)" "trans_ok (log_boot d) {}" "home (log_boot d) 100"
proof -
  show g: "log_geom (log_boot d)" by (simp add: log_geom_def LOGSIZE_def)
  then show "trans_ok (log_boot d) {}" by (simp add: trans_ok_def logged_def LOGSIZE_def)
  show "home (log_boot d) 100" using g by (rule home_above) (simp_all add: LOGSIZE_def)
qed

lemma booted_log_boot:
  "log_dev s = 1 \<Longrightarrow> log_start s = 2 \<Longrightarrow> disksize s = 1000 \<Longrightarrow> booted s d (log_boot d)"
  using log_boot_bio[of d] by (simp add: booted_def bio_def)

text \<open>A transaction that has written block 100.\<close>

lemma one_block_trans:
  "\<exists>s :: log. bio s (\<lambda>_ _. 0) [] ((\<lambda>_ _. 0)(100 := \<lambda>_. 7)) {100} {} \<and> trans_ok s {100} \<and> lh_n s = 1 \<and>
     log_dev s = 1 \<and> log_start s = 2 \<and> disksize s = 1000 \<and> home s = home (log_boot (\<lambda>_ _. 0))"
proof -
  let ?s = "(log_boot (\<lambda>_ _. 0))\<lparr>outstanding := 1\<rparr>"
  have w: "dwrites (log_boot (\<lambda>_ _. 0)) = []"
    by (simp add: log_boot_def bcache_boot_inv)
  have b: "bio ?s (\<lambda>_ _. 0) [] (\<lambda>_ _. 0) {} {}" using log_boot_bio[of "\<lambda>_ _. 0"] w by simp
  have ok: "trans_ok ?s {}" "home ?s 100" using log_boot_ok by (simp_all add: trans_ok_def logged_def)
  have "wp (update_block 1 100 (\<lambda>_ _. 7)) (\<lambda>_ s'. lframe ?s s' \<and>
      bio s' (\<lambda>_ _. 0) [] ((\<lambda>_ _. 0)(100 := \<lambda>_. 7)) {100} {} \<and> trans_ok s' {100} \<and> lh_n s' = 1) ?s"
    by (rule wp_mono[OF update_block_rule[OF b ok(2) _ _ ok(1)]]) (simp_all add: NBUF_def)
  then obtain s' where s': "lframe ?s s'" "bio s' (\<lambda>_ _. 0) [] ((\<lambda>_ _. 0)(100 := \<lambda>_. 7)) {100} {}"
    "trans_ok s' {100}" "lh_n s' = 1" by (auto simp: wp_iff)
  then show ?thesis using lframe_sel[OF s'(1)] by (intro exI[of _ s']) simp
qed

subsection \<open>Properties\<close>







end
