(* ===== verification/Log_Admission.thy ===== *)
theory Log_Admission
  imports Crash
begin

text \<open>
  Concurrent file-system operations and the space of the log. \<open>begin_op\<close> admits an operation
  when the log has room for what it and the operations already running may still write;
  \<open>log_write\<close> panics when the log is full. The step relation interleaves the log calls of any
  number of operations, each of which writes at most \<open>MAXOPBLOCKS\<close> different blocks.
\<close>

subsection \<open>What the buffer cache and the log leave alone\<close>

lemma keeps_acquiresleep:
  "(\<And>l s. g (upd l s) = g s) \<Longrightarrow> keeps g (acquiresleep c lk upd)"
  by (auto simp: keeps_def acquiresleep_def bnd_def run_simps myproc_def split: option.splits if_splits)

lemma keeps_holdingsleep: "keeps g (holdingsleep lk)"
  by (auto simp: keeps_def holdingsleep_def bnd_def run_simps myproc_def split: option.splits if_splits)

lemma bcache_more_upd [simp]:
  "bcache.more (buf_upd i f s) = bcache.more s" "bcache.more (link_head i s) = bcache.more s"
  "bcache.more (unlink_buf i s) = bcache.more s" "bcache.more (wakeup1 c s) = bcache.more s"
  "bcache.more (set_data i x s) = bcache.more s"
  by (simp_all add: buf_upd_def link_head_def unlink_buf_def wakeup1_def Let_def set_data_def)

lemma keeps_releasesleep:
  "(\<And>l s. g (upd l s) = g s) \<Longrightarrow> (\<And>s. g (wakeup1 c s) = g s) \<Longrightarrow> keeps g (releasesleep c upd)"
  by (simp add: keeps_def releasesleep_def bnd_def run_simps wakeup_def)

lemma keeps_iderw [keeps_intros]: "keeps bcache.more (iderw i)"
  unfolding iderw_def by (intro keeps_intros keeps_holdingsleep) simp_all

lemma keeps_bget [keeps_intros]: "keeps bcache.more (bget dev bn)"
  unfolding bget_def bget_lock_def by (intro keeps_intros keeps_acquiresleep) simp_all

lemma keeps_bread [keeps_intros]: "keeps bcache.more (bread dev bn)"
  unfolding bread_def by (intro keeps_intros)

lemma keeps_bwrite [keeps_intros]: "keeps bcache.more (bwrite i)"
  unfolding bwrite_def by (intro keeps_intros keeps_holdingsleep) simp_all

lemma keeps_brelse [keeps_intros]: "keeps bcache.more (brelse i)"
  unfolding brelse_def by (intro keeps_intros keeps_holdingsleep keeps_releasesleep) simp_all

lemma keeps_write_log [keeps_intros]: "keeps bcache.more write_log"
  unfolding write_log_def write_log_one_def by (intro keeps_intros) simp_all

lemma keeps_write_head [keeps_intros]: "keeps bcache.more write_head"
  unfolding write_head_def by (intro keeps_intros) simp_all

lemma keeps_install_trans [keeps_intros]: "keeps bcache.more install_trans"
  unfolding install_trans_def install_one_def by (intro keeps_intros) simp_all

text \<open>The log's own fields are determined by the part the cache does not touch.\<close>

lemma log_fields_more:
  assumes "bcache.more s' = bcache.more s"
  shows "lh_n s' = lh_n s" "outstanding s' = outstanding s" "committing s' = committing s"
    "log_size s' = log_size s" "lh_block s' = lh_block s"
  using assms by (cases s; cases s'; simp)+

lemma log_fields_sel_all:
  "lh_n (buf_upd b f s) = lh_n s" "outstanding (buf_upd b f s) = outstanding s"
  "committing (buf_upd b f s) = committing s" "log_size (buf_upd b f s) = log_size s"
  "lh_block (buf_upd b f s) = lh_block s"
  by (simp_all add: buf_upd_def)

subsection \<open>Interleaved operations\<close>

text \<open>
  The state of a step: the log, and for each thread in an operation the blocks it has written.
  A step of the file system that makes no log call changes only the part of the state below
  the log.
\<close>

type_synonym ops = "nat \<Rightarrow> uint set option"

inductive log_step :: "'a log_scheme \<times> ops \<Rightarrow> 'a log_scheme \<times> ops \<Rightarrow> bool" where
  op_begin: "ops t = None \<Longrightarrow> begin_op s = Inr ((), s') \<Longrightarrow> log_step (s, ops) (s', ops(t \<mapsto> {}))"
| op_write: "ops t = Some B \<Longrightarrow> bn = b_blockno (bufs s ! b) \<Longrightarrow> int (card (insert bn B)) \<le> MAXOPBLOCKS \<Longrightarrow>
    log_write b s = Inr ((), s') \<Longrightarrow> log_step (s, ops) (s', ops(t \<mapsto> insert bn B))"
| op_end: "ops t = Some B \<Longrightarrow> end_op s = Inr ((), s') \<Longrightarrow> log_step (s, ops) (s', ops(t := None))"
| op_other: "bcache.more s' = bcache.more s \<Longrightarrow> log_step (s, ops) (s', ops)"

inductive_cases log_stepE: "log_step (s, ops) (s', ops')"

text \<open>What the running operations may still write.\<close>

definition reserved :: "ops \<Rightarrow> int" where
  "reserved ops = (\<Sum>t \<in> dom ops. MAXOPBLOCKS - int (card (the (ops t))))"

definition adm_inv :: "'a log_scheme \<times> ops \<Rightarrow> bool" where
  "adm_inv c \<longleftrightarrow> (case c of (s, ops) \<Rightarrow>
     finite (dom ops) \<and> outstanding s = int (card (dom ops)) \<and> \<not> committing s \<and>
     0 \<le> lh_n s \<and> length (lh_block s) = LOGSIZE \<and>
     (\<forall>t B. ops t = Some B \<longrightarrow> B \<subseteq> set (take (nat (lh_n s)) (lh_block s)) \<and> finite B \<and> int (card B) \<le> MAXOPBLOCKS) \<and>
     lh_n s + reserved ops \<le> int LOGSIZE)"

lemma reserved_upd:
  assumes "finite (dom ops)" "ops t = Some B"
  shows "reserved (ops(t \<mapsto> C)) = reserved ops + int (card B) - int (card C)"
proof -
  have d: "dom (ops(t \<mapsto> C)) = dom ops" using assms(2) by auto
  have t: "t \<in> dom ops" using assms(2) by auto
  have "reserved (ops(t \<mapsto> C)) = (MAXOPBLOCKS - int (card C)) +
      (\<Sum>u \<in> dom ops - {t}. MAXOPBLOCKS - int (card (the (ops u))))"
    unfolding reserved_def d by (subst sum.remove[OF assms(1) t]) simp
  moreover have "reserved ops = (MAXOPBLOCKS - int (card B)) +
      (\<Sum>u \<in> dom ops - {t}. MAXOPBLOCKS - int (card (the (ops u))))"
    unfolding reserved_def using assms(2) by (subst sum.remove[OF assms(1) t]) simp
  ultimately show ?thesis by simp
qed

lemma reserved_begin:
  assumes "finite (dom ops)" "ops t = None"
  shows "reserved (ops(t \<mapsto> {})) = reserved ops + MAXOPBLOCKS"
proof -
  have "t \<notin> dom ops" using assms(2) by auto
  then have "(\<Sum>u \<in> dom ops. MAXOPBLOCKS - int (card (the ((ops(t \<mapsto> {})) u)))) = reserved ops"
    unfolding reserved_def by (intro sum.cong) auto
  then show ?thesis using assms \<open>t \<notin> dom ops\<close> by (simp add: reserved_def)
qed

lemma reserved_end:
  assumes "finite (dom ops)" "ops t = Some B"
  shows "reserved (ops(t := None)) = reserved ops - (MAXOPBLOCKS - int (card B))"
proof -
  have t: "t \<in> dom ops" using assms(2) by auto
  have "reserved (ops(t := None)) = (\<Sum>u \<in> dom ops - {t}. MAXOPBLOCKS - int (card (the (ops u))))"
    unfolding reserved_def by (rule sum.cong) auto
  also have "\<dots> = reserved ops - (MAXOPBLOCKS - int (card B))"
    unfolding reserved_def using assms(2) by (subst sum.remove[OF assms(1) t]) simp
  finally show ?thesis .
qed

lemma reserved_le:
  assumes "finite (dom ops)"
  shows "reserved ops \<le> int (card (dom ops)) * MAXOPBLOCKS"
  unfolding reserved_def using sum_bounded_above[of "dom ops" _ MAXOPBLOCKS] by auto

lemma reserved_member:
  assumes "finite (dom ops)" "ops t = Some B" "\<And>u C. ops u = Some C \<Longrightarrow> int (card C) \<le> MAXOPBLOCKS"
  shows "MAXOPBLOCKS - int (card B) \<le> reserved ops"
proof -
  have "0 \<le> (\<Sum>u \<in> dom ops - {t}. MAXOPBLOCKS - int (card (the (ops u))))"
    by (rule sum_nonneg) (use assms(3) in auto)
  moreover have "reserved ops = (MAXOPBLOCKS - int (card B)) +
      (\<Sum>u \<in> dom ops - {t}. MAXOPBLOCKS - int (card (the (ops u))))"
    unfolding reserved_def using assms(1,2) by (subst sum.remove[of _ t]) auto
  ultimately show ?thesis by simp
qed

text \<open>What the log calls do to the log's own fields.\<close>

lemma commit_fields:
  assumes "commit s = Inr (u, s')" "0 \<le> lh_n s"
  shows "lh_n s' = 0" "outstanding s' = outstanding s" "committing s' = committing s"
    "lh_block s' = lh_block s" "log_size s' = log_size s"
proof -
  have "lh_n s' = 0 \<and> outstanding s' = outstanding s \<and> committing s' = committing s \<and>
    lh_block s' = lh_block s \<and> log_size s' = log_size s"
  proof (cases "lh_n s > 0")
    case True
    then obtain s1 s2 s3 where st: "write_log s = Inr ((), s1)" "write_head s1 = Inr ((), s2)"
      "install_trans s2 = Inr ((), s3)" "write_head (s3\<lparr>lh_n := 0\<rparr>) = Inr (u, s')"
      using assms(1) by (auto simp: commit_def run_simps elim!: bnd_InrE)
    note k = keepsD[OF keeps_write_log st(1)] keepsD[OF keeps_write_head st(2)]
      keepsD[OF keeps_install_trans st(3)] keepsD[OF keeps_write_head st(4)]
    show ?thesis
      using k(1,2,3)[THEN log_fields_more(2)] k(1,2,3)[THEN log_fields_more(3)]
        k(1,2,3)[THEN log_fields_more(4)] k(1,2,3)[THEN log_fields_more(5)] log_fields_more[OF k(4)]
      by simp
  next
    case False
    with assms show ?thesis by (auto simp: commit_def run_simps elim!: bnd_InrE)
  qed
  then show "lh_n s' = 0" "outstanding s' = outstanding s" "committing s' = committing s"
    "lh_block s' = lh_block s" "log_size s' = log_size s" by auto
qed

lemma wakeup1_log_fields [simp]:
  "lh_n (wakeup1 c s) = lh_n s" "outstanding (wakeup1 c s) = outstanding s"
  "committing (wakeup1 c s) = committing s" "lh_block (wakeup1 c s) = lh_block s"
  "log_size (wakeup1 c s) = log_size s"
  by (simp_all add: wakeup1_def)

lemma end_op_fields:
  assumes "end_op s = Inr (u, s')" "0 \<le> lh_n s" "\<not> committing s"
  shows "lh_n s' = (if outstanding s = 1 then 0 else lh_n s)" "outstanding s' = outstanding s - 1"
    "\<not> committing s'" "lh_block s' = lh_block s" "log_size s' = log_size s"
proof -
  let ?s1 = "s\<lparr>outstanding := outstanding s - 1\<rparr>"
  have "lh_n s' = (if outstanding s = 1 then 0 else lh_n s) \<and> outstanding s' = outstanding s - 1 \<and>
    \<not> committing s' \<and> lh_block s' = lh_block s \<and> log_size s' = log_size s"
  proof (cases "outstanding s = 1")
    case True
    then obtain s2 where "commit (?s1\<lparr>committing := True\<rparr>) = Inr ((), s2)"
      "s' = wakeup1 ChanLog (s2\<lparr>committing := False\<rparr>)"
      using assms by (auto simp: end_op_def run_simps wakeup_def elim!: bnd_InrE)
    with commit_fields[OF this(1)] assms(2) True show ?thesis by simp
  next
    case False
    then have "s' = wakeup1 ChanLog ?s1"
      using assms by (auto simp: end_op_def run_simps wakeup_def elim!: bnd_InrE)
    with False assms(3) show ?thesis by simp
  qed
  then show "lh_n s' = (if outstanding s = 1 then 0 else lh_n s)" "outstanding s' = outstanding s - 1"
    "\<not> committing s'" "lh_block s' = lh_block s" "log_size s' = log_size s" by auto
qed

abbreviation in_log :: "'a log_scheme \<Rightarrow> uint set" where
  "in_log s \<equiv> set (take (nat (lh_n s)) (lh_block s))"

text \<open>The slot of the header \<open>log_write\<close> stores block \<open>bn\<close> in, and the header after it.\<close>

definition absorb_slot :: "uint \<Rightarrow> 'a log_scheme \<Rightarrow> nat" where
  "absorb_slot bn s =
     (case find_idx (\<lambda>x. x = bn) (take (nat (lh_n s)) (lh_block s)) of Some i \<Rightarrow> i | None \<Rightarrow> nat (lh_n s))"

lemma log_write_run:
  assumes "log_write b s = Inr (u, s')"
  shows "lh_n s < int LOGSIZE"
    and "s' = buf_upd b (\<lambda>x. x\<lparr>b_dirty := True\<rparr>)
      (s\<lparr>lh_block := (lh_block s)[absorb_slot (b_blockno (bufs s ! b)) s := b_blockno (bufs s ! b)],
         lh_n := (if absorb_slot (b_blockno (bufs s ! b)) s = nat (lh_n s) then lh_n s + 1 else lh_n s)\<rparr>)"
  using assms by (auto simp: log_write_def bnd_def run_simps absorb_slot_def Let_def split: if_splits)

lemma header_add:
  assumes "0 \<le> lh_n s" "lh_n s < int LOGSIZE" "length (lh_block s) = LOGSIZE"
  shows "(absorb_slot bn s = nat (lh_n s)) = (bn \<notin> in_log s)"
    and "set (take (nat (if absorb_slot bn s = nat (lh_n s) then lh_n s + 1 else lh_n s))
           ((lh_block s)[absorb_slot bn s := bn])) = insert bn (in_log s)"
proof -
  let ?n = "nat (lh_n s)"
  have n: "?n < length (lh_block s)" "nat (lh_n s + 1) = Suc ?n" using assms by auto
  have "(absorb_slot bn s = ?n) = (bn \<notin> in_log s) \<and>
    set (take (nat (if absorb_slot bn s = ?n then lh_n s + 1 else lh_n s))
      ((lh_block s)[absorb_slot bn s := bn])) = insert bn (in_log s)"
  proof (cases "find_idx (\<lambda>x. x = bn) (take ?n (lh_block s))")
    case None
    then have "absorb_slot bn s = ?n" by (simp add: absorb_slot_def)
    moreover have "bn \<notin> in_log s" using None by (auto simp: find_idx_None_iff)
    ultimately show ?thesis using n by (simp add: take_Suc_conv_app_nth)
  next
    case (Some i)
    then have a: "absorb_slot bn s = i" by (simp add: absorb_slot_def)
    have i: "i < ?n" "lh_block s ! i = bn" using Some n by (auto simp: find_idx_Some_iff)
    then have "bn \<in> in_log s" using n by (auto simp: in_set_conv_nth)
    moreover have "(lh_block s)[i := bn] = lh_block s" using i by (metis list_update_id)
    ultimately show ?thesis using i a by auto
  qed
  then show "(absorb_slot bn s = ?n) = (bn \<notin> in_log s)"
    "set (take (nat (if absorb_slot bn s = ?n then lh_n s + 1 else lh_n s))
      ((lh_block s)[absorb_slot bn s := bn])) = insert bn (in_log s)" by blast+
qed

lemma log_write_fields:
  assumes "log_write b s = Inr (u, s')" "0 \<le> lh_n s" "length (lh_block s) = LOGSIZE"
    "bn = b_blockno (bufs s ! b)"
  shows "lh_n s' = (if bn \<in> in_log s then lh_n s else lh_n s + 1)" "in_log s' = insert bn (in_log s)"
    "length (lh_block s') = LOGSIZE" "outstanding s' = outstanding s" "committing s' = committing s"
    "log_size s' = log_size s"
  unfolding log_write_run(2)[OF assms(1)] assms(4)[symmetric]
  using header_add[OF assms(2) log_write_run(1)[OF assms(1)] assms(3), of bn] assms(3)
  by (simp_all only: log_fields_sel_all) simp_all

lemma adm_inv_step:
  assumes "adm_inv c" "log_step c c'"
  shows "adm_inv c'"
  using assms(2,1)
proof (cases rule: log_step.cases)
  case (op_begin ops t s s')
  then have s': "s' = s\<lparr>outstanding := outstanding s + 1\<rparr>"
    "lh_n s + (outstanding s + 1) * MAXOPBLOCKS \<le> int LOGSIZE"
    by (auto simp: begin_op_def split: if_splits)
  have inv: "finite (dom ops)" "outstanding s = int (card (dom ops))"
    using assms(1) op_begin by (auto simp: adm_inv_def)
  have "t \<notin> dom ops" using op_begin by auto
  moreover have "lh_n s + (reserved ops + MAXOPBLOCKS) \<le> int LOGSIZE"
    using s'(2) reserved_le[OF inv(1)] inv(2) by (simp add: distrib_right)
  ultimately show ?thesis
    using assms(1) op_begin reserved_begin[OF inv(1), of t] s'(1)
    by (auto simp: adm_inv_def MAXOPBLOCKS_def)
next
  case (op_write ops t B bn s b s')
  have inv: "finite (dom ops)" "0 \<le> lh_n s" "length (lh_block s) = LOGSIZE" "B \<subseteq> in_log s" "finite B"
    "lh_n s + reserved ops \<le> int LOGSIZE"
    using assms(1) op_write by (auto simp: adm_inv_def)
  note f = log_write_fields[OF op_write(6) inv(2,3) op_write(4)]
  have d: "dom (ops(t \<mapsto> insert bn B)) = dom ops" using op_write by auto
  have "lh_n s' + reserved (ops(t \<mapsto> insert bn B)) \<le> int LOGSIZE"
    using f(1) inv reserved_upd[OF inv(1) op_write(3), of "insert bn B"]
    by (cases "bn \<in> B") (auto simp: card_insert_if)
  moreover have "\<forall>u C. (ops(t \<mapsto> insert bn B)) u = Some C \<longrightarrow>
      C \<subseteq> in_log s' \<and> finite C \<and> int (card C) \<le> MAXOPBLOCKS"
    using assms(1) op_write f(2) inv(4,5) unfolding adm_inv_def by auto
  ultimately show ?thesis
    using assms(1) op_write f d by (auto simp: adm_inv_def)
next
  case (op_end ops t B s s')
  have inv: "finite (dom ops)" "0 \<le> lh_n s" "\<not> committing s" "outstanding s = int (card (dom ops))"
    "lh_n s + reserved ops \<le> int LOGSIZE" "int (card B) \<le> MAXOPBLOCKS"
    using assms(1) op_end by (auto simp: adm_inv_def)
  note f = end_op_fields[OF op_end(4) inv(2,3)]
  have t: "t \<in> dom ops" using op_end by auto
  have c: "int (card (dom (ops(t := None)))) = outstanding s - 1"
    using inv(1,4) t card_gt_0_iff[of "dom ops"] by (auto simp: card_Diff_singleton)
  show ?thesis
  proof (cases "outstanding s = 1")
    case True
    then have "dom (ops(t := None)) = {}" using c inv(1) by simp
    then have "ops(t := None) = Map.empty" by (simp only: dom_eq_empty_conv)
    then show ?thesis using assms(1) op_end f c True by (auto simp: adm_inv_def reserved_def LOGSIZE_def)
  next
    case False
    have "lh_n s + reserved (ops(t := None)) \<le> int LOGSIZE"
      using reserved_end[OF inv(1) op_end(3)] inv(5,6) by linarith
    then show ?thesis using assms(1) op_end f c False by (auto simp: adm_inv_def split: if_splits)
  qed
next
  case (op_other s' s ops)
  then show ?thesis using assms(1) log_fields_more[OF op_other(3)] by (simp add: adm_inv_def)
qed

subsection \<open>Properties\<close>

definition log_reach :: "'a log_scheme \<Rightarrow> 'a log_scheme \<times> ops \<Rightarrow> bool" where
  "log_reach s0 c \<longleftrightarrow> log_step\<^sup>*\<^sup>* (s0, Map.empty) c"

text \<open>An idle log: no operation runs and nothing is logged.\<close>

definition log_idle :: "'a log_scheme \<Rightarrow> bool" where
  "log_idle s \<longleftrightarrow> outstanding s = 0 \<and> \<not> committing s \<and> lh_n s = 0 \<and> length (lh_block s) = LOGSIZE"

lemma adm_inv_reach:
  assumes "log_idle s0" "log_reach s0 c"
  shows "adm_inv c"
  using assms(2)[unfolded log_reach_def]
proof (induction rule: rtranclp_induct)
  case base
  then show ?case using assms(1) by (simp add: adm_inv_def log_idle_def reserved_def)
next
  case (step c c')
  then show ?case using adm_inv_step by blast
qed

lemma log_write_returns:
  assumes "lh_n s < int LOGSIZE" "lh_n s < log_size s - 1" "1 \<le> outstanding s"
  shows "\<exists>s'. log_write b s = Inr ((), s')"
  using assms by (simp add: log_write_def bnd_def run_simps Let_def)


subsection \<open>A log one block too small\<close>

text \<open>The operations after \<open>k\<close> writes: three of them, each writing ten blocks of its own in turn.\<close>

definition ops_at :: "nat \<Rightarrow> ops" where
  "ops_at k t = (if t < 3 then Some ((\<lambda>j. 100 + of_nat j) ` {j. j < k \<and> j div 10 = t}) else None)"

lemma of_nat_inj_small: "j < 30 \<Longrightarrow> j' < 30 \<Longrightarrow> (of_nat j = (of_nat j' :: uint)) = (j = j')"
  by (auto dest!: arg_cong[where f = unat] simp: unat_of_nat)

lemma ops_at_Suc: "k div 10 < 3 \<Longrightarrow> ops_at (Suc k) = (ops_at k)(k div 10 \<mapsto> insert (100 + of_nat k) (the (ops_at k (k div 10))))"
  by (rule ext) (auto simp: ops_at_def less_Suc_eq)

lemma ops_at_card:
  assumes "k < 30"
  shows "card (the (ops_at k (k div 10))) = k mod 10" "card (the (ops_at (Suc k) (k div 10))) = Suc (k mod 10)"
proof -
  have same: "(j div 10 = k div 10) = (10 * (k div 10) \<le> j)" if "j \<le> k" for j
    using div_le_mono[OF that, of 10] by (auto simp: less_eq_div_iff_mult_less_eq mult.commute intro!: antisym)
  have set: "{j. j < m \<and> j div 10 = k div 10} = {10 * (k div 10)..<m}" if "m \<le> Suc k" for m
    using that same by auto
  have inj: "inj_on (\<lambda>j. 100 + of_nat j :: uint) {10 * (k div 10)..<m}" if "m \<le> 30" for m
    using that by (auto simp: inj_on_def of_nat_inj_small)
  have "k div 10 < 3" using assms by simp
  then show "card (the (ops_at k (k div 10))) = k mod 10" "card (the (ops_at (Suc k) (k div 10))) = Suc (k mod 10)"
    using assms by (simp_all add: ops_at_def set card_image inj minus_mult_div_eq_mod Suc_diff_le)
qed

lemma three_begins:
  assumes "log_idle s"
  shows "\<exists>s'. log_reach s (s', ops_at 0) \<and> lh_n s' = 0 \<and> length (lh_block s') = LOGSIZE \<and>
    outstanding s' = 3 \<and> log_size s' = log_size s"
proof -
  let ?s = "\<lambda>n. s\<lparr>outstanding := n\<rparr>"
  have st: "log_step (?s n, ops) (?s (n + 1), ops(t \<mapsto> {}))" if "0 \<le> n" "n \<le> 2" "ops t = None" for n ops t
    using that assms by (intro op_begin) (simp_all add: begin_op_def log_idle_def MAXOPBLOCKS_def LOGSIZE_def)
  have s0: "?s 0 = s" using assms by (simp add: log_idle_def)
  have "log_step (s, Map.empty) (?s 1, [0 \<mapsto> {}])" using st[of 0 Map.empty 0] by (simp add: s0)
  moreover have "log_step (?s 1, [0 \<mapsto> {}]) (?s 2, [0 \<mapsto> {}, 1 \<mapsto> {}])" using st[of 1 "[0 \<mapsto> {}]" 1] by simp
  moreover have "log_step (?s 2, [0 \<mapsto> {}, 1 \<mapsto> {}]) (?s 3, [0 \<mapsto> {}, 1 \<mapsto> {}, 2 \<mapsto> {}])"
    using st[of 2 "[0 \<mapsto> {}, 1 \<mapsto> {}]" 2] by simp
  moreover have "[0 \<mapsto> {}, 1 \<mapsto> {}, 2 \<mapsto> {}] = ops_at 0" by (rule ext) (auto simp: ops_at_def)
  ultimately have "log_reach s (?s 3, ops_at 0)"
    unfolding log_reach_def by (simp add: converse_rtranclp_into_rtranclp)
  then show ?thesis using assms by (intro exI[of _ "?s 3"]) (simp add: log_idle_def)
qed

lemma one_write:
  assumes "log_reach s0 (s, ops)" "ops t = Some B" "int (card (insert bn B)) \<le> MAXOPBLOCKS"
    "bn \<notin> in_log s" "0 \<le> lh_n s" "lh_n s < int LOGSIZE" "lh_n s < log_size s - 1" "1 \<le> outstanding s"
    "length (lh_block s) = LOGSIZE"
  shows "\<exists>s'. log_reach s0 (s', ops(t \<mapsto> insert bn B)) \<and> lh_n s' = lh_n s + 1 \<and>
    in_log s' = insert bn (in_log s) \<and> length (lh_block s') = LOGSIZE \<and>
    outstanding s' = outstanding s \<and> log_size s' = log_size s"
proof -
  let ?s1 = "s\<lparr>bufs := [(bufs s ! 0)\<lparr>b_blockno := bn\<rparr>]\<rparr>"
  obtain s' where w: "log_write 0 ?s1 = Inr ((), s')" using log_write_returns[of ?s1 0] assms by auto
  have "log_step (s, ops) (?s1, ops)" by (rule op_other) simp
  moreover have "log_step (?s1, ops) (s', ops(t \<mapsto> insert bn B))"
    by (rule op_write[where B = B and bn = bn and b = 0]) (use assms w in simp_all)
  ultimately have "log_reach s0 (s', ops(t \<mapsto> insert bn B))"
    using assms(1) unfolding log_reach_def by (meson rtranclp.rtrancl_into_rtrancl)
  moreover note log_write_fields[OF w, of bn]
  ultimately show ?thesis using assms by (intro exI[of _ s']) simp
qed

lemma fill_log:
  assumes "log_idle s0" "log_size s0 = int LOGSIZE" "k \<le> 29"
  shows "\<exists>s. log_reach s0 (s, ops_at k) \<and> lh_n s = int k \<and> in_log s = (\<lambda>j. 100 + of_nat j) ` {..<k} \<and>
    length (lh_block s) = LOGSIZE \<and> outstanding s = 3 \<and> log_size s = int LOGSIZE"
  using assms(3)
proof (induction k)
  case 0
  then show ?case using three_begins[OF assms(1)] assms(2) by auto
next
  case (Suc k)
  then obtain s where s: "log_reach s0 (s, ops_at k)" "lh_n s = int k"
    "in_log s = (\<lambda>j. 100 + of_nat j) ` {..<k}" "length (lh_block s) = LOGSIZE" "outstanding s = 3"
    "log_size s = int LOGSIZE" by auto
  let ?t = "k div 10" and ?bn = "100 + of_nat k :: uint"
  have t: "?t < 3" "ops_at k ?t = Some (the (ops_at k ?t))" using Suc.prems by (auto simp: ops_at_def)
  have "?bn \<notin> in_log s" using s(3) Suc.prems by (auto simp: of_nat_inj_small)
  moreover have "int (card (insert ?bn (the (ops_at k ?t)))) \<le> MAXOPBLOCKS"
    using ops_at_card(2)[of k] ops_at_Suc[OF t(1)] Suc.prems by (simp add: MAXOPBLOCKS_def)
  ultimately obtain s' where
    s': "log_reach s0 (s', (ops_at k)(?t \<mapsto> insert ?bn (the (ops_at k ?t))))" "lh_n s' = lh_n s + 1"
    "in_log s' = insert ?bn (in_log s)" "length (lh_block s') = LOGSIZE"
    "outstanding s' = outstanding s" "log_size s' = log_size s"
    using one_write[OF s(1) t(2), of ?bn] s Suc.prems by (auto simp: LOGSIZE_def)
  have "log_reach s0 (s', ops_at (Suc k))" unfolding ops_at_Suc[OF t(1)] by (rule s'(1))
  then show ?case using s s' by (intro exI[of _ s']) (simp add: lessThan_Suc)
qed




end
