(* ===== verification/Namecache.thy ===== *)
theory Namecache
  imports CString
begin

text \<open>
  The directory name cache of \<^verbatim>\<open>namecache.c\<close>: a table of \<open>NAMECACHE_SIZE\<close> entries
  (device, parent inode, name) to inode number, filled round-robin. Each function of
  the file is one definition on the record \<open>namecache\<close>; the spin lock makes each one
  an atomic step. The table is shown to implement a bounded map, and an interface
  locale states what a client may rely on: the cache never invents an entry.
\<close>

subsection \<open>State\<close>

definition DIRSIZ :: nat where "DIRSIZ = 14"
definition NAMECACHE_SIZE :: nat where "NAMECACHE_SIZE = 32"

record namecache_entry =
  nce_valid :: bool
  nce_dev :: uint
  nce_parent :: uint
  nce_name :: "byte list"
  nce_inum :: uint
  nce_hits :: uint

record namecache =
  nc_entries :: "namecache_entry list"
  nc_next_slot :: nat
  nc_total_lookups :: uint
  nc_cache_hits :: uint
  nc_cache_misses :: uint

subsection \<open>Operations\<close>

definition namecache_init :: "namecache \<Rightarrow> namecache" where
  "namecache_init nc =
     \<lparr>nc_entries = map (\<lambda>e. e\<lparr>nce_valid := False, nce_hits := 0\<rparr>) (nc_entries nc),
      nc_next_slot = 0, nc_total_lookups = 0, nc_cache_hits = 0, nc_cache_misses = 0\<rparr>"

text \<open>The test both search loops make on an entry.\<close>

definition nc_match :: "uint \<Rightarrow> uint \<Rightarrow> byte list \<Rightarrow> namecache_entry \<Rightarrow> bool" where
  "nc_match dev parent name e \<longleftrightarrow>
     nce_valid e \<and> nce_dev e = dev \<and> nce_parent e = parent \<and> strncmp (nce_name e) name DIRSIZ = 0"

definition namecache_lookup ::
    "uint \<Rightarrow> uint \<Rightarrow> byte list \<Rightarrow> namecache \<Rightarrow> uint \<times> namecache" where
  "namecache_lookup dev parent name nc =
     (let nc = nc\<lparr>nc_total_lookups := nc_total_lookups nc + 1\<rparr>
      in case find_idx (nc_match dev parent name) (nc_entries nc) of
           Some i \<Rightarrow>
             let e = nc_entries nc ! i
             in (nce_inum e,
                 nc\<lparr>nc_entries := (nc_entries nc)[i := e\<lparr>nce_hits := nce_hits e + 1\<rparr>],
                    nc_cache_hits := nc_cache_hits nc + 1\<rparr>)
         | None \<Rightarrow> (0, nc\<lparr>nc_cache_misses := nc_cache_misses nc + 1\<rparr>))"

definition namecache_add ::
    "uint \<Rightarrow> uint \<Rightarrow> byte list \<Rightarrow> uint \<Rightarrow> namecache \<Rightarrow> namecache" where
  "namecache_add dev parent name inum nc =
     (case find_idx (nc_match dev parent name) (nc_entries nc) of
        Some i \<Rightarrow>
          nc\<lparr>nc_entries := (nc_entries nc)[i := (nc_entries nc ! i)\<lparr>nce_inum := inum\<rparr>]\<rparr>
      | None \<Rightarrow>
          let i = nc_next_slot nc; e = nc_entries nc ! i
          in nc\<lparr>nc_entries := (nc_entries nc)
                  [i := \<lparr>nce_valid = True, nce_dev = dev, nce_parent = parent,
                         nce_name = strncpy (nce_name e) name DIRSIZ,
                         nce_inum = inum, nce_hits = 0\<rparr>],
                nc_next_slot := (i + 1) mod NAMECACHE_SIZE\<rparr>)"

definition namecache_invalidate :: "uint \<Rightarrow> uint \<Rightarrow> namecache \<Rightarrow> namecache" where
  "namecache_invalidate dev inum nc =
     nc\<lparr>nc_entries := map
          (\<lambda>e. if nce_valid e \<and> nce_dev e = dev
               then (if nce_inum e = inum \<or> nce_parent e = inum then e\<lparr>nce_valid := False\<rparr> else e)
               else e) (nc_entries nc)\<rparr>"

definition namecache_clear :: "namecache \<Rightarrow> namecache" where
  "namecache_clear nc =
     nc\<lparr>nc_entries := map (\<lambda>e. e\<lparr>nce_valid := False\<rparr>) (nc_entries nc), nc_next_slot := 0\<rparr>"

text \<open>
  \<open>namecache_stats\<close> prints the counters, the hit rate when there was a lookup, and one
  line per active entry (slot, parent, name, inode number, hits): the printed values.
\<close>

record namecache_report =
  rep_lookups :: uint
  rep_hits :: uint
  rep_misses :: uint
  rep_hit_rate :: "uint option"
  rep_active :: "(nat \<times> uint \<times> byte list \<times> uint \<times> uint) list"

definition namecache_stats :: "namecache \<Rightarrow> namecache_report" where
  "namecache_stats nc =
     \<lparr>rep_lookups = nc_total_lookups nc, rep_hits = nc_cache_hits nc,
      rep_misses = nc_cache_misses nc,
      rep_hit_rate = (if nc_total_lookups nc > 0
                      then Some ((nc_cache_hits nc * 100) div nc_total_lookups nc) else None),
      rep_active = map (\<lambda>(i, e). (i, nce_parent e, nce_name e, nce_inum e, nce_hits e))
                     (filter (\<lambda>(i, e). nce_valid e) (enumerate 0 (nc_entries nc)))\<rparr>"

subsection \<open>Invariant and abstraction\<close>

text \<open>The part of a name the cache, like the directory code, distinguishes.\<close>

definition dirname :: "byte list \<Rightarrow> byte list" where
  "dirname name = take DIRSIZ (cstr name)"

type_synonym nc_key = "uint \<times> uint \<times> byte list"

definition nce_key :: "namecache_entry \<Rightarrow> nc_key" where
  "nce_key e = (nce_dev e, nce_parent e, dirname (nce_name e))"

text \<open>
  Well-formed: the table has its size, the next slot is one of its slots, every name
  field has its length, no two valid entries have the same key, and every lookup was
  counted as a hit or a miss.
\<close>

definition nc_inv :: "namecache \<Rightarrow> bool" where
  "nc_inv nc \<longleftrightarrow> length (nc_entries nc) = NAMECACHE_SIZE \<and> nc_next_slot nc < NAMECACHE_SIZE \<and>
     (\<forall>e \<in> set (nc_entries nc). length (nce_name e) = DIRSIZ) \<and>
     (\<forall>i < NAMECACHE_SIZE. \<forall>j < NAMECACHE_SIZE.
        nce_valid (nc_entries nc ! i) \<and> nce_valid (nc_entries nc ! j) \<and>
        nce_key (nc_entries nc ! i) = nce_key (nc_entries nc ! j) \<longrightarrow> i = j) \<and>
     nc_total_lookups nc = nc_cache_hits nc + nc_cache_misses nc"

definition nc_abs :: "namecache \<Rightarrow> nc_key \<Rightarrow> uint option" where
  "nc_abs nc k = map_option (\<lambda>i. nce_inum (nc_entries nc ! i))
     (find_idx (\<lambda>e. nce_valid e \<and> nce_key e = k) (nc_entries nc))"

lemma nc_match_key:
  "nc_match dev parent name e \<longleftrightarrow> nce_valid e \<and> nce_key e = (dev, parent, dirname name)"
  by (auto simp: nc_match_def nce_key_def dirname_def strncmp_zero_iff)

lemma nc_match_fun: "nc_match dev parent name = (\<lambda>e. nce_valid e \<and> nce_key e = (dev, parent, dirname name))"
  by (rule ext) (rule nc_match_key)

lemma nc_invD:
  assumes "nc_inv nc"
  shows "length (nc_entries nc) = NAMECACHE_SIZE" "nc_next_slot nc < NAMECACHE_SIZE"
    "\<And>i. i < NAMECACHE_SIZE \<Longrightarrow> length (nce_name (nc_entries nc ! i)) = DIRSIZ"
    "\<And>i j. i < NAMECACHE_SIZE \<Longrightarrow> j < NAMECACHE_SIZE \<Longrightarrow>
      nce_valid (nc_entries nc ! i) \<Longrightarrow> nce_valid (nc_entries nc ! j) \<Longrightarrow>
      nce_key (nc_entries nc ! i) = nce_key (nc_entries nc ! j) \<Longrightarrow> i = j"
  using assms by (auto simp: nc_inv_def)

lemma nc_abs_Some_iff:
  assumes "nc_inv nc"
  shows "nc_abs nc k = Some v \<longleftrightarrow>
    (\<exists>i < NAMECACHE_SIZE. nce_valid (nc_entries nc ! i) \<and> nce_key (nc_entries nc ! i) = k \<and>
       nce_inum (nc_entries nc ! i) = v)"
  (is "_ \<longleftrightarrow> ?R")
proof
  assume "nc_abs nc k = Some v"
  then show ?R using nc_invD(1)[OF assms]
    by (auto simp: nc_abs_def find_idx_Some_iff)
next
  assume ?R
  then obtain i where i: "i < NAMECACHE_SIZE" "nce_valid (nc_entries nc ! i)"
    "nce_key (nc_entries nc ! i) = k" "nce_inum (nc_entries nc ! i) = v" by blast
  then have "find_idx (\<lambda>e. nce_valid e \<and> nce_key e = k) (nc_entries nc) = Some i"
    using nc_invD[OF assms] by (intro find_idx_unique) auto
  with i show "nc_abs nc k = Some v" by (simp add: nc_abs_def)
qed

lemma nc_abs_None_iff:
  assumes "nc_inv nc"
  shows "nc_abs nc k = None \<longleftrightarrow>
    (\<forall>i < NAMECACHE_SIZE. nce_valid (nc_entries nc ! i) \<longrightarrow> nce_key (nc_entries nc ! i) \<noteq> k)"
  using nc_abs_Some_iff[OF assms, of k] by (cases "nc_abs nc k") auto


subsection \<open>Updating one slot\<close>

text \<open>Two tables whose valid entries agree slot by slot denote the same map.\<close>

lemma nc_abs_cong:
  assumes "length (nc_entries nc) = length (nc_entries nc')"
    and "\<And>i. i < length (nc_entries nc) \<Longrightarrow>
      nce_valid (nc_entries nc ! i) = nce_valid (nc_entries nc' ! i) \<and>
      nce_key (nc_entries nc ! i) = nce_key (nc_entries nc' ! i) \<and>
      nce_inum (nc_entries nc ! i) = nce_inum (nc_entries nc' ! i)"
  shows "nc_abs nc = nc_abs nc'"
proof
  fix k
  have "find_idx (\<lambda>e. nce_valid e \<and> nce_key e = k) (nc_entries nc) =
      find_idx (\<lambda>e. nce_valid e \<and> nce_key e = k) (nc_entries nc')"
    using assms by (intro find_idx_cong) auto
  moreover have "nce_inum (nc_entries nc ! i) = nce_inum (nc_entries nc' ! i)"
    if "find_idx (\<lambda>e. nce_valid e \<and> nce_key e = k) (nc_entries nc') = Some i" for i
    using that assms by (auto dest: find_idx_Some_less)
  ultimately show "nc_abs nc k = nc_abs nc' k"
    by (cases "find_idx (\<lambda>e. nce_valid e \<and> nce_key e = k) (nc_entries nc')")
      (auto simp: nc_abs_def)
qed

lemma nc_inv_hit:
  assumes "nc_inv nc" "i < NAMECACHE_SIZE"
    and "nce_valid e = nce_valid (nc_entries nc ! i)" "nce_key e = nce_key (nc_entries nc ! i)"
    and "length (nce_name e) = DIRSIZ"
  shows "nc_inv (nc\<lparr>nc_entries := (nc_entries nc)[i := e]\<rparr>)"
proof -
  have "length (nce_name x) = DIRSIZ" if "x \<in> set ((nc_entries nc)[i := e])" for x
    using that assms(1,5) by (auto simp: nc_inv_def dest!: set_update_subset_insert[THEN subsetD])
  moreover have "nce_valid ((nc_entries nc)[i := e] ! j) = nce_valid (nc_entries nc ! j)"
    "nce_key ((nc_entries nc)[i := e] ! j) = nce_key (nc_entries nc ! j)" if "j < NAMECACHE_SIZE" for j
    using that assms(2,3,4) nc_invD(1)[OF assms(1)] by (auto simp: nth_list_update)
  ultimately show ?thesis using assms(1) by (auto simp: nc_inv_def)
qed

lemma nc_inv_counters:
  "nc_inv nc \<Longrightarrow> nc_inv (nc\<lparr>nc_total_lookups := nc_total_lookups nc + 1,
      nc_cache_hits := nc_cache_hits nc + 1\<rparr>)"
  "nc_inv nc \<Longrightarrow> nc_inv (nc\<lparr>nc_total_lookups := nc_total_lookups nc + 1,
      nc_cache_misses := nc_cache_misses nc + 1\<rparr>)"
  by (simp_all add: nc_inv_def)

lemma nc_abs_counters [simp]:
  "nc_abs (nc\<lparr>nc_total_lookups := a\<rparr>) = nc_abs nc"
  "nc_abs (nc\<lparr>nc_cache_hits := b\<rparr>) = nc_abs nc"
  "nc_abs (nc\<lparr>nc_cache_misses := c\<rparr>) = nc_abs nc"
  by (rule nc_abs_cong; simp)+

lemma namecache_lookup_hit:
  assumes "nc_inv nc" "find_idx (nc_match dev parent name) (nc_entries nc) = Some i"
  shows "nc_abs nc (dev, parent, dirname name) = Some (nce_inum (nc_entries nc ! i))"
    "i < NAMECACHE_SIZE"
  using assms nc_invD(1)[OF assms(1)]
  by (auto simp: nc_abs_def nc_match_fun dest: find_idx_Some_less)

subsection \<open>The cache is a bounded map\<close>

lemma namecache_lookup_spec:
  assumes "nc_inv nc" "namecache_lookup dev parent name nc = (r, nc')"
  shows "r = (case nc_abs nc (dev, parent, dirname name) of None \<Rightarrow> 0 | Some v \<Rightarrow> v) \<and>
    nc_abs nc' = nc_abs nc \<and> nc_inv nc'"
proof (cases "find_idx (nc_match dev parent name) (nc_entries nc)")
  case None
  then show ?thesis using assms nc_inv_counters(2)[OF assms(1)]
    by (auto simp: namecache_lookup_def Let_def nc_abs_def nc_match_fun)
next
  case (Some i)
  let ?e = "(nc_entries nc ! i)\<lparr>nce_hits := nce_hits (nc_entries nc ! i) + 1\<rparr>"
  have key: "nce_key ?e = nce_key (nc_entries nc ! i)" by (simp add: nce_key_def)
  note hit = namecache_lookup_hit[OF assms(1) Some]
  have "nc_inv (nc\<lparr>nc_entries := (nc_entries nc)[i := ?e]\<rparr>)"
    using nc_invD(3)[OF assms(1) hit(2)] key by (intro nc_inv_hit[OF assms(1) hit(2)]) auto
  note inv = nc_inv_counters(1)[OF this]
  have abs: "nc_abs (nc\<lparr>nc_entries := (nc_entries nc)[i := ?e]\<rparr>) = nc_abs nc"
    using key hit(2) nc_invD(1)[OF assms(1)] by (intro nc_abs_cong) (auto simp: nth_list_update)
  have "nc' = nc\<lparr>nc_entries := (nc_entries nc)[i := ?e],
      nc_total_lookups := nc_total_lookups nc + 1, nc_cache_hits := nc_cache_hits nc + 1\<rparr>"
    "r = nce_inum (nc_entries nc ! i)"
    using assms(2) Some by (auto simp: namecache_lookup_def Let_def)
  with inv abs hit(1) show ?thesis by simp
qed


text \<open>The key a new entry pushes out: the one in the slot whose turn it is.\<close>

definition nc_evict :: "namecache \<Rightarrow> nc_key \<Rightarrow> uint option" where
  "nc_evict nc = (let e = nc_entries nc ! nc_next_slot nc
     in if nce_valid e then (nc_abs nc)(nce_key e := None) else nc_abs nc)"

lemma nc_abs_eqI:
  assumes "nc_inv nc"
    and "\<And>k v. (\<exists>i < NAMECACHE_SIZE. nce_valid (nc_entries nc ! i) \<and>
        nce_key (nc_entries nc ! i) = k \<and> nce_inum (nc_entries nc ! i) = v) \<longleftrightarrow> f k = Some v"
  shows "nc_abs nc = f"
proof
  fix k
  have "nc_abs nc k = Some v \<longleftrightarrow> f k = Some v" for v
    by (simp only: nc_abs_Some_iff[OF assms(1)] assms(2))
  then show "nc_abs nc k = f k" by (rule option_eqI)
qed

text \<open>Storing a fresh key in a slot.\<close>

lemma nc_store_inv:
  assumes inv: "nc_inv nc" and fresh: "nc_abs nc (nce_key e) = None"
    and i: "i < NAMECACHE_SIZE" and e: "nce_valid e" "length (nce_name e) = DIRSIZ"
  shows "nc_inv (nc\<lparr>nc_entries := (nc_entries nc)[i := e]\<rparr>)"
proof -
  let ?es = "(nc_entries nc)[i := e]"
  note D = nc_invD[OF inv]
  have new: "j = i" if "j < NAMECACHE_SIZE" "nce_valid (?es ! j)" "nce_key (?es ! j) = nce_key e" for j
    using that fresh D(1) i by (auto simp: nc_abs_None_iff[OF inv] nth_list_update split: if_splits)
  have "length (nce_name x) = DIRSIZ" if "x \<in> set ?es" for x
    using that inv e(2) by (auto simp: nc_inv_def dest!: set_update_subset_insert[THEN subsetD])
  moreover have "j = k" if "j < NAMECACHE_SIZE" "k < NAMECACHE_SIZE"
    "nce_valid (?es ! j)" "nce_valid (?es ! k)" "nce_key (?es ! j) = nce_key (?es ! k)" for j k
  proof (cases "j = i \<or> k = i")
    case True
    with that new[of j] new[of k] D(1) i show ?thesis by auto
  next
    case False
    with that D(4)[of j k] show ?thesis by simp
  qed
  ultimately show ?thesis using inv by (auto simp: nc_inv_def)
qed

lemma nc_store_abs:
  assumes inv: "nc_inv nc" and fresh: "nc_abs nc (nce_key e) = None"
    and i: "i < NAMECACHE_SIZE" and e: "nce_valid e" "length (nce_name e) = DIRSIZ"
  shows "nc_abs (nc\<lparr>nc_entries := (nc_entries nc)[i := e]\<rparr>) =
    (if nce_valid (nc_entries nc ! i) then (nc_abs nc)(nce_key (nc_entries nc ! i) := None)
     else nc_abs nc)(nce_key e \<mapsto> nce_inum e)" (is "nc_abs ?nc = ?f")
proof (rule nc_abs_eqI[OF nc_store_inv[OF assms]])
  fix k v
  note D = nc_invD[OF inv]
  let ?at = "\<lambda>j. nce_valid (nc_entries nc ! j) \<and> nce_key (nc_entries nc ! j) = k \<and>
    nce_inum (nc_entries nc ! j) = v"
  have "(\<exists>j < NAMECACHE_SIZE. nce_valid (nc_entries ?nc ! j) \<and> nce_key (nc_entries ?nc ! j) = k \<and>
      nce_inum (nc_entries ?nc ! j) = v) \<longleftrightarrow>
    nce_key e = k \<and> nce_inum e = v \<or> (\<exists>j < NAMECACHE_SIZE. j \<noteq> i \<and> ?at j)"
    using D(1) i e by (auto simp: nth_list_update)
  also have "(\<exists>j < NAMECACHE_SIZE. j \<noteq> i \<and> ?at j) \<longleftrightarrow>
    nc_abs nc k = Some v \<and> \<not> (nce_valid (nc_entries nc ! i) \<and> nce_key (nc_entries nc ! i) = k)"
    using D(4)[OF i] i by (auto simp: nc_abs_Some_iff[OF inv])
  finally show "(\<exists>j < NAMECACHE_SIZE. nce_valid (nc_entries ?nc ! j) \<and>
      nce_key (nc_entries ?nc ! j) = k \<and> nce_inum (nc_entries ?nc ! j) = v) \<longleftrightarrow> ?f k = Some v"
    using fresh by auto
qed

lemma nc_abs_next_slot [simp]: "nc_abs (nc\<lparr>nc_next_slot := n\<rparr>) = nc_abs nc"
  by (rule nc_abs_cong; simp)

lemma nc_inv_next_slot: "nc_inv nc \<Longrightarrow> nc_inv (nc\<lparr>nc_next_slot := (n + 1) mod NAMECACHE_SIZE\<rparr>)"
  by (simp add: nc_inv_def NAMECACHE_SIZE_def)

lemma dirname_strncpy: "length s = DIRSIZ \<Longrightarrow> dirname (strncpy s name DIRSIZ) = dirname name"
  by (simp add: dirname_def take_cstr_strncpy)

lemma nc_set_inum:
  fixes inum :: uint
  assumes inv: "nc_inv nc" and i: "i < NAMECACHE_SIZE" and v: "nce_valid (nc_entries nc ! i)"
  defines "nc' \<equiv> nc\<lparr>nc_entries := (nc_entries nc)[i := (nc_entries nc ! i)\<lparr>nce_inum := inum\<rparr>]\<rparr>"
  shows "nc_inv nc' \<and> nc_abs nc' = (nc_abs nc)(nce_key (nc_entries nc ! i) \<mapsto> inum)"
proof -
  note D = nc_invD[OF inv]
  let ?e = "(nc_entries nc ! i)\<lparr>nce_inum := inum\<rparr>" and ?k = "nce_key (nc_entries nc ! i)"
  have key: "nce_key ?e = ?k" by (simp add: nce_key_def)
  have inv': "nc_inv nc'"
    unfolding nc'_def using D(3)[OF i] key by (intro nc_inv_hit[OF inv i]) auto
  have "nc_abs nc' = (nc_abs nc)(?k \<mapsto> inum)"
  proof (rule nc_abs_eqI[OF inv'])
    fix k v
    have at: "nc_entries nc' ! j = (if j = i then ?e else nc_entries nc ! j)"
      if "j < NAMECACHE_SIZE" for j
      using that D(1) i by (simp add: nc'_def nth_list_update)
    show "(\<exists>j < NAMECACHE_SIZE. nce_valid (nc_entries nc' ! j) \<and>
        nce_key (nc_entries nc' ! j) = k \<and> nce_inum (nc_entries nc' ! j) = v) \<longleftrightarrow>
      ((nc_abs nc)(?k \<mapsto> inum)) k = Some v"
    proof (cases "k = ?k")
      case True
      then have "j = i" if "j < NAMECACHE_SIZE" "nce_valid (nc_entries nc' ! j)"
        "nce_key (nc_entries nc' ! j) = k" for j
        using that at[of j] D(4)[OF _ i _ v, of j] by (cases "j = i") auto
      then show ?thesis using True i v key at[of i] by fastforce
    next
      case False
      have "(nce_valid (nc_entries nc' ! j) \<and> nce_key (nc_entries nc' ! j) = k \<and>
          nce_inum (nc_entries nc' ! j) = v) \<longleftrightarrow> (nce_valid (nc_entries nc ! j) \<and>
          nce_key (nc_entries nc ! j) = k \<and> nce_inum (nc_entries nc ! j) = v)"
        if "j < NAMECACHE_SIZE" for j
        using at[OF that] key False by auto
      with False nc_abs_Some_iff[OF inv, of k v] show ?thesis by auto
    qed
  qed
  with inv' show ?thesis ..
qed

lemma namecache_add_spec:
  fixes dev parent inum :: uint and name :: "byte list"
  assumes inv: "nc_inv nc"
  defines "k \<equiv> (dev, parent, dirname name)"
  shows "nc_inv (namecache_add dev parent name inum nc) \<and>
    nc_abs (namecache_add dev parent name inum nc) =
      (if nc_abs nc k = None then nc_evict nc else nc_abs nc)(k \<mapsto> inum)"
proof (cases "find_idx (nc_match dev parent name) (nc_entries nc)")
  case (Some i)
  note hit = namecache_lookup_hit[OF inv Some]
  have "nce_valid (nc_entries nc ! i)" "nce_key (nc_entries nc ! i) = k"
    using find_idx_Some_sat[OF Some] by (auto simp: nc_match_key k_def)
  with nc_set_inum[OF inv hit(2), of inum] Some hit(1) show ?thesis
    by (simp add: namecache_add_def k_def)
next
  case None
  note D = nc_invD[OF inv]
  let ?i = "nc_next_slot nc"
  let ?e = "\<lparr>nce_valid = True, nce_dev = dev, nce_parent = parent,
    nce_name = strncpy (nce_name (nc_entries nc ! ?i)) name DIRSIZ, nce_inum = inum, nce_hits = 0\<rparr>"
  let ?nc = "nc\<lparr>nc_entries := (nc_entries nc)[?i := ?e]\<rparr>"
  have fresh: "nc_abs nc k = None" using None by (simp add: nc_abs_def nc_match_fun k_def)
  have key: "nce_key ?e = k"
    using D(3)[OF D(2)] by (simp add: nce_key_def dirname_strncpy k_def)
  have len: "length (nce_name ?e) = DIRSIZ"
    using D(3)[OF D(2)] by (simp add: length_strncpy)
  have eq: "namecache_add dev parent name inum nc =
    ?nc\<lparr>nc_next_slot := (?i + 1) mod NAMECACHE_SIZE\<rparr>"
    using None by (simp add: namecache_add_def Let_def)
  have "nc_inv ?nc"
    by (rule nc_store_inv[OF inv _ D(2)]) (use fresh key len in auto)
  then have "nc_inv (namecache_add dev parent name inum nc)"
    unfolding eq by (rule nc_inv_next_slot)
  moreover have "nc_abs ?nc = (nc_evict nc)(k \<mapsto> inum)"
    using nc_store_abs[OF inv _ D(2), of ?e] fresh key len by (simp add: nc_evict_def Let_def)
  ultimately show ?thesis
    unfolding eq using fresh by simp
qed


lemma namecache_invalidate_spec:
  assumes inv: "nc_inv nc"
  shows "nc_inv (namecache_invalidate dev inum nc) \<and>
    nc_abs (namecache_invalidate dev inum nc) =
      (\<lambda>k. case nc_abs nc k of None \<Rightarrow> None
        | Some v \<Rightarrow> if fst k = dev \<and> (v = inum \<or> fst (snd k) = inum) then None else Some v)"
proof -
  note D = nc_invD[OF inv]
  let ?nc = "namecache_invalidate dev inum nc"
  let ?hit = "\<lambda>e. nce_dev e = dev \<and> (nce_inum e = inum \<or> nce_parent e = inum)"
  have at: "nce_valid (nc_entries ?nc ! j) \<longleftrightarrow> nce_valid (nc_entries nc ! j) \<and> \<not> ?hit (nc_entries nc ! j)"
    "nce_key (nc_entries ?nc ! j) = nce_key (nc_entries nc ! j)"
    "nce_inum (nc_entries ?nc ! j) = nce_inum (nc_entries nc ! j)"
    "nce_name (nc_entries ?nc ! j) = nce_name (nc_entries nc ! j)"
    if "j < NAMECACHE_SIZE" for j
    using that D(1) by (auto simp: namecache_invalidate_def nce_key_def)
  have len: "length (nc_entries ?nc) = NAMECACHE_SIZE"
    using D(1) by (simp add: namecache_invalidate_def)
  have inv': "nc_inv ?nc"
    unfolding nc_inv_def
  proof (intro conjI ballI allI impI)
    fix e assume "e \<in> set (nc_entries ?nc)"
    then obtain j where "j < NAMECACHE_SIZE" "e = nc_entries ?nc ! j"
      using len by (auto simp: in_set_conv_nth)
    then show "length (nce_name e) = DIRSIZ" using at(4) D(3) by simp
  next
    fix i j
    assume "i < NAMECACHE_SIZE" "j < NAMECACHE_SIZE"
      "nce_valid (nc_entries ?nc ! i) \<and> nce_valid (nc_entries ?nc ! j) \<and>
       nce_key (nc_entries ?nc ! i) = nce_key (nc_entries ?nc ! j)"
    then show "i = j" using at(1,2) D(4)[of i j] by simp
  qed (use inv len in \<open>simp_all add: nc_inv_def namecache_invalidate_def\<close>)
  have "nc_abs ?nc = (\<lambda>k. case nc_abs nc k of None \<Rightarrow> None
      | Some v \<Rightarrow> if fst k = dev \<and> (v = inum \<or> fst (snd k) = inum) then None else Some v)"
  proof (rule nc_abs_eqI[OF inv'])
    fix k v
    have "(\<exists>i < NAMECACHE_SIZE. nce_valid (nc_entries ?nc ! i) \<and> nce_key (nc_entries ?nc ! i) = k \<and>
        nce_inum (nc_entries ?nc ! i) = v) \<longleftrightarrow>
      nc_abs nc k = Some v \<and> \<not> (fst k = dev \<and> (v = inum \<or> fst (snd k) = inum))"
      unfolding nc_abs_Some_iff[OF inv] using at(1,2,3) by (auto simp: nce_key_def)
    then show "(\<exists>i < NAMECACHE_SIZE. nce_valid (nc_entries ?nc ! i) \<and> nce_key (nc_entries ?nc ! i) = k \<and>
        nce_inum (nc_entries ?nc ! i) = v) \<longleftrightarrow> (case nc_abs nc k of None \<Rightarrow> None
      | Some v \<Rightarrow> if fst k = dev \<and> (v = inum \<or> fst (snd k) = inum) then None else Some v) = Some v"
      by (auto split: option.splits)
  qed
  with inv' show ?thesis ..
qed

lemma nc_abs_all_invalid:
  assumes "\<And>e. e \<in> set (nc_entries nc) \<Longrightarrow> \<not> nce_valid e"
  shows "nc_abs nc k = None"
proof -
  have "find_idx (\<lambda>e. nce_valid e \<and> nce_key e = k) (nc_entries nc) = None"
    using assms by (auto simp: find_idx_None_iff)
  then show ?thesis by (simp add: nc_abs_def)
qed

lemma namecache_clear_spec:
  assumes "nc_inv nc"
  shows "nc_inv (namecache_clear nc)" "nc_abs (namecache_clear nc) = Map.empty"
proof -
  show "nc_inv (namecache_clear nc)"
    using assms by (simp add: nc_inv_def namecache_clear_def NAMECACHE_SIZE_def)
  show "nc_abs (namecache_clear nc) = Map.empty"
    by (rule ext) (rule nc_abs_all_invalid, auto simp: namecache_clear_def)
qed

lemma namecache_init_spec:
  assumes "length (nc_entries nc) = NAMECACHE_SIZE"
    "\<And>e. e \<in> set (nc_entries nc) \<Longrightarrow> length (nce_name e) = DIRSIZ"
  shows "nc_inv (namecache_init nc)" "nc_abs (namecache_init nc) = Map.empty"
proof -
  show "nc_inv (namecache_init nc)"
    using assms by (simp add: nc_inv_def namecache_init_def NAMECACHE_SIZE_def)
  show "nc_abs (namecache_init nc) = Map.empty"
    by (rule ext) (rule nc_abs_all_invalid, auto simp: namecache_init_def)
qed

subsection \<open>What the directory code relies on\<close>

text \<open>
  The contract of a name cache, over a set of directory entries \<open>D\<close>: a cache that holds
  only entries of \<open>D\<close> still does after a lookup, after adding an entry of \<open>D\<close>, and
  after dropping an inode, even if the entries of that inode then change.
\<close>

locale dentry_cache =
  fixes inv :: "'c \<Rightarrow> bool"
    and view :: "'c \<Rightarrow> nc_key \<Rightarrow> uint option"
    and lookup :: "uint \<Rightarrow> uint \<Rightarrow> byte list \<Rightarrow> 'c \<Rightarrow> uint \<times> 'c"
    and add :: "uint \<Rightarrow> uint \<Rightarrow> byte list \<Rightarrow> uint \<Rightarrow> 'c \<Rightarrow> 'c"
    and invalidate :: "uint \<Rightarrow> uint \<Rightarrow> 'c \<Rightarrow> 'c"
  assumes lookup_law: "inv c \<Longrightarrow> lookup d p n c = (r, c') \<Longrightarrow>
      inv c' \<and> view c' = view c \<and> (r \<noteq> 0 \<longrightarrow> view c (d, p, dirname n) = Some r)"
    and add_law: "inv c \<Longrightarrow> inv (add d p n i c) \<and>
      view (add d p n i c) \<subseteq>\<^sub>m (view c)((d, p, dirname n) \<mapsto> i)"
    and invalidate_law: "inv c \<Longrightarrow> inv (invalidate d i c) \<and> view (invalidate d i c) \<subseteq>\<^sub>m view c \<and>
      (\<forall>p n v. view (invalidate d i c) (d, p, n) = Some v \<longrightarrow> p \<noteq> i \<and> v \<noteq> i)"
begin

lemma coherent_lookup:
  assumes "inv c" "view c \<subseteq>\<^sub>m D" "lookup d p n c = (r, c')"
  shows "inv c' \<and> view c' \<subseteq>\<^sub>m D \<and> (r \<noteq> 0 \<longrightarrow> D (d, p, dirname n) = Some r)"
  using lookup_law[OF assms(1,3)] map_leD[OF assms(2)] assms(2) by simp

lemma coherent_add:
  assumes "inv c" "view c \<subseteq>\<^sub>m D"
  shows "inv (add d p n i c) \<and> view (add d p n i c) \<subseteq>\<^sub>m D((d, p, dirname n) \<mapsto> i)"
proof -
  have "(view c)((d, p, dirname n) \<mapsto> i) \<subseteq>\<^sub>m D((d, p, dirname n) \<mapsto> i)"
    using assms(2) by (rule map_le_upd)
  with add_law[OF assms(1)] show ?thesis by (blast intro: map_le_trans)
qed

lemma coherent_invalidate:
  assumes "inv c" "view c \<subseteq>\<^sub>m D"
    and other: "\<And>d' p n. d' \<noteq> d \<or> p \<noteq> i \<Longrightarrow> D (d', p, n) \<noteq> Some i \<or> d' \<noteq> d \<Longrightarrow> D' (d', p, n) = D (d', p, n)"
  shows "inv (invalidate d i c) \<and> view (invalidate d i c) \<subseteq>\<^sub>m D'"
proof -
  note law = invalidate_law[OF assms(1), of d i]
  have le: "view (invalidate d i c) \<subseteq>\<^sub>m view c" using law by (elim conjE)
  have "D' k = Some v" if got: "view (invalidate d i c) k = Some v" for k v
  proof -
    obtain d' p n where k: "k = (d', p, n)" by (cases k)
    have D: "D (d', p, n) = Some v" using map_leD[OF assms(2) map_leD[OF le got]] k by simp
    have "d' = d \<Longrightarrow> p \<noteq> i \<and> v \<noteq> i" using law got k by simp
    then have "D' (d', p, n) = D (d', p, n)" by (intro other) (auto simp: D)
    with D k show ?thesis by simp
  qed
  then have "view (invalidate d i c) \<subseteq>\<^sub>m D'" by (rule map_leI)
  with law show ?thesis by simp
qed

end

interpretation nc: dentry_cache nc_inv nc_abs namecache_lookup namecache_add namecache_invalidate
proof
  fix c :: namecache and d p :: uint and n :: "byte list" and r c'
  assume "nc_inv c" "namecache_lookup d p n c = (r, c')"
  from namecache_lookup_spec[OF this]
  show "nc_inv c' \<and> nc_abs c' = nc_abs c \<and> (r \<noteq> 0 \<longrightarrow> nc_abs c (d, p, dirname n) = Some r)"
    by (auto split: option.splits)
next
  fix c :: namecache and d p i :: uint and n :: "byte list"
  assume "nc_inv c"
  from namecache_add_spec[OF this, of d p n i]
  show "nc_inv (namecache_add d p n i c) \<and>
    nc_abs (namecache_add d p n i c) \<subseteq>\<^sub>m (nc_abs c)((d, p, dirname n) \<mapsto> i)"
    by (auto simp: nc_evict_def Let_def intro!: map_leI split: if_splits)
next
  fix c :: namecache and d i :: uint
  assume "nc_inv c"
  note spec = namecache_invalidate_spec[OF this, of d i]
  then have "nc_abs (namecache_invalidate d i c) \<subseteq>\<^sub>m nc_abs c"
    by (intro map_leI) (auto split: option.splits if_splits)
  moreover have "p \<noteq> i \<and> v \<noteq> i" if "nc_abs (namecache_invalidate d i c) (d, p, n) = Some v" for p n v
    using that spec by (auto split: option.splits if_splits)
  ultimately show "nc_inv (namecache_invalidate d i c) \<and>
      nc_abs (namecache_invalidate d i c) \<subseteq>\<^sub>m nc_abs c \<and>
      (\<forall>p n v. nc_abs (namecache_invalidate d i c) (d, p, n) = Some v \<longrightarrow> p \<noteq> i \<and> v \<noteq> i)"
    using spec by blast
qed


subsection \<open>Retention\<close>

text \<open>
  Round-robin replacement: the number of additions after which a slot is reused. A slot
  keeps its key until then.
\<close>

definition slot_life :: "namecache \<Rightarrow> nat \<Rightarrow> nat" where
  "slot_life nc i = (i + NAMECACHE_SIZE - nc_next_slot nc) mod NAMECACHE_SIZE"

definition add_all :: "(uint \<times> uint \<times> byte list \<times> uint) list \<Rightarrow> namecache \<Rightarrow> namecache" where
  "add_all = fold (\<lambda>(dev, parent, name, inum). namecache_add dev parent name inum)"

lemma add_all_inv: "nc_inv nc \<Longrightarrow> nc_inv (add_all ops nc)"
  by (induction ops arbitrary: nc) (auto simp: add_all_def namecache_add_spec)

lemma namecache_add_keeps_slot:
  fixes dev parent inum :: uint and name :: "byte list"
  assumes inv: "nc_inv nc" and i: "i < NAMECACHE_SIZE" and life: "0 < slot_life nc i"
    and v: "nce_valid (nc_entries nc ! i)"
  defines "nc' \<equiv> namecache_add dev parent name inum nc"
  shows "nce_valid (nc_entries nc' ! i)" "nce_key (nc_entries nc' ! i) = nce_key (nc_entries nc ! i)"
    "slot_life nc i \<le> Suc (slot_life nc' i)"
proof -
  note D = nc_invD[OF inv]
  have "nce_valid (nc_entries nc' ! i) \<and> nce_key (nc_entries nc' ! i) = nce_key (nc_entries nc ! i) \<and>
    slot_life nc i \<le> Suc (slot_life nc' i)"
  proof (cases "find_idx (nc_match dev parent name) (nc_entries nc)")
    case (Some j)
    then show ?thesis using v D(1) i
      by (auto simp: nc'_def namecache_add_def slot_life_def nth_list_update_if nce_key_def)
  next
    case None
    have ne: "nc_next_slot nc \<noteq> i"
      using life i by (auto simp: slot_life_def)
    have "slot_life nc i \<le> Suc ((i + NAMECACHE_SIZE - (nc_next_slot nc + 1) mod NAMECACHE_SIZE) mod NAMECACHE_SIZE)"
      using ne i D(2) by (auto simp: slot_life_def NAMECACHE_SIZE_def mod_if)
    with None ne v D(1) i show ?thesis
      by (auto simp: nc'_def namecache_add_def Let_def slot_life_def nth_list_update)
  qed
  then show "nce_valid (nc_entries nc' ! i)" "nce_key (nc_entries nc' ! i) = nce_key (nc_entries nc ! i)"
    "slot_life nc i \<le> Suc (slot_life nc' i)" by auto
qed

lemma add_all_keeps_slot:
  assumes "nc_inv nc" "i < NAMECACHE_SIZE" "nce_valid (nc_entries nc ! i)"
    and "length ops \<le> slot_life nc i"
  shows "nce_valid (nc_entries (add_all ops nc) ! i) \<and>
    nce_key (nc_entries (add_all ops nc) ! i) = nce_key (nc_entries nc ! i)"
  using assms
proof (induction ops arbitrary: nc)
  case (Cons op ops)
  obtain dev parent name inum where op: "op = (dev, parent, name, inum)" by (cases op)
  let ?nc = "namecache_add dev parent name inum nc"
  from Cons.prems have "0 < slot_life nc i" by auto
  note step = namecache_add_keeps_slot[OF Cons.prems(1,2) this Cons.prems(3), of dev parent name inum]
  have "length ops \<le> slot_life ?nc i" using step(3) Cons.prems(4) by simp
  from Cons.IH[OF _ Cons.prems(2) step(1) this] show ?case
    using namecache_add_spec[OF Cons.prems(1)] step(2) op by (simp add: add_all_def)
qed (simp add: add_all_def)

text \<open>The slot a fresh key is stored in has the longest life.\<close>

lemma namecache_add_fresh_slot:
  fixes dev parent inum :: uint and name :: "byte list"
  assumes inv: "nc_inv nc" and fresh: "nc_abs nc (dev, parent, dirname name) = None"
  defines "nc' \<equiv> namecache_add dev parent name inum nc"
  shows "nce_valid (nc_entries nc' ! nc_next_slot nc)"
    "nce_key (nc_entries nc' ! nc_next_slot nc) = (dev, parent, dirname name)"
    "slot_life nc' (nc_next_slot nc) = NAMECACHE_SIZE - 1"
proof -
  note D = nc_invD[OF inv]
  have "find_idx (nc_match dev parent name) (nc_entries nc) = None"
    using fresh by (simp add: nc_abs_def nc_match_fun)
  then show "nce_valid (nc_entries nc' ! nc_next_slot nc)"
    "nce_key (nc_entries nc' ! nc_next_slot nc) = (dev, parent, dirname name)"
    "slot_life nc' (nc_next_slot nc) = NAMECACHE_SIZE - 1"
    using D(1,2) D(3)[OF D(2)]
    by (auto simp: nc'_def namecache_add_def Let_def nce_key_def dirname_strncpy slot_life_def
        NAMECACHE_SIZE_def mod_if)
qed

subsection \<open>Properties\<close>

definition nc_zero :: namecache where
  "nc_zero = \<lparr>nc_entries = replicate NAMECACHE_SIZE
       \<lparr>nce_valid = False, nce_dev = 0, nce_parent = 0, nce_name = replicate DIRSIZ 0,
        nce_inum = 0, nce_hits = 0\<rparr>,
     nc_next_slot = 0, nc_total_lookups = 0, nc_cache_hits = 0, nc_cache_misses = 0\<rparr>"

lemma nc_init_zero: "nc_inv (namecache_init nc_zero)" "nc_abs (namecache_init nc_zero) = Map.empty"
  by (rule namecache_init_spec; auto simp: nc_zero_def)+

text \<open>C7. A lookup returns the inode number the cache's map holds for the key, or 0 when it
  holds none; it changes no mapping and keeps the table well-formed.\<close>

theorem namecache_lookup_refines:
  assumes "nc_inv nc" "namecache_lookup dev parent name nc = (r, nc')"
  shows "r = (case nc_abs nc (dev, parent, dirname name) of None \<Rightarrow> 0 | Some v \<Rightarrow> v) \<and>
    nc_abs nc' = nc_abs nc \<and> nc_inv nc'"
  by (rule namecache_lookup_spec[OF assms])

theorem namecache_lookup_refines_witness:
  "nc_inv (snd (namecache_lookup 1 1 [99] (namecache_init nc_zero)))"
  using namecache_lookup_refines[OF nc_init_zero(1) prod.collapse[symmetric]] by blast

text \<open>C8. Adding an entry updates the cache's map at that key; when the key is new the entry in
  the slot whose turn it is, and no other, is forgotten. The table stays well-formed.\<close>

theorem namecache_add_refines:
  assumes "nc_inv nc"
  shows "nc_inv (namecache_add dev parent name inum nc) \<and>
    nc_abs (namecache_add dev parent name inum nc) =
      (if nc_abs nc (dev, parent, dirname name) = None then nc_evict nc else nc_abs nc)
        ((dev, parent, dirname name) \<mapsto> inum)"
  by (rule namecache_add_spec[OF assms])

theorem namecache_add_refines_witness:
  "nc_abs (namecache_add 1 1 [97] 7 (namecache_init nc_zero)) (1, 1, [97]) = Some 7"
  using namecache_add_refines[OF nc_init_zero(1), of 1 1 "[97]" 7]
  by (simp add: dirname_def DIRSIZ_def)

text \<open>C9. Invalidating an inode removes every entry of its device that names it or lies in it,
  and no other entry.\<close>

theorem namecache_invalidate_refines:
  assumes "nc_inv nc"
  shows "nc_inv (namecache_invalidate dev inum nc) \<and>
    nc_abs (namecache_invalidate dev inum nc) =
      (\<lambda>k. case nc_abs nc k of None \<Rightarrow> None
        | Some v \<Rightarrow> if fst k = dev \<and> (v = inum \<or> fst (snd k) = inum) then None else Some v)"
  by (rule namecache_invalidate_spec[OF assms])

theorem namecache_invalidate_refines_witness:
  "nc_abs (namecache_invalidate 1 7 (namecache_add 1 1 [97] 7 (namecache_init nc_zero))) (1, 1, [97]) = None"
  using namecache_invalidate_refines[of "namecache_add 1 1 [97] 7 (namecache_init nc_zero)" 1 7]
    namecache_add_spec[OF nc_init_zero(1), of 1 1 "[97]" 7]
  by (simp add: dirname_def DIRSIZ_def)



end
