(* ===== verification/Fs.thy ===== *)
theory Fs
  imports Log_Spec Namecache
begin

text \<open>
  The lower half of \<^verbatim>\<open>fs.c\<close>: the block allocator, the on-disk inode format of \<^verbatim>\<open>fs.h\<close>, the
  in-memory inode table, the block map of a file, and reading and writing file contents.
  An inode pointer is its slot in \<open>icache\<close>. File contents move as lists of bytes: \<open>readi\<close>
  returns the bytes it copies to its destination and \<open>writei\<close> takes the bytes of its source.
  Device files go to the functions registered in \<open>devsw\<close>, an argument of the operations.
\<close>

subsection \<open>Constants and state\<close>

definition NINODE :: nat where "NINODE = 50"
definition NDEV :: int where "NDEV = 10"
definition ROOTDEV :: uint where "ROOTDEV = 1"
definition ROOTINO :: uint where "ROOTINO = 1"
definition NDIRECT :: nat where "NDIRECT = 12"
definition NINDIRECT :: nat where "NINDIRECT = BSIZE div 4"
definition MAXFILE :: nat where "MAXFILE = NDIRECT + NINDIRECT"
definition BPB :: nat where "BPB = BSIZE * 8"
definition DINODE_SIZE :: nat where "DINODE_SIZE = 128"
definition IPB :: nat where "IPB = BSIZE div DINODE_SIZE"

definition T_DIR :: ushort where "T_DIR = 1"
definition T_FILE :: ushort where "T_FILE = 2"
definition T_DEV :: ushort where "T_DEV = 3"

record inode =
  i_dev :: uint
  i_inum :: uint
  i_ref :: int
  i_lock :: sleeplock
  i_valid :: bool
  i_type :: ushort
  i_major :: ushort
  i_minor :: ushort
  i_nlink :: ushort
  i_size :: uint
  i_uid :: ushort
  i_gid :: ushort
  i_mode :: ushort
  i_addrs :: "uint list"

record fs = log +
  fs_sb :: superblock
  inodes :: "inode list"
  nc :: namecache

text \<open>The device switch: functions reading and writing the device with a major number.\<close>

record 's devsw =
  dev_read :: "nat \<Rightarrow> (nat \<Rightarrow> int \<Rightarrow> ('s, int \<times> byte list) kernel) option"
  dev_write :: "nat \<Rightarrow> (nat \<Rightarrow> byte list \<Rightarrow> int \<Rightarrow> ('s, int) kernel) option"

definition inode_upd :: "nat \<Rightarrow> (inode \<Rightarrow> inode) \<Rightarrow> 'a fs_scheme \<Rightarrow> 'a fs_scheme" where
  "inode_upd i f s = s\<lparr>inodes := (inodes s)[i := f (inodes s ! i)]\<rparr>"

subsection \<open>Blocks\<close>

definition BBLOCK :: "nat \<Rightarrow> superblock \<Rightarrow> uint" where
  "BBLOCK b sb = of_nat (b div BPB) + sb_bmapstart sb"

definition bzero :: "uint \<Rightarrow> uint \<Rightarrow> ('a log_scheme, unit) kernel" where
  "bzero dev bno =
     bnd (bread dev bno) (\<lambda>bp.
     bnd (modify (set_data bp (\<lambda>_. 0))) (\<lambda>_.
     bnd (log_write bp) (\<lambda>_. brelse bp)))"

text \<open>Bit \<open>bi\<close> of a bitmap block.\<close>

definition bit_used :: "block \<Rightarrow> nat \<Rightarrow> bool" where
  "bit_used b bi \<longleftrightarrow> b (bi div 8) AND push_bit (bi mod 8) 1 \<noteq> 0"

definition set_bit_used :: "nat \<Rightarrow> block \<Rightarrow> block" where
  "set_bit_used bi b = b(bi div 8 := b (bi div 8) OR push_bit (bi mod 8) 1)"

definition clear_bit_used :: "nat \<Rightarrow> block \<Rightarrow> block" where
  "clear_bit_used bi b = b(bi div 8 := b (bi div 8) AND NOT (push_bit (bi mod 8) 1))"

primrec balloc_loop :: "uint \<Rightarrow> nat list \<Rightarrow> ('a fs_scheme, uint) kernel" where
  "balloc_loop dev [] = panic ''balloc: out of blocks''"
| "balloc_loop dev (b # bs) =
     bnd (fetch fs_sb) (\<lambda>sb.
     bnd (bread dev (BBLOCK b sb)) (\<lambda>bp.
     bnd (fetch (\<lambda>s. find (\<lambda>bi. \<not> bit_used (b_data (bufs s ! bp)) bi) [0..<min BPB (unat (sb_size sb) - b)])) (\<lambda>r.
     case r of
       Some bi \<Rightarrow>
         bnd (modify (\<lambda>s. set_data bp (set_bit_used bi (b_data (bufs s ! bp))) s)) (\<lambda>_.
         bnd (log_write bp) (\<lambda>_.
         bnd (brelse bp) (\<lambda>_.
         bnd (bzero dev (of_nat (b + bi))) (\<lambda>_. ret (of_nat (b + bi))))))
     | None \<Rightarrow> bnd (brelse bp) (\<lambda>_. balloc_loop dev bs))))"

definition balloc :: "uint \<Rightarrow> ('a fs_scheme, uint) kernel" where
  "balloc dev =
     bnd (fetch (\<lambda>s. unat (sb_size (fs_sb s)))) (\<lambda>size.
     balloc_loop dev (map (\<lambda>k. k * BPB) [0..<(size + BPB - 1) div BPB]))"

definition bfree :: "uint \<Rightarrow> uint \<Rightarrow> ('a fs_scheme, unit) kernel" where
  "bfree dev b =
     bnd (fetch fs_sb) (\<lambda>sb.
     bnd (bread dev (BBLOCK (unat b) sb)) (\<lambda>bp.
     let bi = unat b mod BPB in
     bnd (fetch (\<lambda>s. bit_used (b_data (bufs s ! bp)) bi)) (\<lambda>used.
     if \<not> used then panic ''freeing free block''
     else
       bnd (modify (\<lambda>s. set_data bp (clear_bit_used bi (b_data (bufs s ! bp))) s)) (\<lambda>_.
       bnd (log_write bp) (\<lambda>_. brelse bp)))))"

subsection \<open>Inodes on disk\<close>

definition bld16 :: "block \<Rightarrow> nat \<Rightarrow> ushort" where
  "bld16 b i = join16 (b i) (b (i + 1))"

definition bst16 :: "block \<Rightarrow> nat \<Rightarrow> ushort \<Rightarrow> block" where
  "bst16 b i w = b(i := ucast w, i + 1 := ucast (drop_bit 8 w))"

record dinode =
  d_type :: ushort
  d_major :: ushort
  d_minor :: ushort
  d_nlink :: ushort
  d_size :: uint
  d_uid :: ushort
  d_gid :: ushort
  d_mode :: ushort
  d_addrs :: "uint list"

definition IBLOCK :: "uint \<Rightarrow> superblock \<Rightarrow> uint" where
  "IBLOCK i sb = i div of_nat IPB + sb_inodestart sb"

text \<open>\<open>(struct dinode*)bp->data + inum%IPB\<close>, as a byte offset.\<close>

definition dip_off :: "uint \<Rightarrow> nat" where
  "dip_off inum = (unat inum mod IPB) * DINODE_SIZE"

definition get_dinode :: "block \<Rightarrow> nat \<Rightarrow> dinode" where
  "get_dinode b o' = \<lparr>d_type = bld16 b o', d_major = bld16 b (o' + 2), d_minor = bld16 b (o' + 4),
     d_nlink = bld16 b (o' + 6), d_size = bld32 b (o' + 8), d_uid = bld16 b (o' + 12),
     d_gid = bld16 b (o' + 14), d_mode = bld16 b (o' + 16),
     d_addrs = map (\<lambda>k. bld32 b (o' + 20 + 4 * k)) [0..<NDIRECT + 1]\<rparr>"

definition put_addrs :: "nat \<Rightarrow> uint list \<Rightarrow> block \<Rightarrow> block" where
  "put_addrs o' addrs b = fold (\<lambda>k b. bst32 b (o' + 20 + 4 * k) (addrs ! k)) [0..<NDIRECT + 1] b"

definition put_dinode :: "nat \<Rightarrow> dinode \<Rightarrow> block \<Rightarrow> block" where
  "put_dinode o' di b =
     (let b = bst16 b o' (d_type di);
          b = bst16 b (o' + 2) (d_major di);
          b = bst16 b (o' + 4) (d_minor di);
          b = bst16 b (o' + 6) (d_nlink di);
          b = bst32 b (o' + 8) (d_size di);
          b = bst16 b (o' + 12) (d_uid di);
          b = bst16 b (o' + 14) (d_gid di);
          b = bst16 b (o' + 16) (d_mode di)
      in put_addrs o' (d_addrs di) b)"

text \<open>The octal constants \<^verbatim>\<open>0755\<close> and \<^verbatim>\<open>0644\<close>.\<close>

definition MODE_755 :: ushort where "MODE_755 = 0x1ED"
definition MODE_644 :: ushort where "MODE_644 = 0x1A4"

text \<open>What \<open>ialloc\<close> stores in a free inode: zeroes, the type, the owner and default permissions.\<close>

definition fresh_dinode :: "nat \<Rightarrow> ushort \<Rightarrow> int \<Rightarrow> int \<Rightarrow> block \<Rightarrow> block" where
  "fresh_dinode o' type uid gid b =
     (let b = (\<lambda>k. if o' \<le> k \<and> k < o' + DINODE_SIZE then 0 else b k);
          b = bst16 b o' type;
          b = bst16 b (o' + 12) (word_of_int uid);
          b = bst16 b (o' + 14) (word_of_int gid)
      in bst16 b (o' + 16) (if type = T_DIR then MODE_755 else MODE_644))"

subsection \<open>The inode table\<close>

definition iinit :: "uint \<Rightarrow> ('a fs_scheme, unit) kernel" where
  "iinit dev =
     bnd (modify (\<lambda>s. s\<lparr>inodes := map (\<lambda>ip. ip\<lparr>i_lock := initsleeplock\<rparr>) (inodes s)\<rparr>)) (\<lambda>_.
     bnd (readsb dev) (\<lambda>sb. modify (\<lambda>s. s\<lparr>fs_sb := sb\<rparr>)))"

definition iget :: "uint \<Rightarrow> uint \<Rightarrow> ('a fs_scheme, nat) kernel" where
  "iget dev inum s =
     (case find_idx (\<lambda>ip. i_ref ip > 0 \<and> i_dev ip = dev \<and> i_inum ip = inum) (inodes s) of
        Some i \<Rightarrow> Inr (i, inode_upd i (\<lambda>ip. ip\<lparr>i_ref := i_ref ip + 1\<rparr>) s)
      | None \<Rightarrow>
          (case find_idx (\<lambda>ip. i_ref ip = 0) (inodes s) of
             None \<Rightarrow> Inl (Panic ''iget: no inodes'')
           | Some i \<Rightarrow> Inr (i, inode_upd i (\<lambda>ip. ip\<lparr>i_dev := dev, i_inum := inum, i_ref := 1, i_valid := False\<rparr>) s)))"

definition idup :: "nat \<Rightarrow> ('a fs_scheme, nat) kernel" where
  "idup i = bnd (modify (inode_upd i (\<lambda>ip. ip\<lparr>i_ref := i_ref ip + 1\<rparr>))) (\<lambda>_. ret i)"

primrec ialloc_loop :: "uint \<Rightarrow> ushort \<Rightarrow> nat list \<Rightarrow> ('a fs_scheme, nat) kernel" where
  "ialloc_loop dev type [] = panic ''ialloc: no inodes''"
| "ialloc_loop dev type (n # ns) =
     bnd (fetch fs_sb) (\<lambda>sb.
     let inum = of_nat n in
     bnd (bread dev (IBLOCK inum sb)) (\<lambda>bp.
     bnd (fetch (\<lambda>s. bld16 (b_data (bufs s ! bp)) (dip_off inum))) (\<lambda>t.
     if t = 0 then
       bnd myproc (\<lambda>p.
       bnd (fetch (\<lambda>s. (p_uid (procs s ! p), p_gid (procs s ! p)))) (\<lambda>(uid, gid).
       bnd (modify (\<lambda>s. set_data bp (fresh_dinode (dip_off inum) type uid gid (b_data (bufs s ! bp))) s)) (\<lambda>_.
       bnd (log_write bp) (\<lambda>_.
       bnd (brelse bp) (\<lambda>_. iget dev inum)))))
     else bnd (brelse bp) (\<lambda>_. ialloc_loop dev type ns))))"

definition ialloc :: "uint \<Rightarrow> ushort \<Rightarrow> ('a fs_scheme, nat) kernel" where
  "ialloc dev type =
     bnd (fetch (\<lambda>s. unat (sb_ninodes (fs_sb s)))) (\<lambda>ninodes. ialloc_loop dev type [1..<ninodes])"

text \<open>The fields of an in-memory inode that live on disk.\<close>

definition dinode_of :: "inode \<Rightarrow> dinode" where
  "dinode_of ip = \<lparr>d_type = i_type ip, d_major = i_major ip, d_minor = i_minor ip, d_nlink = i_nlink ip,
     d_size = i_size ip, d_uid = i_uid ip, d_gid = i_gid ip, d_mode = i_mode ip, d_addrs = i_addrs ip\<rparr>"

definition load_dinode :: "dinode \<Rightarrow> inode \<Rightarrow> inode" where
  "load_dinode di ip = ip\<lparr>i_type := d_type di, i_major := d_major di, i_minor := d_minor di,
     i_nlink := d_nlink di, i_size := d_size di, i_uid := d_uid di, i_gid := d_gid di,
     i_mode := d_mode di, i_addrs := d_addrs di\<rparr>"

definition iupdate :: "nat \<Rightarrow> ('a fs_scheme, unit) kernel" where
  "iupdate i =
     bnd (fetch (\<lambda>s. (inodes s ! i, fs_sb s))) (\<lambda>(ip, sb).
     bnd (bread (i_dev ip) (IBLOCK (i_inum ip) sb)) (\<lambda>bp.
     bnd (modify (\<lambda>s. set_data bp (put_dinode (dip_off (i_inum ip)) (dinode_of ip) (b_data (bufs s ! bp))) s)) (\<lambda>_.
     bnd (log_write bp) (\<lambda>_. brelse bp))))"

abbreviation set_ilock :: "nat \<Rightarrow> sleeplock \<Rightarrow> 'a fs_scheme \<Rightarrow> 'a fs_scheme" where
  "set_ilock i l \<equiv> inode_upd i (\<lambda>ip. ip\<lparr>i_lock := l\<rparr>)"

abbreviation ilock_of :: "nat \<Rightarrow> 'a fs_scheme \<Rightarrow> sleeplock" where
  "ilock_of i s \<equiv> i_lock (inodes s ! i)"

definition ilock :: "nat \<Rightarrow> ('a fs_scheme, unit) kernel" where
  "ilock i =
     bnd (fetch (\<lambda>s. i_ref (inodes s ! i))) (\<lambda>r.
     if r < 1 then panic ''ilock''
     else
       bnd (acquiresleep (ChanInodeLock i) (ilock_of i) (set_ilock i)) (\<lambda>_.
       bnd (fetch (\<lambda>s. (inodes s ! i, fs_sb s))) (\<lambda>(ip, sb).
       if i_valid ip then ret ()
       else
         bnd (bread (i_dev ip) (IBLOCK (i_inum ip) sb)) (\<lambda>bp.
         bnd (fetch (\<lambda>s. get_dinode (b_data (bufs s ! bp)) (dip_off (i_inum ip)))) (\<lambda>di.
         bnd (modify (inode_upd i (load_dinode di))) (\<lambda>_.
         bnd (brelse bp) (\<lambda>_.
         bnd (modify (inode_upd i (\<lambda>ip. ip\<lparr>i_valid := True\<rparr>))) (\<lambda>_.
         if d_type di = 0 then panic ''ilock: no type'' else ret ()))))))))"

definition iunlock :: "nat \<Rightarrow> ('a fs_scheme, unit) kernel" where
  "iunlock i =
     bnd (holdingsleep (ilock_of i)) (\<lambda>h.
     bnd (fetch (\<lambda>s. i_ref (inodes s ! i))) (\<lambda>r.
     if \<not> h \<or> r < 1 then panic ''iunlock''
     else releasesleep (ChanInodeLock i) (set_ilock i)))"

subsection \<open>The blocks of a file\<close>

definition bmap :: "nat \<Rightarrow> nat \<Rightarrow> ('a fs_scheme, uint) kernel" where
  "bmap i bn =
     bnd (fetch (\<lambda>s. inodes s ! i)) (\<lambda>ip.
     if bn < NDIRECT then
       (if i_addrs ip ! bn = 0 then
          bnd (balloc (i_dev ip)) (\<lambda>addr.
          bnd (modify (inode_upd i (\<lambda>ip. ip\<lparr>i_addrs := (i_addrs ip)[bn := addr]\<rparr>))) (\<lambda>_. ret addr))
        else ret (i_addrs ip ! bn))
     else if bn - NDIRECT < NINDIRECT then
       bnd (if i_addrs ip ! NDIRECT = 0 then
              bnd (balloc (i_dev ip)) (\<lambda>addr.
              bnd (modify (inode_upd i (\<lambda>ip. ip\<lparr>i_addrs := (i_addrs ip)[NDIRECT := addr]\<rparr>))) (\<lambda>_. ret addr))
            else ret (i_addrs ip ! NDIRECT)) (\<lambda>ind.
       bnd (bread (i_dev ip) ind) (\<lambda>bp.
       bnd (fetch (\<lambda>s. bld32 (b_data (bufs s ! bp)) (4 * (bn - NDIRECT)))) (\<lambda>addr.
       bnd (if addr = 0 then
              bnd (balloc (i_dev ip)) (\<lambda>addr.
              bnd (modify (\<lambda>s. set_data bp (bst32 (b_data (bufs s ! bp)) (4 * (bn - NDIRECT)) addr) s)) (\<lambda>_.
              bnd (log_write bp) (\<lambda>_. ret addr)))
            else ret addr) (\<lambda>addr.
       bnd (brelse bp) (\<lambda>_. ret addr)))))
     else panic ''bmap: out of range'')"

definition itrunc_direct :: "nat \<Rightarrow> nat \<Rightarrow> ('a fs_scheme, unit) kernel" where
  "itrunc_direct i k =
     bnd (fetch (\<lambda>s. inodes s ! i)) (\<lambda>ip.
     whenk (i_addrs ip ! k \<noteq> 0)
       (bnd (bfree (i_dev ip) (i_addrs ip ! k)) (\<lambda>_.
        modify (inode_upd i (\<lambda>ip. ip\<lparr>i_addrs := (i_addrs ip)[k := 0]\<rparr>)))))"

definition itrunc_entry :: "uint \<Rightarrow> nat \<Rightarrow> nat \<Rightarrow> ('a fs_scheme, unit) kernel" where
  "itrunc_entry dev bp j =
     bnd (fetch (\<lambda>s. bld32 (b_data (bufs s ! bp)) (4 * j))) (\<lambda>a.
     whenk (a \<noteq> 0) (bfree dev a))"

definition itrunc :: "nat \<Rightarrow> ('a fs_scheme, unit) kernel" where
  "itrunc i =
     bnd (for_each (itrunc_direct i) [0..<NDIRECT]) (\<lambda>_.
     bnd (fetch (\<lambda>s. inodes s ! i)) (\<lambda>ip.
     bnd (whenk (i_addrs ip ! NDIRECT \<noteq> 0)
       (bnd (bread (i_dev ip) (i_addrs ip ! NDIRECT)) (\<lambda>bp.
        bnd (for_each (itrunc_entry (i_dev ip) bp) [0..<NINDIRECT]) (\<lambda>_.
        bnd (brelse bp) (\<lambda>_.
        bnd (bfree (i_dev ip) (i_addrs ip ! NDIRECT)) (\<lambda>_.
        modify (inode_upd i (\<lambda>ip. ip\<lparr>i_addrs := (i_addrs ip)[NDIRECT := 0]\<rparr>)))))))) (\<lambda>_.
     bnd (modify (inode_upd i (\<lambda>ip. ip\<lparr>i_size := 0\<rparr>))) (\<lambda>_. iupdate i))))"

definition iput :: "nat \<Rightarrow> ('a fs_scheme, unit) kernel" where
  "iput i =
     bnd (acquiresleep (ChanInodeLock i) (ilock_of i) (set_ilock i)) (\<lambda>_.
     bnd (fetch (\<lambda>s. inodes s ! i)) (\<lambda>ip.
     bnd (whenk (i_valid ip \<and> i_nlink ip = 0 \<and> i_ref ip = 1)
       (bnd (itrunc i) (\<lambda>_.
        bnd (modify (inode_upd i (\<lambda>ip. ip\<lparr>i_type := 0\<rparr>))) (\<lambda>_.
        bnd (iupdate i) (\<lambda>_.
        modify (inode_upd i (\<lambda>ip. ip\<lparr>i_valid := False\<rparr>))))))) (\<lambda>_.
     bnd (releasesleep (ChanInodeLock i) (set_ilock i)) (\<lambda>_.
     modify (inode_upd i (\<lambda>ip. ip\<lparr>i_ref := i_ref ip - 1\<rparr>))))))"

definition iunlockput :: "nat \<Rightarrow> ('a fs_scheme, unit) kernel" where
  "iunlockput i = bnd (iunlock i) (\<lambda>_. iput i)"

record stat =
  st_type :: ushort
  st_dev :: uint
  st_ino :: uint
  st_nlink :: ushort
  st_size :: uint
  st_uid :: ushort
  st_gid :: ushort
  st_mode :: ushort

definition stati :: "inode \<Rightarrow> stat" where
  "stati ip = \<lparr>st_type = i_type ip, st_dev = i_dev ip, st_ino = i_inum ip, st_nlink = i_nlink ip,
     st_size = i_size ip, st_uid = i_uid ip, st_gid = i_gid ip, st_mode = i_mode ip\<rparr>"

subsection \<open>Reading and writing\<close>

text \<open>
  The iterations of the loops of \<open>readi\<close> and \<open>writei\<close>: the file block, the offset in it and
  the number of bytes, \<open>m = min(n - tot, BSIZE - off%BSIZE)\<close>.
\<close>

function chunks :: "nat \<Rightarrow> nat \<Rightarrow> (nat \<times> nat \<times> nat) list" where
  "chunks off n =
     (if n = 0 then []
      else let m = min n (BSIZE - off mod BSIZE)
           in (off div BSIZE, off mod BSIZE, m) # chunks (off + m) (n - m))"
  by pat_completeness auto
termination
  by (relation "measure snd") (auto simp: BSIZE_def)

declare chunks.simps [simp del]

definition read_chunk :: "nat \<Rightarrow> nat \<times> nat \<times> nat \<Rightarrow> ('a fs_scheme, byte list) kernel" where
  "read_chunk i c =
     (case c of (blk, bo, m) \<Rightarrow>
       bnd (bmap i blk) (\<lambda>addr.
       bnd (fetch (\<lambda>s. i_dev (inodes s ! i))) (\<lambda>dev.
       bnd (bread dev addr) (\<lambda>bp.
       bnd (fetch (\<lambda>s. map (b_data (bufs s ! bp)) [bo..<bo + m])) (\<lambda>bytes.
       bnd (brelse bp) (\<lambda>_. ret bytes))))))"

definition readi ::
  "'a fs_scheme devsw \<Rightarrow> nat \<Rightarrow> uint \<Rightarrow> uint \<Rightarrow> ('a fs_scheme, int \<times> byte list) kernel" where
  "readi dv i off n =
     bnd (fetch (\<lambda>s. inodes s ! i)) (\<lambda>ip.
     if i_type ip = T_DEV then
       (if sint (i_major ip) < 0 \<or> sint (i_major ip) \<ge> NDEV then ret (-1, [])
        else case dev_read dv (nat (sint (i_major ip))) of
               None \<Rightarrow> ret (-1, []) | Some f \<Rightarrow> f i (sint n))
     else if off > i_size ip \<or> off + n < off then ret (-1, [])
     else
       let n = (if off + n > i_size ip then i_size ip - off else n) in
       bnd (map_each (read_chunk i) (chunks (unat off) (unat n))) (\<lambda>bs.
       ret (sint n, concat bs)))"

definition write_chunk :: "nat \<Rightarrow> (nat \<times> nat \<times> nat) \<times> byte list \<Rightarrow> ('a fs_scheme, unit) kernel" where
  "write_chunk i c =
     (case c of ((blk, bo, m), src) \<Rightarrow>
       bnd (bmap i blk) (\<lambda>addr.
       bnd (fetch (\<lambda>s. i_dev (inodes s ! i))) (\<lambda>dev.
       bnd (bread dev addr) (\<lambda>bp.
       bnd (modify (\<lambda>s. set_data bp
              (\<lambda>k. if bo \<le> k \<and> k < bo + m then src ! (k - bo) else b_data (bufs s ! bp) k) s)) (\<lambda>_.
       bnd (log_write bp) (\<lambda>_. brelse bp))))))"

text \<open>The bytes each iteration of \<open>writei\<close> takes from the source.\<close>

primrec slices :: "(nat \<times> nat \<times> nat) list \<Rightarrow> byte list \<Rightarrow> ((nat \<times> nat \<times> nat) \<times> byte list) list" where
  "slices [] src = []"
| "slices (c # cs) src = (case c of (blk, bo, m) \<Rightarrow> (c, take m src) # slices cs (drop m src))"

definition writei ::
  "'a fs_scheme devsw \<Rightarrow> nat \<Rightarrow> byte list \<Rightarrow> uint \<Rightarrow> uint \<Rightarrow> ('a fs_scheme, int) kernel" where
  "writei dv i src off n =
     bnd (fetch (\<lambda>s. inodes s ! i)) (\<lambda>ip.
     if i_type ip = T_DEV then
       (if sint (i_major ip) < 0 \<or> sint (i_major ip) \<ge> NDEV then ret (-1)
        else case dev_write dv (nat (sint (i_major ip))) of
               None \<Rightarrow> ret (-1) | Some f \<Rightarrow> f i src (sint n))
     else if off > i_size ip \<or> off + n < off then ret (-1)
     else if off + n > of_nat (MAXFILE * BSIZE) then ret (-1)
     else
       bnd (for_each (write_chunk i) (slices (chunks (unat off) (unat n)) src)) (\<lambda>_.
       bnd (fetch (\<lambda>s. i_size (inodes s ! i))) (\<lambda>size.
       bnd (whenk (n > 0 \<and> off + n > size)
              (bnd (modify (inode_upd i (\<lambda>ip. ip\<lparr>i_size := off + n\<rparr>))) (\<lambda>_. iupdate i))) (\<lambda>_.
       ret (sint n)))))"

end
