(* ===== verification/Dir.thy ===== *)
theory Dir
  imports Fs
begin

text \<open>
  The upper half of \<^verbatim>\<open>fs.c\<close>: directories and path names. A directory is a file of 16-byte
  entries; \<open>dirlookup\<close> consults the name cache of \<^verbatim>\<open>namecache.c\<close> before it scans them, and
  \<open>namex\<close> walks a path one element at a time. A null inode pointer is \<open>None\<close>; the offset
  \<open>dirlookup\<close> stores through \<open>poff\<close> is part of its result.
\<close>

subsection \<open>Directory entries\<close>

definition DIRENT_SIZE :: nat where "DIRENT_SIZE = 16"

definition de_inum :: "byte list \<Rightarrow> ushort" where
  "de_inum de = join16 (de ! 0) (de ! 1)"

definition de_name :: "byte list \<Rightarrow> byte list" where
  "de_name de = drop 2 de"

definition mk_dirent :: "ushort \<Rightarrow> byte list \<Rightarrow> byte list" where
  "mk_dirent inum name = ucast inum # ucast (drop_bit 8 inum) # name"

definition namecmp :: "byte list \<Rightarrow> byte list \<Rightarrow> int" where
  "namecmp s t = strncmp s t DIRSIZ"

text \<open>The offsets \<^verbatim>\<open>for(off = 0; off < dp->size; off += sizeof(de))\<close> visits.\<close>

definition dirent_offs :: "uint \<Rightarrow> nat list" where
  "dirent_offs sz = map (\<lambda>k. k * DIRENT_SIZE) [0..<(unat sz + DIRENT_SIZE - 1) div DIRENT_SIZE]"

definition read_dirent ::
  "'a fs_scheme devsw \<Rightarrow> string \<Rightarrow> nat \<Rightarrow> nat \<Rightarrow> ('a fs_scheme, byte list) kernel" where
  "read_dirent dv msg dp off =
     bnd (readi dv dp (of_nat off) (of_nat DIRENT_SIZE)) (\<lambda>(r, de).
     if r \<noteq> int DIRENT_SIZE then panic msg else ret de)"

subsection \<open>Looking up and adding names\<close>

primrec dirlookup_loop ::
  "'a fs_scheme devsw \<Rightarrow> nat \<Rightarrow> byte list \<Rightarrow> nat list \<Rightarrow> ('a fs_scheme, (nat \<times> uint) option) kernel" where
  "dirlookup_loop dv dp name [] = ret None"
| "dirlookup_loop dv dp name (off # offs) =
     bnd (read_dirent dv ''dirlookup read'' dp off) (\<lambda>de.
     if de_inum de = 0 then dirlookup_loop dv dp name offs
     else if namecmp name (de_name de) = 0 then
       bnd (fetch (\<lambda>s. inodes s ! dp)) (\<lambda>ip.
       bnd (modify (\<lambda>s. s\<lparr>nc := namecache_add (i_dev ip) (i_inum ip) name (ucast (de_inum de)) (nc s)\<rparr>)) (\<lambda>_.
       bnd (iget (i_dev ip) (ucast (de_inum de))) (\<lambda>i. ret (Some (i, of_nat off)))))
     else dirlookup_loop dv dp name offs)"

definition dirlookup ::
  "'a fs_scheme devsw \<Rightarrow> nat \<Rightarrow> byte list \<Rightarrow> ('a fs_scheme, (nat \<times> uint) option) kernel" where
  "dirlookup dv dp name =
     bnd (fetch (\<lambda>s. inodes s ! dp)) (\<lambda>ip.
     if i_type ip \<noteq> T_DIR then panic ''dirlookup not DIR''
     else
       bnd (fetch (\<lambda>s. namecache_lookup (i_dev ip) (i_inum ip) name (nc s))) (\<lambda>(inum, c).
       bnd (modify (\<lambda>s. s\<lparr>nc := c\<rparr>)) (\<lambda>_.
       if inum \<noteq> 0 then bnd (iget (i_dev ip) inum) (\<lambda>i. ret (Some (i, 0)))
       else dirlookup_loop dv dp name (dirent_offs (i_size ip)))))"

text \<open>The search for an empty entry: its offset, or the one after the last.\<close>

primrec dirlink_loop ::
  "'a fs_scheme devsw \<Rightarrow> nat \<Rightarrow> nat list \<Rightarrow> nat \<Rightarrow> ('a fs_scheme, nat) kernel" where
  "dirlink_loop dv dp [] end_off = ret end_off"
| "dirlink_loop dv dp (off # offs) end_off =
     bnd (read_dirent dv ''dirlink read'' dp off) (\<lambda>de.
     if de_inum de = 0 then ret off else dirlink_loop dv dp offs end_off)"

definition dirlink ::
  "'a fs_scheme devsw \<Rightarrow> nat \<Rightarrow> byte list \<Rightarrow> uint \<Rightarrow> ('a fs_scheme, int) kernel" where
  "dirlink dv dp name inum =
     bnd (dirlookup dv dp name) (\<lambda>r.
     case r of
       Some (i, _) \<Rightarrow> bnd (iput i) (\<lambda>_. ret (-1))
     | None \<Rightarrow>
         bnd (fetch (\<lambda>s. inodes s ! dp)) (\<lambda>ip.
         bnd (dirlink_loop dv dp (dirent_offs (i_size ip))
                (length (dirent_offs (i_size ip)) * DIRENT_SIZE)) (\<lambda>off.
         bnd (writei dv dp (mk_dirent (ucast inum) (strncpy (replicate DIRSIZ 0) name DIRSIZ))
                (of_nat off) (of_nat DIRENT_SIZE)) (\<lambda>r.
         if r \<noteq> int DIRENT_SIZE then panic ''dirlink''
         else
           bnd (modify (\<lambda>s. s\<lparr>nc := namecache_add (i_dev ip) (i_inum ip) name inum (nc s)\<rparr>)) (\<lambda>_.
           ret 0)))))"

subsection \<open>Paths\<close>

text \<open>The character \<^verbatim>\<open>'/'\<close>.\<close>

definition SLASH :: byte where "SLASH = 47"

definition skip_slashes :: "byte list \<Rightarrow> byte list" where
  "skip_slashes path = dropWhile (\<lambda>c. c = SLASH) path"

definition skipelem :: "byte list \<Rightarrow> byte list \<Rightarrow> (byte list \<times> byte list) option" where
  "skipelem path name =
     (let s = skip_slashes path
      in if rd s = 0 then None
         else let el = takeWhile (\<lambda>c. c \<noteq> SLASH \<and> c \<noteq> 0) s;
                  rest = dropWhile (\<lambda>c. c \<noteq> SLASH \<and> c \<noteq> 0) s;
                  name = (if length el \<ge> DIRSIZ then take DIRSIZ el @ drop DIRSIZ name
                          else el @ 0 # drop (length el + 1) name)
              in Some (skip_slashes rest, name))"

lemma skipelem_shorter:
  assumes "skipelem path name = Some (path', name')"
  shows "length path' < length path"
proof -
  let ?s = "skip_slashes path" and ?P = "\<lambda>c. c \<noteq> SLASH \<and> c \<noteq> 0"
  have ne: "rd ?s \<noteq> 0" and p': "path' = skip_slashes (dropWhile ?P ?s)"
    using assms by (auto simp: skipelem_def Let_def split: if_splits)
  obtain c cs where s: "?s = c # cs" "c \<noteq> 0" using ne by (cases ?s) auto
  have "c \<noteq> SLASH" using s hd_dropWhile[of "\<lambda>c. c = SLASH" path] by (auto simp: skip_slashes_def)
  have "length path' \<le> length (dropWhile ?P ?s)" by (simp add: p' skip_slashes_def length_dropWhile_le)
  also have "\<dots> \<le> length cs" using s \<open>c \<noteq> SLASH\<close> by (simp add: length_dropWhile_le)
  also have "\<dots> < length ?s" using s by simp
  also have "\<dots> \<le> length path" by (simp add: skip_slashes_def length_dropWhile_le)
  finally show ?thesis .
qed

function namex_loop ::
  "'a fs_scheme devsw \<Rightarrow> bool \<Rightarrow> nat \<Rightarrow> byte list \<Rightarrow> byte list \<Rightarrow>
   ('a fs_scheme, nat option \<times> byte list) kernel" where
  "namex_loop dv parent ip path name =
     (case skipelem path name of
        None \<Rightarrow> if parent then bnd (iput ip) (\<lambda>_. ret (None, name)) else ret (Some ip, name)
      | Some (path', name') \<Rightarrow>
          bnd (ilock ip) (\<lambda>_.
          bnd (fetch (\<lambda>s. i_type (inodes s ! ip))) (\<lambda>type.
          if type \<noteq> T_DIR then bnd (iunlockput ip) (\<lambda>_. ret (None, name'))
          else if parent \<and> rd path' = 0 then bnd (iunlock ip) (\<lambda>_. ret (Some ip, name'))
          else
            bnd (dirlookup dv ip name') (\<lambda>r.
            case r of
              None \<Rightarrow> bnd (iunlockput ip) (\<lambda>_. ret (None, name'))
            | Some (next', _) \<Rightarrow>
                bnd (iunlockput ip) (\<lambda>_. namex_loop dv parent next' path' name')))))"
  by pat_completeness auto
termination
  by (relation "measure (\<lambda>(dv, parent, ip, path, name). length path)") (auto simp: skipelem_shorter)

declare namex_loop.simps [simp del]

definition namex ::
  "'a fs_scheme devsw \<Rightarrow> byte list \<Rightarrow> bool \<Rightarrow> byte list \<Rightarrow>
   ('a fs_scheme, nat option \<times> byte list) kernel" where
  "namex dv path parent name =
     bnd (if rd path = SLASH then iget ROOTDEV ROOTINO
          else bnd myproc (\<lambda>p.
               bnd (fetch (\<lambda>s. p_cwd (procs s ! p))) (\<lambda>cwd.
               case cwd of None \<Rightarrow> stuck OutOfBounds | Some i \<Rightarrow> idup i))) (\<lambda>ip.
     namex_loop dv parent ip path name)"

text \<open>\<open>namei\<close> has its own buffer for the names, whose first contents are not initialised.\<close>

definition namei :: "'a fs_scheme devsw \<Rightarrow> byte list \<Rightarrow> ('a fs_scheme, nat option) kernel" where
  "namei dv path = bnd (namex dv path False (replicate DIRSIZ 0)) (\<lambda>(i, _). ret i)"

definition nameiparent ::
  "'a fs_scheme devsw \<Rightarrow> byte list \<Rightarrow> byte list \<Rightarrow> ('a fs_scheme, nat option \<times> byte list) kernel" where
  "nameiparent dv path name = namex dv path True name"

end
