(* ===== verification/Pipe.thy ===== *)
theory Pipe
  imports Dir
begin

text \<open>
  The pipes of \<^verbatim>\<open>pipe.c\<close>. A pipe is an object in a page of the page allocator; \<open>pipes\<close> maps
  the page's address to the object. \<open>pipewrite\<close> and \<open>piperead\<close> can leave the processor in the
  middle of their work, so each has a form that stops where the code calls \<open>sleep\<close> and says
  what is left to do; the functions the rest of the kernel calls are built on it.
\<close>

subsection \<open>State\<close>

definition PIPESIZE :: nat where "PIPESIZE = 512"

record pipe =
  pi_data :: "byte list"
  pi_nread :: uint
  pi_nwrite :: uint
  pi_readopen :: bool
  pi_writeopen :: bool

record pipes = fs +
  pipes :: "uint \<Rightarrow> pipe"

definition pipe_upd :: "uint \<Rightarrow> (pipe \<Rightarrow> pipe) \<Rightarrow> 'a pipes_scheme \<Rightarrow> 'a pipes_scheme" where
  "pipe_upd p f s = s\<lparr>pipes := (pipes s)(p := f (pipes s p))\<rparr>"

subsection \<open>Operations\<close>

definition pipe_full :: "pipe \<Rightarrow> bool" where
  "pipe_full pi \<longleftrightarrow> pi_nwrite pi = pi_nread pi + of_nat PIPESIZE"

definition pipe_empty :: "pipe \<Rightarrow> bool" where
  "pipe_empty pi \<longleftrightarrow> pi_nread pi = pi_nwrite pi"

text \<open>\<^verbatim>\<open>p->data[p->nwrite++ % PIPESIZE] = c\<close>.\<close>

definition pipe_put :: "byte \<Rightarrow> pipe \<Rightarrow> pipe" where
  "pipe_put c pi = pi\<lparr>pi_data := (pi_data pi)[unat (pi_nwrite pi mod of_nat PIPESIZE) := c],
                      pi_nwrite := pi_nwrite pi + 1\<rparr>"

text \<open>\<^verbatim>\<open>p->data[p->nread++ % PIPESIZE]\<close>.\<close>

definition pipe_get :: "pipe \<Rightarrow> byte" where
  "pipe_get pi = pi_data pi ! unat (pi_nread pi mod of_nat PIPESIZE)"

definition pipe_drop :: "pipe \<Rightarrow> pipe" where
  "pipe_drop pi = pi\<lparr>pi_nread := pi_nread pi + 1\<rparr>"

definition pipeclose :: "uint \<Rightarrow> bool \<Rightarrow> ('a pipes_scheme, unit) kernel" where
  "pipeclose p writable =
     bnd (if writable
          then bnd (modify (pipe_upd p (\<lambda>pi. pi\<lparr>pi_writeopen := False\<rparr>))) (\<lambda>_. wakeup (ChanPipeRead p))
          else bnd (modify (pipe_upd p (\<lambda>pi. pi\<lparr>pi_readopen := False\<rparr>))) (\<lambda>_. wakeup (ChanPipeWrite p))) (\<lambda>_.
     bnd (fetch (\<lambda>s. pipes s p)) (\<lambda>pi.
     whenk (\<not> pi_readopen pi \<and> \<not> pi_writeopen pi) (kfree p)))"

text \<open>Where a run of \<open>pipewrite\<close> stops: at its end, at the error return, or in \<open>sleep\<close> with
  some bytes still to write.\<close>

datatype pipe_stop = PipeDone | PipeBroken | PipeBlocked "byte list"

primrec pipewrite_loop :: "uint \<Rightarrow> byte list \<Rightarrow> ('a pipes_scheme, pipe_stop) kernel" where
  "pipewrite_loop p [] = bnd (wakeup (ChanPipeRead p)) (\<lambda>_. ret PipeDone)"
| "pipewrite_loop p (c # cs) =
     bnd (fetch (\<lambda>s. pipes s p)) (\<lambda>pi.
     if pipe_full pi then
       bnd myproc (\<lambda>i.
       bnd (fetch (\<lambda>s. p_killed (procs s ! i))) (\<lambda>killed.
       if \<not> pi_readopen pi \<or> killed then ret PipeBroken
       else bnd (wakeup (ChanPipeRead p)) (\<lambda>_.
            bnd (sleep_enter (ChanPipeWrite p)) (\<lambda>_. ret (PipeBlocked (c # cs))))))
     else bnd (modify (pipe_upd p (pipe_put c))) (\<lambda>_. pipewrite_loop p cs))"

definition pipewrite :: "uint \<Rightarrow> byte list \<Rightarrow> int \<Rightarrow> ('a pipes_scheme, int) kernel" where
  "pipewrite p addr n =
     bnd (pipewrite_loop p (take (nat n) addr)) (\<lambda>r.
     case r of
       PipeDone \<Rightarrow> ret n
     | PipeBroken \<Rightarrow> ret (-1)
     | PipeBlocked _ \<Rightarrow> sleeps (ChanPipeWrite p))"

primrec piperead_loop :: "uint \<Rightarrow> nat \<Rightarrow> ('a pipes_scheme, byte list) kernel" where
  "piperead_loop p 0 = ret []"
| "piperead_loop p (Suc n) =
     bnd (fetch (\<lambda>s. pipes s p)) (\<lambda>pi.
     if pipe_empty pi then ret []
     else bnd (modify (pipe_upd p pipe_drop)) (\<lambda>_.
          bnd (piperead_loop p n) (\<lambda>cs. ret (pipe_get pi # cs))))"

text \<open>One run of \<open>piperead\<close>: \<open>None\<close> when it sleeps.\<close>

definition piperead_run :: "uint \<Rightarrow> int \<Rightarrow> ('a pipes_scheme, (int \<times> byte list) option) kernel" where
  "piperead_run p n =
     bnd (fetch (\<lambda>s. pipes s p)) (\<lambda>pi.
     if pipe_empty pi \<and> pi_writeopen pi then
       bnd myproc (\<lambda>i.
       bnd (fetch (\<lambda>s. p_killed (procs s ! i))) (\<lambda>killed.
       if killed then ret (Some (-1, []))
       else bnd (sleep_enter (ChanPipeRead p)) (\<lambda>_. ret None)))
     else
       bnd (piperead_loop p (nat n)) (\<lambda>cs.
       bnd (wakeup (ChanPipeWrite p)) (\<lambda>_. ret (Some (int (length cs), cs)))))"

definition piperead :: "uint \<Rightarrow> int \<Rightarrow> ('a pipes_scheme, int \<times> byte list) kernel" where
  "piperead p n =
     bnd (piperead_run p n) (\<lambda>r.
     case r of Some x \<Rightarrow> ret x | None \<Rightarrow> sleeps (ChanPipeRead p))"

end
