(* ===== verification/Block_Store.thy ===== *)
theory Block_Store
  imports Log_Spec Fs
begin

text \<open>
  The interface the file system has to the blocks below it. Inside a transaction it gets a
  block into a buffer, reads it, replaces its contents and logs it, and releases it. The
  locale states what these operations promise in terms of the contents of all blocks and of
  the blocks held, and derives the patterns the file system is written in; the buffer cache
  and the log provide it.
\<close>

subsection \<open>The interface\<close>

locale block_store =
  fixes st :: "'s \<Rightarrow> (uint \<Rightarrow> block) \<Rightarrow> uint set \<Rightarrow> bool"
    and hold :: "'s \<Rightarrow> nat \<Rightarrow> uint \<Rightarrow> bool"
    and contents :: "nat \<Rightarrow> 's \<Rightarrow> block"
    and same :: "'s \<Rightarrow> 's \<Rightarrow> bool"
    and exists_blk :: "'s \<Rightarrow> uint \<Rightarrow> bool"
    and budget :: "uint set"
    and get :: "uint \<Rightarrow> ('s, nat) kernel"
    and put :: "nat \<Rightarrow> (block \<Rightarrow> block) \<Rightarrow> ('s, unit) kernel"
    and rel :: "nat \<Rightarrow> ('s, unit) kernel"
  assumes same_refl: "same s s"
    and same_trans: "same s t \<Longrightarrow> same t u \<Longrightarrow> same s u"
    and get_law: "st s v L \<Longrightarrow> exists_blk s bn \<Longrightarrow> bn \<notin> L \<Longrightarrow> card L < 3 \<Longrightarrow>
      wp (get bn) (\<lambda>i s'. same s s' \<and> st s' v (insert bn L) \<and> hold s' i bn \<and>
        (\<forall>j x. hold s j x \<longrightarrow> hold s' j x \<and> j \<noteq> i)) s"
    and hold_law: "st s v L \<Longrightarrow> hold s i bn \<Longrightarrow> contents i s = v bn"
    and put_law: "st s v L \<Longrightarrow> hold s i bn \<Longrightarrow> bn \<in> budget \<Longrightarrow>
      wp (put i f) (\<lambda>_ s'. same s s' \<and> st s' (v(bn := f (v bn))) L \<and> (\<forall>j x. hold s j x \<longrightarrow> hold s' j x)) s"
    and rel_law: "st s v L \<Longrightarrow> hold s i bn \<Longrightarrow>
      wp (rel i) (\<lambda>_ s'. same s s' \<and> st s' v (L - {bn}) \<and> (\<forall>j x. j \<noteq> i \<longrightarrow> hold s j x \<longrightarrow> hold s' j x)) s"
begin

text \<open>Reading a block and releasing it changes no contents.\<close>

lemma peek:
  assumes "st s v L" "exists_blk s bn" "bn \<notin> L" "card L < 3"
  shows "wp (bnd (get bn) (\<lambda>bp. bnd (fetch (\<lambda>s. f (contents bp s))) (\<lambda>x. bnd (rel bp) (\<lambda>_. ret x))))
    (\<lambda>x s'. x = f (v bn) \<and> same s s' \<and> st s' v L \<and> (\<forall>j y. hold s j y \<longrightarrow> hold s' j y)) s"
proof (rule wp_bndI[OF get_law[OF assms]], elim conjE)
  fix i t assume t: "same s t" "st t v (insert bn L)" "hold t i bn" "\<forall>j x. hold s j x \<longrightarrow> hold t j x \<and> j \<noteq> i"
  have "insert bn L - {bn} = L" using assms(3) by simp
  then show "wp (bnd (fetch (\<lambda>s. f (contents i s))) (\<lambda>x. bnd (rel i) (\<lambda>_. ret x)))
    (\<lambda>x s'. x = f (v bn) \<and> same s s' \<and> st s' v L \<and> (\<forall>j y. hold s j y \<longrightarrow> hold s' j y)) t"
    using rel_law[OF t(2,3)] same_trans[OF t(1)] t(4)
    by (auto simp: wp_simps hold_law[OF t(2,3)] elim!: wp_mono)
qed

text \<open>Reading a block, replacing its contents and releasing it.\<close>

lemma poke:
  assumes "st s v L" "exists_blk s bn" "bn \<notin> L" "card L < 3" "bn \<in> budget"
  shows "wp (bnd (get bn) (\<lambda>bp. bnd (put bp f) (\<lambda>_. rel bp)))
    (\<lambda>_ s'. same s s' \<and> st s' (v(bn := f (v bn))) L \<and> (\<forall>j y. hold s j y \<longrightarrow> hold s' j y)) s"
proof (rule wp_bndI[OF get_law[OF assms(1-4)]], elim conjE)
  fix i t assume t: "same s t" "st t v (insert bn L)" "hold t i bn" "\<forall>j x. hold s j x \<longrightarrow> hold t j x \<and> j \<noteq> i"
  have L: "insert bn L - {bn} = L" using assms(3) by simp
  show "wp (bnd (put i f) (\<lambda>_. rel i)) (\<lambda>_ s'. same s s' \<and> st s' (v(bn := f (v bn))) L \<and>
      (\<forall>j y. hold s j y \<longrightarrow> hold s' j y)) t"
  proof (rule wp_bndI[OF put_law[OF t(2,3) assms(5)]], elim conjE)
    fix x u assume u: "same t u" "st u (v(bn := f (v bn))) (insert bn L)" "\<forall>j x. hold t j x \<longrightarrow> hold u j x"
    then have "hold u i bn" using t(3) by blast
    from rel_law[OF u(2) this] show "wp (rel i) (\<lambda>_ s'. same s s' \<and> st s' (v(bn := f (v bn))) L \<and>
        (\<forall>j y. hold s j y \<longrightarrow> hold s' j y)) u"
      unfolding L by (rule wp_mono) (use t u same_trans in blast)
  qed
qed

end

subsection \<open>The cache and the log provide it\<close>

text \<open>
  A state inside a transaction that may write the blocks \<open>A\<close>: the cache presents the contents
  \<open>v\<close>, the blocks \<open>L\<close> are held, and the log and the cache have room for all of \<open>A\<close>.
\<close>

definition op :: "uint set \<Rightarrow> 'a log_scheme \<Rightarrow> (uint \<Rightarrow> block) \<Rightarrow> uint set \<Rightarrow> bool" where
  "op A s v L \<longleftrightarrow> (\<exists>d w D. bio s d w v D L \<and> trans_ok s D \<and> D \<subseteq> A \<and> finite A \<and> card A + 3 \<le> NBUF \<and>
     int (card A) < log_size s - 1 \<and> 1 \<le> outstanding s \<and> (\<forall>bn \<in> A. home s bn) \<and> finite L \<and>
     (\<forall>bn \<in> L. bn \<in> D \<or> d bn = v bn))"

text \<open>\<open>log_write\<close> as the file system uses it: right after changing the buffer.\<close>

definition change :: "nat \<Rightarrow> (block \<Rightarrow> block) \<Rightarrow> ('a log_scheme, unit) kernel" where
  "change i f = bnd (modify (\<lambda>s. set_data i (f (b_data (bufs s ! i))) s)) (\<lambda>_. log_write i)"

abbreviation on_disk :: "'a bcache_scheme \<Rightarrow> uint \<Rightarrow> bool" where
  "on_disk s bn \<equiv> bn < disksize s"

lemma op_bread:
  assumes "op A s v L" "on_disk s bn" "bn \<notin> L" "card L < 3"
  shows "wp (bread 1 bn) (\<lambda>i s'. lframe s s' \<and> op A s' v (insert bn L) \<and> held s' i bn \<and>
    (\<forall>j x. held s j x \<longrightarrow> held s' j x \<and> j \<noteq> i)) s"
proof -
  obtain d w D where o: "bio s d w v D L" "trans_ok s D" "D \<subseteq> A" "finite A" "card A + 3 \<le> NBUF"
    "int (card A) < log_size s - 1" "1 \<le> outstanding s" "\<forall>bn \<in> A. home s bn" "finite L"
    "\<forall>bn \<in> L. bn \<in> D \<or> d bn = v bn"
    using assms(1) by (auto simp: op_def)
  have "card (D \<union> L) \<le> card A + card L"
    using card_Un_le[of D L] card_mono[OF o(4,3)] by linarith
  then have room: "bn \<in> D \<or> card (D \<union> L) < NBUF" using o(5) assms(4) by linarith
  have sync: "bn \<in> D \<or> d bn = v bn" using bio_clean[OF o(1) _ assms(3)] by auto
  show ?thesis
  proof (rule wp_mono[OF bread_rule[OF o(1) assms(2,3) room]], elim conjE)
    fix i s' assume s': "frame s s'" "bio s' d w v D (insert bn L)" "held s' i bn"
      "\<forall>j x. held s j x \<longrightarrow> held s' j x \<and> j \<noteq> i"
    have "op A s' v (insert bn L)"
      unfolding op_def using s'(2) o sync frame_log_sel[OF s'(1)] trans_ok_frame[OF s'(1)]
      by (intro exI[of _ d] exI[of _ w] exI[of _ D]) simp
    then show "lframe s s' \<and> op A s' v (insert bn L) \<and> held s' i bn \<and>
      (\<forall>j x. held s j x \<longrightarrow> held s' j x \<and> j \<noteq> i)" using s' frame_lframe by blast
  qed
qed

lemma op_held_data:
  assumes "op A s v L" "held s i bn"
  shows "b_data (bufs s ! i) = v bn"
  using assms held_data by (auto simp: op_def)

lemma op_change:
  assumes "op A s v L" "held s i bn" "bn \<in> A"
  shows "wp (change i f) (\<lambda>_ s'. lframe s s' \<and> op A s' (v(bn := f (v bn))) L \<and>
    (\<forall>j x. held s j x \<longrightarrow> held s' j x)) s"
proof -
  obtain d w D where o: "bio s d w v D L" "trans_ok s D" "D \<subseteq> A" "finite A" "card A + 3 \<le> NBUF"
    "int (card A) < log_size s - 1" "1 \<le> outstanding s" "\<forall>bn \<in> A. home s bn" "finite L"
    "\<forall>bn \<in> L. bn \<in> D \<or> d bn = v bn"
    using assms(1) by (auto simp: op_def)
  let ?v = "v(bn := f (v bn))"
  let ?s1 = "set_data i (f (v bn)) s"
  note S = set_data_rule[OF o(1) assms(2), where x = "f (v bn)"]
  note F = frame_log_sel[OF S(1)] trans_ok_frame[OF S(1)]
  have "lh_n s = int (card D)" using trans_okD(4)[OF o(2)] o(2) by (simp add: trans_ok_def)
  then have room: "lh_n s < log_size s - 1" using card_mono[OF o(4,3)] o(6) by linarith
  have t: "trans_ok ?s1 D" "home ?s1 bn" "lh_n ?s1 < log_size ?s1 - 1" "1 \<le> outstanding ?s1"
    using F o(2,7,8) assms(3) room by simp_all
  have "wp (log_write i) (\<lambda>_ s'. lframe s s' \<and> op A s' ?v L \<and> (\<forall>j x. held s j x \<longrightarrow> held s' j x)) ?s1"
  proof (rule wp_mono[OF log_write_rule[OF S(2) S(3)[OF assms(2)] t]], elim conjE)
    fix u s' assume s': "lframe ?s1 s'" "bio s' d w ?v (insert bn D) L" "trans_ok s' (insert bn D)"
      "outstanding s' = outstanding ?s1" "\<forall>j y. held ?s1 j y \<longrightarrow> held s' j y"
    have fr: "lframe s s'" using frame_lframe[OF S(1)] s'(1) by (rule lframe_trans)
    note G = lframe_sel[OF fr]
    have "op A s' ?v L"
      unfolding op_def using s'(2-4) o F G assms(3)
      by (intro exI[of _ d] exI[of _ w] exI[of _ "insert bn D"]) auto
    then show "lframe s s' \<and> op A s' ?v L \<and> (\<forall>j x. held s j x \<longrightarrow> held s' j x)"
      using fr s'(5) S(3) by blast
  qed
  then show ?thesis by (simp add: change_def wp_simps op_held_data[OF assms(1,2)])
qed

lemma op_locked:
  assumes "held s i bn" "bio s d w v D L"
  shows "bn \<in> L"
proof -
  have "i < NBUF" "caches bn (bufs s ! i)" "sl_locked (b_lock (bufs s ! i))" "L = locked_blocks s"
    using assms by (auto simp: held_def bio_def)
  then show ?thesis by (auto simp: blocks_with_def)
qed

lemma op_brelse:
  assumes "op A s v L" "held s i bn"
  shows "wp (brelse i) (\<lambda>_ s'. lframe s s' \<and> op A s' v (L - {bn}) \<and>
    (\<forall>j x. j \<noteq> i \<longrightarrow> held s j x \<longrightarrow> held s' j x)) s"
proof -
  obtain d w D where o: "bio s d w v D L" "trans_ok s D" "D \<subseteq> A" "finite A" "card A + 3 \<le> NBUF"
    "int (card A) < log_size s - 1" "1 \<le> outstanding s" "\<forall>bn \<in> A. home s bn" "finite L"
    "\<forall>bn \<in> L. bn \<in> D \<or> d bn = v bn"
    using assms(1) by (auto simp: op_def)
  have "bn \<in> L" using assms(2) o(1) by (rule op_locked)
  then have sync: "bn \<in> D \<or> d bn = v bn" using o(10) by blast
  show ?thesis
  proof (rule wp_mono[OF brelse_rule[OF o(1) assms(2) sync]], elim conjE)
    fix u s' assume s': "frame s s'" "bio s' d w v D (L - {bn})" "\<forall>j y. j \<noteq> i \<longrightarrow> held s j y \<longrightarrow> held s' j y"
    have "op A s' v (L - {bn})"
      unfolding op_def using s'(2) o frame_log_sel[OF s'(1)] trans_ok_frame[OF s'(1)]
      by (intro exI[of _ d] exI[of _ w] exI[of _ D]) simp
    then show "lframe s s' \<and> op A s' v (L - {bn}) \<and> (\<forall>j x. j \<noteq> i \<longrightarrow> held s j x \<longrightarrow> held s' j x)"
      using s' frame_lframe by blast
  qed
qed

interpretation bst: block_store "op A" held "\<lambda>i s. b_data (bufs s ! i)" lframe on_disk A "bread 1" change brelse
  for A
proof
  fix s t u :: "'a log_scheme" and v L bn i f
  show "lframe s s" by simp
  show "lframe s t \<Longrightarrow> lframe t u \<Longrightarrow> lframe s u" by (rule lframe_trans)
  show "op A s v L \<Longrightarrow> on_disk s bn \<Longrightarrow> bn \<notin> L \<Longrightarrow> card L < 3 \<Longrightarrow>
      wp (bread 1 bn) (\<lambda>i s'. lframe s s' \<and> op A s' v (insert bn L) \<and> held s' i bn \<and>
        (\<forall>j x. held s j x \<longrightarrow> held s' j x \<and> j \<noteq> i)) s" by (rule op_bread)
  show "op A s v L \<Longrightarrow> held s i bn \<Longrightarrow> b_data (bufs s ! i) = v bn" by (rule op_held_data)
  show "op A s v L \<Longrightarrow> held s i bn \<Longrightarrow> bn \<in> A \<Longrightarrow>
      wp (change i f) (\<lambda>_ s'. lframe s s' \<and> op A s' (v(bn := f (v bn))) L \<and> (\<forall>j x. held s j x \<longrightarrow> held s' j x)) s"
    by (rule op_change)
  show "op A s v L \<Longrightarrow> held s i bn \<Longrightarrow>
      wp (brelse i) (\<lambda>_ s'. lframe s s' \<and> op A s' v (L - {bn}) \<and> (\<forall>j x. j \<noteq> i \<longrightarrow> held s j x \<longrightarrow> held s' j x)) s"
    by (rule op_brelse)
qed

end
