(* ===== verification/Fs_Spec.thy ===== *)
theory Fs_Spec
  imports Block_Store Crash
begin

text \<open>
  What the lower half of the file system does, over the interface of \<^verbatim>\<open>Block_Store\<close>: the inode
  format is a faithful encoding, the block allocator takes the first free block and zeroes it,
  an inode written by \<open>iupdate\<close> is the one \<open>ilock\<close> reads back, and \<open>readi\<close> and \<open>writei\<close> read and
  write the bytes of the file.
\<close>

subsection \<open>The inode format\<close>

lemma bld16_bst16_same [simp]: "bld16 (bst16 b i w) i = w"
  by (simp add: bld16_def bst16_def)

lemma bst_outside:
  "k < i \<or> i + 2 \<le> k \<Longrightarrow> bst16 b i w k = b k" "k < i \<or> i + 4 \<le> k \<Longrightarrow> bst32 b i w' k = b k"
  by (auto simp: bst16_def bst32_def)

lemma bld16_other:
  "i + 2 \<le> j \<or> j + 2 \<le> i \<Longrightarrow> bld16 (bst16 b i w) j = bld16 b j"
  "i + 4 \<le> j \<or> j + 2 \<le> i \<Longrightarrow> bld16 (bst32 b i w') j = bld16 b j"
  "i + 2 \<le> j \<or> j + 4 \<le> i \<Longrightarrow> bld32 (bst16 b i w) j = bld32 b j"
  by (auto simp: bld16_def bst16_def bst32_def bld32_def)

lemma put_addrs_before:
  assumes "j + 4 \<le> o' + 20"
  shows "bld32 (put_addrs o' as b) j = bld32 b j"
proof -
  have "bld32 (fold (\<lambda>k b. bst32 b (o' + 20 + 4 * k) (as ! k)) [0..<n] b) j = bld32 b j" for n
    using assms by (induction n) (simp_all add: bld32_bst32_other)
  then show ?thesis by (simp only: put_addrs_def)
qed

lemma put_addrs_before16:
  assumes "j + 2 \<le> o' + 20"
  shows "bld16 (put_addrs o' as b) j = bld16 b j"
proof -
  have "bld16 (fold (\<lambda>k b. bst32 b (o' + 20 + 4 * k) (as ! k)) [0..<n] b) j = bld16 b j" for n
    using assms by (induction n) (simp_all add: bld16_other)
  then show ?thesis by (simp only: put_addrs_def)
qed

lemma put_addrs_at:
  assumes "k < NDIRECT + 1"
  shows "bld32 (put_addrs o' as b) (o' + 20 + 4 * k) = as ! k"
proof -
  have "bld32 (fold (\<lambda>k b. bst32 b (o' + 20 + 4 * k) (as ! k)) [0..<n] b) (o' + 20 + 4 * k) = as ! k"
    if "k < n" for n
    using that
  proof (induction n)
    case (Suc n)
    then show ?case by (cases "k = n") (auto simp: bld32_bst32_other)
  qed simp
  with assms show ?thesis by (simp only: put_addrs_def)
qed

lemma put_addrs_outside: "k < o' \<or> o' + 72 \<le> k \<Longrightarrow> put_addrs o' as b k = b k"
proof -
  assume k: "k < o' \<or> o' + 72 \<le> k"
  have "fold (\<lambda>k b. bst32 b (o' + 20 + 4 * k) (as ! k)) [0..<n] b k = b k" if "n \<le> 13" for n
    using that k by (induction n) (auto simp: bst_outside)
  from this[of 13] show ?thesis by (simp add: put_addrs_def NDIRECT_def)
qed

lemma put_dinode_outside: "k < o' \<or> o' + 72 \<le> k \<Longrightarrow> put_dinode o' di b k = b k"
  by (auto simp: put_dinode_def Let_def put_addrs_outside bst_outside)

lemma get_put_dinode:
  assumes "length (d_addrs di) = NDIRECT + 1"
  shows "get_dinode (put_dinode o' di b) o' = di"
proof -
  have "map (\<lambda>k. bld32 (put_dinode o' di b) (o' + 20 + 4 * k)) [0..<NDIRECT + 1] = d_addrs di"
    by (rule nth_equalityI) (use assms in \<open>auto simp: put_dinode_def Let_def put_addrs_at simp del: upt_Suc\<close>)
  then show ?thesis
    by (simp add: get_dinode_def del: upt_Suc)
       (simp add: put_dinode_def Let_def put_addrs_before put_addrs_before16 bld16_other bld32_bst32_other)
qed

text \<open>Reading one inode of a block only depends on its own bytes.\<close>

lemma get_dinode_cong:
  assumes "\<And>k. o' \<le> k \<Longrightarrow> k < o' + 72 \<Longrightarrow> b' k = b k"
  shows "get_dinode b' o' = get_dinode b o'"
  using assms by (simp add: get_dinode_def bld16_def bld32_def NDIRECT_def)

lemma dip_off_bound: "dip_off inum + 128 \<le> BSIZE"
proof -
  have "unat inum mod 32 \<le> 31" by simp
  then show ?thesis by (simp add: dip_off_def IPB_def BSIZE_def DINODE_SIZE_def)
qed

lemma dip_off_apart:
  assumes "unat inum mod IPB \<noteq> unat inum' mod IPB"
  shows "dip_off inum + 128 \<le> dip_off inum' \<or> dip_off inum' + 128 \<le> dip_off inum"
  using assms by (simp add: dip_off_def DINODE_SIZE_def) (cases "unat inum mod IPB < unat inum' mod IPB"; simp)

text \<open>C21. Writing an inode into its slot of an inode block and reading the slot gives the inode back,
  and every other inode of the block, and every byte outside the slot, is what it was.\<close>

theorem dinode_roundtrip:
  assumes "length (d_addrs di) = NDIRECT + 1"
  shows "get_dinode (put_dinode (dip_off inum) di b) (dip_off inum) = di \<and>
    (\<forall>inum'. unat inum' mod IPB \<noteq> unat inum mod IPB \<longrightarrow>
       get_dinode (put_dinode (dip_off inum) di b) (dip_off inum') = get_dinode b (dip_off inum')) \<and>
    (\<forall>k. k < dip_off inum \<or> dip_off inum + DINODE_SIZE \<le> k \<longrightarrow> put_dinode (dip_off inum) di b k = b k)"
proof (intro conjI allI impI)
  show "get_dinode (put_dinode (dip_off inum) di b) (dip_off inum) = di" by (rule get_put_dinode[OF assms])
  fix inum' :: uint assume "unat inum' mod IPB \<noteq> unat inum mod IPB"
  then have "dip_off inum + 128 \<le> dip_off inum' \<or> dip_off inum' + 128 \<le> dip_off inum"
    by (intro dip_off_apart) simp
  then show "get_dinode (put_dinode (dip_off inum) di b) (dip_off inum') = get_dinode b (dip_off inum')"
    by (intro get_dinode_cong put_dinode_outside) auto
next
  fix k assume "k < dip_off inum \<or> dip_off inum + DINODE_SIZE \<le> k"
  then show "put_dinode (dip_off inum) di b k = b k"
    by (intro put_dinode_outside) (auto simp: DINODE_SIZE_def)
qed

definition dinode_example :: dinode where
  "dinode_example = \<lparr>d_type = 2, d_major = 0, d_minor = 0, d_nlink = 1, d_size = 5, d_uid = 1000,
     d_gid = 1000, d_mode = 0x1A4, d_addrs = [60, 0, 0, 0, 0, 0, 0, 0, 0, 0, 0, 0, 0]\<rparr>"

theorem dinode_roundtrip_witness:
  "get_dinode (put_dinode (dip_off 33) dinode_example (\<lambda>_. 0)) (dip_off 33) = dinode_example"
  using dinode_roundtrip[of dinode_example 33 "\<lambda>_. 0"] by (simp add: dinode_example_def NDIRECT_def)

subsection \<open>The free map\<close>

lemma bit_used_iff: "bit_used b bi \<longleftrightarrow> bit (b (bi div 8)) (bi mod 8)"
  by (simp add: bit_used_def bit_iff_and_push_bit_not_eq_0)

lemma div_mod_eq_iff: "(a div 8 = b div 8 \<and> a mod 8 = b mod 8) = (a = (b :: nat))"
  by (metis div_mult_mod_eq)

lemma bit_used_set [simp]: "bit_used (set_bit_used bi b) bi' = (bi' = bi \<or> bit_used b bi')"
proof (cases "bi' div 8 = bi div 8")
  case True
  then have "(bi' mod 8 = bi mod 8) = (bi' = bi)" using div_mod_eq_iff[of bi' bi] by blast
  then show ?thesis using True by (auto simp: bit_used_iff set_bit_used_def bit_simps)
qed (auto simp: bit_used_iff set_bit_used_def)

lemma bit_used_clear [simp]: "bit_used (clear_bit_used bi b) bi' = (bi' \<noteq> bi \<and> bit_used b bi')"
proof (cases "bi' div 8 = bi div 8")
  case True
  then have "(bi' mod 8 = bi mod 8) = (bi' = bi)" using div_mod_eq_iff[of bi' bi] by blast
  then show ?thesis using True by (auto simp: bit_used_iff clear_bit_used_def bit_simps)
qed (auto simp: bit_used_iff clear_bit_used_def)

text \<open>Whether block \<open>b\<close> is marked in use, and the first block that is not.\<close>

definition used :: "superblock \<Rightarrow> (uint \<Rightarrow> block) \<Rightarrow> nat \<Rightarrow> bool" where
  "used sb v b \<longleftrightarrow> bit_used (v (BBLOCK b sb)) (b mod BPB)"

definition first_free :: "superblock \<Rightarrow> (uint \<Rightarrow> block) \<Rightarrow> nat option" where
  "first_free sb v = find (\<lambda>b. \<not> used sb v b) [0..<unat (sb_size sb)]"

lemma BPB_pos: "0 < BPB" by (simp add: BPB_def BSIZE_def)

lemma BBLOCK_seg: "bi < BPB \<Longrightarrow> BBLOCK (k * BPB + bi) sb = BBLOCK (k * BPB) sb"
  by (simp add: BBLOCK_def BPB_pos)

lemma used_seg: "bi < BPB \<Longrightarrow> used sb v (k * BPB + bi) = bit_used (v (BBLOCK (k * BPB) sb)) bi"
  by (simp add: used_def BBLOCK_seg mod_mult_self3)

text \<open>The search in one bitmap block, as a search among block numbers.\<close>

lemma find_map: "find P (map f xs) = map_option f (find (\<lambda>x. P (f x)) xs)"
  by (induction xs) auto

lemma find_append: "find P (xs @ ys) = (case find P xs of None \<Rightarrow> find P ys | Some x \<Rightarrow> Some x)"
  by (induction xs) auto

lemma find_cong: "(\<And>x. x \<in> set xs \<Longrightarrow> P x = Q x) \<Longrightarrow> find P xs = find Q xs"
  by (induction xs) auto

lemma upt_shift: "[x..<x + m] = map ((+) x) [0..<m]"
  by (induction m) auto

lemma find_segment:
  "map_option ((+) (k * BPB)) (find (\<lambda>bi. \<not> bit_used (v (BBLOCK (k * BPB) sb)) bi) [0..<min BPB (n - k * BPB)])
   = find (\<lambda>b. \<not> used sb v b) [k * BPB..<min (k * BPB + BPB) (max n (k * BPB))]"
proof -
  have "find (\<lambda>bi. \<not> bit_used (v (BBLOCK (k * BPB) sb)) bi) [0..<min BPB (n - k * BPB)] =
      find (\<lambda>bi. \<not> used sb v (k * BPB + bi)) [0..<min BPB (n - k * BPB)]"
    by (rule find_cong) (simp add: used_seg)
  moreover have "min (k * BPB + BPB) (max n (k * BPB)) = k * BPB + min BPB (n - k * BPB)"
    by (auto simp: min_def max_def)
  then have "[k * BPB..<min (k * BPB + BPB) (max n (k * BPB))] = map ((+) (k * BPB)) [0..<min BPB (n - k * BPB)]"
    by (simp only: upt_shift)
  ultimately show ?thesis by (simp add: find_map comp_def)
qed

text \<open>The bitmap blocks are on disk and marked in use themselves, and all blocks are on disk.\<close>

definition map_ok :: "superblock \<Rightarrow> uint \<Rightarrow> (uint \<Rightarrow> block) \<Rightarrow> bool" where
  "map_ok sb dsize v \<longleftrightarrow> sb_size sb \<le> dsize \<and> (\<forall>b < unat (sb_size sb). BBLOCK b sb < dsize) \<and>
     (\<forall>b < unat (sb_size sb). \<forall>b' < unat (sb_size sb). of_nat b = BBLOCK b' sb \<longrightarrow> used sb v b)"

lemma change_fold:
  "bnd (modify (\<lambda>s. set_data i (f (b_data (bufs s ! i))) s)) (\<lambda>_. bnd (log_write i) g) = bnd (change i f) g"
  by (simp add: change_def bnd_assoc)

lemma bzero_rule:
  assumes "op A s v L" "on_disk s bn" "bn \<notin> L" "card L < 3" "bn \<in> A"
  shows "wp (bzero 1 bn) (\<lambda>_ s'. lframe s s' \<and> op A s' (v(bn := \<lambda>_. 0)) L \<and>
    (\<forall>j y. held s j y \<longrightarrow> held s' j y)) s"
  using bst.poke[OF assms, of "\<lambda>_ _. 0"] by (simp add: bzero_def change_fold[where f = "\<lambda>_ _. 0", symmetric])

text \<open>A bitmap block without a free bit is released unchanged and the search goes on.\<close>

lemma balloc_loop_skip:
  assumes o: "op A s v L" "on_disk s (BBLOCK b (fs_sb s))" "BBLOCK b (fs_sb s) \<notin> L" "card L < 3"
    and full: "find (\<lambda>bi. \<not> bit_used (v (BBLOCK b (fs_sb s))) bi) [0..<min BPB (unat (sb_size (fs_sb s)) - b)] = None"
  shows "\<exists>s'. balloc_loop 1 (b # bs) s = balloc_loop 1 bs s' \<and> lframe s s' \<and> op A s' v L \<and>
    (\<forall>j y. held s j y \<longrightarrow> held s' j y)"
proof -
  let ?bn = "BBLOCK b (fs_sb s)"
  obtain bp t where t: "bread 1 ?bn s = Inr (bp, t)" "lframe s t" "op A t v (insert ?bn L)" "held t bp ?bn"
    "\<forall>j x. held s j x \<longrightarrow> held t j x \<and> j \<noteq> bp"
    using op_bread[OF o] by (auto simp: wp_iff)
  have d: "b_data (bufs t ! bp) = v ?bn" by (rule op_held_data[OF t(3,4)])
  obtain u where u: "brelse bp t = Inr ((), u)" "lframe t u" "op A u v (insert ?bn L - {?bn})"
    "\<forall>j x. j \<noteq> bp \<longrightarrow> held t j x \<longrightarrow> held u j x"
    using op_brelse[OF t(3,4)] by (auto simp: wp_iff)
  have "balloc_loop 1 (b # bs) s = balloc_loop 1 bs u"
    using t(1) u(1) d full by (simp add: bnd_def run_simps)
  moreover have "insert ?bn L - {?bn} = L" using o(3) by simp
  ultimately show ?thesis using u t lframe_trans[OF t(2) u(2)] by auto
qed

text \<open>One with a free bit gives the block.\<close>

lemma balloc_loop_take:
  assumes o: "op A s v L" "on_disk s (BBLOCK b (fs_sb s))" "BBLOCK b (fs_sb s) \<notin> L" "card L < 3"
    and free: "find (\<lambda>bi. \<not> bit_used (v (BBLOCK b (fs_sb s))) bi) [0..<min BPB (unat (sb_size (fs_sb s)) - b)] = Some bi"
    and A: "BBLOCK b (fs_sb s) \<in> A" "of_nat (b + bi) \<in> A" "on_disk s (of_nat (b + bi))" "of_nat (b + bi) \<notin> L"
  shows "wp (balloc_loop 1 (b # bs)) (\<lambda>r s'. r = of_nat (b + bi) \<and> lframe s s' \<and>
    op A s' (v(BBLOCK b (fs_sb s) := set_bit_used bi (v (BBLOCK b (fs_sb s))), of_nat (b + bi) := \<lambda>_. 0)) L \<and>
    (\<forall>j y. held s j y \<longrightarrow> held s' j y)) s"
proof -
  let ?bn = "BBLOCK b (fs_sb s)" and ?r = "of_nat (b + bi) :: uint"
  let ?v = "v(?bn := set_bit_used bi (v ?bn))"
  have L: "insert ?bn L - {?bn} = L" using o(3) by simp
  have last: "wp (bzero 1 ?r) (\<lambda>_ s'. lframe s s' \<and> op A s' (?v(?r := \<lambda>_. 0)) L \<and> (\<forall>j y. held s j y \<longrightarrow> held s' j y)) u"
    if u: "lframe s u" "op A u ?v L" "\<forall>j y. held s j y \<longrightarrow> held u j y" for u
  proof (rule wp_mono[OF bzero_rule[OF u(2) _ A(4) o(4) A(2)]])
    show "on_disk u ?r" using A(3) lframe_sel(8)[OF u(1)] by simp
  qed (use u lframe_trans[OF u(1)] in blast)
  have "wp (bnd (bread 1 ?bn) (\<lambda>bp. bnd (fetch (\<lambda>s. find (\<lambda>bi. \<not> bit_used (b_data (bufs s ! bp)) bi)
       [0..<min BPB (unat (sb_size (fs_sb s0)) - b)])) (\<lambda>r. case r of
         Some bi \<Rightarrow> bnd (change bp (set_bit_used bi)) (\<lambda>_. bnd (brelse bp) (\<lambda>_.
           bnd (bzero 1 (of_nat (b + bi))) (\<lambda>_. ret (of_nat (b + bi)))))
       | None \<Rightarrow> bnd (brelse bp) (\<lambda>_. balloc_loop 1 bs)))) (\<lambda>r s'. r = ?r \<and> lframe s s' \<and>
    op A s' (?v(?r := \<lambda>_. 0)) L \<and> (\<forall>j y. held s j y \<longrightarrow> held s' j y)) s"
    if s0: "s0 = s" for s0
  proof (rule wp_bndI[OF op_bread[OF o]], elim conjE)
    fix bp t assume t: "lframe s t" "op A t v (insert ?bn L)" "held t bp ?bn"
      "\<forall>j x. held s j x \<longrightarrow> held t j x \<and> j \<noteq> bp"
    have d: "b_data (bufs t ! bp) = v ?bn" by (rule op_held_data[OF t(2,3)])
    have "wp (bnd (change bp (set_bit_used bi)) (\<lambda>_. bnd (brelse bp) (\<lambda>_. bnd (bzero 1 ?r) (\<lambda>_. ret ?r))))
      (\<lambda>r s'. r = ?r \<and> lframe s s' \<and> op A s' (?v(?r := \<lambda>_. 0)) L \<and> (\<forall>j y. held s j y \<longrightarrow> held s' j y)) t"
    proof (rule wp_bndI[OF op_change[OF t(2,3) A(1)]], elim conjE)
      fix x u assume u: "lframe t u" "op A u ?v (insert ?bn L)" "\<forall>j x. held t j x \<longrightarrow> held u j x"
      have h: "held u bp ?bn" using u(3) t(3) by blast
      have "wp (brelse bp) (\<lambda>_. wp (bzero 1 ?r) (\<lambda>_ s'. lframe s s' \<and> op A s' (?v(?r := \<lambda>_. 0)) L \<and>
          (\<forall>j y. held s j y \<longrightarrow> held s' j y))) u"
      proof (rule wp_mono[OF op_brelse[OF u(2) h]], elim conjE)
        fix y z assume z: "lframe u z" "op A z ?v (insert ?bn L - {?bn})"
          "\<forall>j x. j \<noteq> bp \<longrightarrow> held u j x \<longrightarrow> held z j x"
        have "lframe s z" using t(1) u(1) z(1) lframe_trans by blast
        then show "wp (bzero 1 ?r) (\<lambda>_ s'. lframe s s' \<and> op A s' (?v(?r := \<lambda>_. 0)) L \<and>
          (\<forall>j y. held s j y \<longrightarrow> held s' j y)) z" using z t(4) u(3) L by (intro last) auto
      qed
      then show "wp (bnd (brelse bp) (\<lambda>_. bnd (bzero 1 ?r) (\<lambda>_. ret ?r)))
        (\<lambda>r s'. r = ?r \<and> lframe s s' \<and> op A s' (?v(?r := \<lambda>_. 0)) L \<and> (\<forall>j y. held s j y \<longrightarrow> held s' j y)) u"
        by (simp add: wp_simps)
    qed
    then show "wp (bnd (fetch (\<lambda>s. find (\<lambda>bi. \<not> bit_used (b_data (bufs s ! bp)) bi)
       [0..<min BPB (unat (sb_size (fs_sb s0)) - b)])) (\<lambda>r. case r of
         Some bi \<Rightarrow> bnd (change bp (set_bit_used bi)) (\<lambda>_. bnd (brelse bp) (\<lambda>_.
           bnd (bzero 1 (of_nat (b + bi))) (\<lambda>_. ret (of_nat (b + bi)))))
       | None \<Rightarrow> bnd (brelse bp) (\<lambda>_. balloc_loop 1 bs)))
      (\<lambda>r s'. r = ?r \<and> lframe s s' \<and> op A s' (?v(?r := \<lambda>_. 0)) L \<and> (\<forall>j y. held s j y \<longrightarrow> held s' j y)) t"
      using free d s0 by (simp add: wp_bnd wp_fetch)
  qed
  from this[OF refl] show ?thesis by (simp add: wp_bnd wp_fetch change_fold)
qed

lemma ceil_div_le: "0 < B \<Longrightarrow> ((n + B - 1) div B \<le> k) = (n \<le> k * (B :: nat))"
  by (auto simp: less_Suc_eq_le[symmetric] div_less_iff_less_mult)

lemma upt_split: "a \<le> b \<Longrightarrow> b \<le> c \<Longrightarrow> [a..<c] = [a..<b] @ [b..<c]"
  using upt_add_eq_append[of a b "c - b"] by simp

text \<open>The search among the blocks from bitmap block \<open>k\<close> on: in that block, then in the rest.\<close>

lemma scan_split:
  assumes "k * BPB < n"
  shows "find (\<lambda>b. \<not> used sb v b) [k * BPB..<n] =
    (case find (\<lambda>bi. \<not> bit_used (v (BBLOCK (k * BPB) sb)) bi) [0..<min BPB (n - k * BPB)] of
       None \<Rightarrow> find (\<lambda>b. \<not> used sb v b) [Suc k * BPB..<n] | Some bi \<Rightarrow> Some (k * BPB + bi))"
proof -
  let ?m = "min (k * BPB + BPB) (max n (k * BPB))"
  have "[k * BPB..<n] = [k * BPB..<?m] @ [Suc k * BPB..<n]"
  proof (cases "Suc k * BPB \<le> n")
    case True
    then have "?m = Suc k * BPB" by (simp add: min_def max_def)
    then show ?thesis using True upt_split[of "k * BPB" "Suc k * BPB" n] by (simp add: add.commute)
  next
    case False
    then have "?m = n" using assms by (simp add: min_def max_def)
    then show ?thesis using False by simp
  qed
  then have "find (\<lambda>b. \<not> used sb v b) [k * BPB..<n] =
      (case find (\<lambda>b. \<not> used sb v b) [k * BPB..<?m] of
         None \<Rightarrow> find (\<lambda>b. \<not> used sb v b) [Suc k * BPB..<n] | Some x \<Rightarrow> Some x)"
    by (simp only: find_append)
  then show ?thesis unfolding find_segment[symmetric] by (simp split: option.split)
qed

lemma fs_sb_lframe: "lframe s s' \<Longrightarrow> fs_sb s' = fs_sb s"
  using lframe_sel(7)[of s s'] by (cases s; cases s'; simp)

lemma balloc_keys: "k * BPB < n \<Longrightarrow>
    map (\<lambda>k. k * BPB) [k..<(n + BPB - 1) div BPB] = k * BPB # map (\<lambda>k. k * BPB) [Suc k..<(n + BPB - 1) div BPB]"
  using ceil_div_le[OF BPB_pos, of n k] by (simp add: upt_conv_Cons not_le)

lemma balloc_keys_end: "n \<le> k * BPB \<Longrightarrow> map (\<lambda>k. k * BPB) [k..<(n + BPB - 1) div BPB] = []"
  using ceil_div_le[OF BPB_pos, of n k] by simp

text \<open>No free block: the allocator panics.\<close>

lemma balloc_loop_none:
  assumes "op A s v L" "map_ok (fs_sb s) (disksize s) v" "card L < 3"
    and "\<And>b. b < unat (sb_size (fs_sb s)) \<Longrightarrow> BBLOCK b (fs_sb s) \<notin> L"
    and "find (\<lambda>b. \<not> used (fs_sb s) v b) [k * BPB..<unat (sb_size (fs_sb s))] = None"
  shows "balloc_loop 1 (map (\<lambda>k. k * BPB) [k..<(unat (sb_size (fs_sb s)) + BPB - 1) div BPB]) s =
    Inl (Panic ''balloc: out of blocks'')"
  using assms
proof (induction "unat (sb_size (fs_sb s)) - k * BPB" arbitrary: k s rule: less_induct)
  case less
  let ?n = "unat (sb_size (fs_sb s))"
  show ?case
  proof (cases "k * BPB < ?n")
    case False
    then have "?n \<le> k * BPB" by simp
    then show ?thesis unfolding balloc_keys_end[OF \<open>?n \<le> k * BPB\<close>] by (simp add: panic_def)
  next
    case True
    have seg: "find (\<lambda>bi. \<not> bit_used (v (BBLOCK (k * BPB) (fs_sb s))) bi) [0..<min BPB (?n - k * BPB)] = None"
      and rest: "find (\<lambda>b. \<not> used (fs_sb s) v b) [Suc k * BPB..<?n] = None"
      using less.prems(5) unfolding scan_split[OF True] by (auto split: option.splits)
    have disk: "on_disk s (BBLOCK (k * BPB) (fs_sb s))" using less.prems(2) True by (simp add: map_ok_def)
    obtain s' where s': "balloc_loop 1 (k * BPB # map (\<lambda>k. k * BPB) [Suc k..<(?n + BPB - 1) div BPB]) s =
        balloc_loop 1 (map (\<lambda>k. k * BPB) [Suc k..<(?n + BPB - 1) div BPB]) s'" "lframe s s'" "op A s' v L"
      using balloc_loop_skip[OF less.prems(1) disk less.prems(4)[OF True] less.prems(3) seg] by blast
    note F = fs_sb_lframe[OF s'(2)] lframe_sel(8)[OF s'(2)]
    have "balloc_loop 1 (map (\<lambda>k. k * BPB) [Suc k..<(?n + BPB - 1) div BPB]) s' =
        Inl (Panic ''balloc: out of blocks'')"
      using less.hyps[of s' "Suc k"] s'(3) less.prems(2-4) rest True BPB_pos by (simp add: F)
    then show ?thesis using s'(1) by (simp only: balloc_keys[OF True])
  qed
qed

text \<open>Otherwise it takes the first free one.\<close>

definition balloc_post ::
  "uint set \<Rightarrow> 'a fs_scheme \<Rightarrow> (uint \<Rightarrow> block) \<Rightarrow> uint set \<Rightarrow> nat \<Rightarrow> uint \<Rightarrow> 'a fs_scheme \<Rightarrow> bool" where
  "balloc_post A s v L b r s' \<longleftrightarrow> r = of_nat b \<and> lframe s s' \<and>
     op A s' (v(BBLOCK b (fs_sb s) := set_bit_used (b mod BPB) (v (BBLOCK b (fs_sb s))), of_nat b := \<lambda>_. 0)) L \<and>
     (\<forall>j y. held s j y \<longrightarrow> held s' j y)"

lemma balloc_loop_some:
  assumes "op A s v L" "map_ok (fs_sb s) (disksize s) v" "card L < 3"
    and "\<And>b. b < unat (sb_size (fs_sb s)) \<Longrightarrow> BBLOCK b (fs_sb s) \<notin> L"
    and "find (\<lambda>b. \<not> used (fs_sb s) v b) [k * BPB..<unat (sb_size (fs_sb s))] = Some b"
    and "BBLOCK b (fs_sb s) \<in> A" "of_nat b \<in> A" "of_nat b \<notin> L"
  shows "wp (balloc_loop 1 (map (\<lambda>k. k * BPB) [k..<(unat (sb_size (fs_sb s)) + BPB - 1) div BPB]))
    (balloc_post A s v L b) s"
  using assms
proof (induction "unat (sb_size (fs_sb s)) - k * BPB" arbitrary: k s rule: less_induct)
  case less
  let ?n = "unat (sb_size (fs_sb s))"
  have True: "k * BPB < ?n" using less.prems(5) by (cases "k * BPB < ?n") auto
  let ?seg = "find (\<lambda>bi. \<not> bit_used (v (BBLOCK (k * BPB) (fs_sb s))) bi) [0..<min BPB (?n - k * BPB)]"
  have disk: "on_disk s (BBLOCK (k * BPB) (fs_sb s))" using less.prems(2) True by (simp add: map_ok_def)
  show ?case
  proof (cases ?seg)
    case None
    obtain s' where s': "balloc_loop 1 (k * BPB # map (\<lambda>k. k * BPB) [Suc k..<(?n + BPB - 1) div BPB]) s =
        balloc_loop 1 (map (\<lambda>k. k * BPB) [Suc k..<(?n + BPB - 1) div BPB]) s'" "lframe s s'" "op A s' v L"
        "\<forall>j y. held s j y \<longrightarrow> held s' j y"
      using balloc_loop_skip[OF less.prems(1) disk less.prems(4)[OF True] less.prems(3) None] by blast
    note F = fs_sb_lframe[OF s'(2)] lframe_sel(8)[OF s'(2)]
    have rest: "find (\<lambda>b. \<not> used (fs_sb s) v b) [Suc k * BPB..<?n] = Some b"
      using less.prems(5) unfolding scan_split[OF True] None by simp
    have "wp (balloc_loop 1 (map (\<lambda>k. k * BPB) [Suc k..<(?n + BPB - 1) div BPB])) (balloc_post A s' v L b) s'"
      using less.hyps[of s' "Suc k"] s'(3) less.prems(2-4,6-8) rest True BPB_pos by (simp add: F)
    then have "wp (balloc_loop 1 (map (\<lambda>k. k * BPB) [Suc k..<(?n + BPB - 1) div BPB])) (balloc_post A s v L b) s'"
      by (rule wp_mono) (use s'(4) lframe_trans[OF s'(2)] in \<open>auto simp: balloc_post_def F\<close>)
    then show ?thesis using s'(1) by (simp only: balloc_keys[OF True] wp_def)
  next
    case (Some bi)
    then have b: "b = k * BPB + bi" using less.prems(5) unfolding scan_split[OF True] by simp
    have bi: "bi < BPB" using Some by (auto simp: find_Some_iff)
    have bn: "b < ?n" using less.prems(5) by (auto simp: find_Some_iff)
    have "on_disk s (of_nat b)"
      using bn less.prems(2) by (simp add: map_ok_def word_less_nat_alt word_le_nat_alt unat_of_nat)
        (metis le_less_trans mod_less_eq_dividend less_le_trans)
    moreover have eq: "BBLOCK b (fs_sb s) = BBLOCK (k * BPB) (fs_sb s)" "b mod BPB = bi"
      unfolding b using bi by (simp_all only: BBLOCK_seg mod_mult_self3 mod_less)
    ultimately have "wp (balloc_loop 1 (k * BPB # map (\<lambda>k. k * BPB) [Suc k..<(?n + BPB - 1) div BPB]))
        (balloc_post A s v L b) s"
      using wp_mono[OF balloc_loop_take[OF less.prems(1) disk less.prems(4)[OF True] less.prems(3) Some],
          of "balloc_post A s v L b"] less.prems(6-8)
      unfolding balloc_post_def eq b[symmetric] by blast
    then show ?thesis by (simp only: balloc_keys[OF True])
  qed
qed

lemma first_free_Some:
  assumes "first_free sb v = Some b"
  shows "b < unat (sb_size sb)" "\<not> used sb v b" "\<And>b'. b' < b \<Longrightarrow> used sb v b'"
  using assms by (auto simp: first_free_def find_Some_iff)

lemma first_free_None: "first_free sb v = None \<Longrightarrow> b < unat (sb_size sb) \<Longrightarrow> used sb v b"
  by (auto simp: first_free_def find_None_iff)

lemma of_nat_inj_uint: "a < 2 ^ 32 \<Longrightarrow> b < 2 ^ 32 \<Longrightarrow> ((of_nat a :: uint) = of_nat b) = (a = b)"
  by (auto dest!: arg_cong[where f = unat] simp: unat_of_nat)

lemma size_bound: "b < unat (sb_size sb) \<Longrightarrow> b < 2 ^ 32"
  using unat_uint_bound[of "sb_size sb"] by simp

lemma BBLOCK_eq_iff:
  assumes "b < unat (sb_size sb)" "b' < unat (sb_size sb)"
  shows "(BBLOCK b sb = BBLOCK b' sb) = (b div BPB = b' div BPB)"
proof -
  have "b div BPB < 2 ^ 32" "b' div BPB < 2 ^ 32"
    using size_bound[OF assms(1)] size_bound[OF assms(2)] by (meson div_le_dividend le_less_trans)+
  then show ?thesis by (simp add: BBLOCK_def of_nat_inj_uint)
qed

text \<open>The effect of setting or clearing the bit of block \<open>b\<close> on the free map.\<close>

lemma used_upd:
  assumes "b < unat (sb_size sb)" "b' < unat (sb_size sb)"
    and "\<And>bi. bit_used x bi = (if bi = b mod BPB then u else bit_used (v (BBLOCK b sb)) bi)"
  shows "used sb (v(BBLOCK b sb := x)) b' = (if b' = b then u else used sb v b')"
proof (cases "BBLOCK b' sb = BBLOCK b sb")
  case True
  then have "b' div BPB = b div BPB" by (simp only: BBLOCK_eq_iff[OF assms(2,1)])
  then have "(b' mod BPB = b mod BPB) = (b' = b)" by (metis div_mult_mod_eq)
  then show ?thesis using True assms(3) by (auto simp: used_def)
next
  case False
  then show ?thesis by (auto simp: used_def)
qed

lemma used_data: "(\<And>b'. b' < unat (sb_size sb) \<Longrightarrow> bn \<noteq> BBLOCK b' sb) \<Longrightarrow> b < unat (sb_size sb) \<Longrightarrow>
    used sb (v(bn := x)) b = used sb v b"
  by (auto simp: used_def)

lemma free_not_map:
  assumes "map_ok sb n v" "b < unat (sb_size sb)" "\<not> used sb v b" "b' < unat (sb_size sb)"
  shows "of_nat b \<noteq> BBLOCK b' sb"
  using assms by (auto simp: map_ok_def)

lemma balloc_effect:
  assumes "map_ok sb n v" "b < unat (sb_size sb)" "\<not> used sb v b"
  defines "v' \<equiv> v(BBLOCK b sb := set_bit_used (b mod BPB) (v (BBLOCK b sb)), of_nat b := \<lambda>_. 0)"
  shows "b' < unat (sb_size sb) \<Longrightarrow> used sb v' b' = (b' = b \<or> used sb v b')" "map_ok sb n v'"
proof -
  show u: "used sb v' b' = (b' = b \<or> used sb v b')" if "b' < unat (sb_size sb)" for b'
  proof -
    have "used sb v' b' = used sb (v(BBLOCK b sb := set_bit_used (b mod BPB) (v (BBLOCK b sb)))) b'"
      unfolding v'_def using free_not_map[OF assms(1-3)] by (intro used_data that) auto
    then show ?thesis using used_upd[OF assms(2) that, where u = True] by simp
  qed
  show "map_ok sb n v'" using assms(1) u unfolding map_ok_def by blast
qed

subsection \<open>Allocating and freeing blocks\<close>

text \<open>C19. Inside a transaction with room for the two blocks it writes, \<open>balloc\<close> returns the first block
  the free map does not mark in use: the block is zeroed, marked, and nothing else of the disk or
  of the map changes. It panics exactly when every block is in use.\<close>

theorem balloc_first_free:
  fixes s :: "'a fs_scheme"
  assumes "op A s v {}" "map_ok (fs_sb s) (disksize s) v"
    and "\<And>b. first_free (fs_sb s) v = Some b \<Longrightarrow> BBLOCK b (fs_sb s) \<in> A \<and> of_nat b \<in> A"
  shows "case first_free (fs_sb s) v of
      None \<Rightarrow> balloc 1 s = Inl (Panic ''balloc: out of blocks'')
    | Some b \<Rightarrow> wp (balloc 1) (\<lambda>r s'. r = of_nat b \<and> lframe s s' \<and>
        (\<exists>v'. op A s' v' {} \<and> v' (of_nat b) = (\<lambda>_. 0) \<and> map_ok (fs_sb s) (disksize s) v' \<and>
           (\<forall>b' < unat (sb_size (fs_sb s)). used (fs_sb s) v' b' = (b' = b \<or> used (fs_sb s) v b')) \<and>
           (\<forall>bn. bn \<noteq> of_nat b \<and> bn \<noteq> BBLOCK b (fs_sb s) \<longrightarrow> v' bn = v bn))) s"
proof -
  let ?n = "unat (sb_size (fs_sb s))"
  let ?bs = "map (\<lambda>k. k * BPB) [0..<(?n + BPB - 1) div BPB]"
  have run: "balloc 1 s = balloc_loop 1 ?bs s" by (simp add: balloc_def bnd_def run_simps)
  show ?thesis
  proof (cases "first_free (fs_sb s) v")
    case None
    then have "balloc_loop 1 ?bs s = Inl (Panic ''balloc: out of blocks'')"
      using balloc_loop_none[OF assms(1,2), of 0] by (simp add: first_free_def)
    then show ?thesis using None run by simp
  next
    case (Some b)
    note f = first_free_Some[OF Some] and e = balloc_effect[OF assms(2) first_free_Some(1,2)[OF Some]]
    have "wp (balloc_loop 1 ?bs) (balloc_post A s v {} b) s"
      using balloc_loop_some[OF assms(1,2), of 0 b] assms(3)[OF Some] Some by (simp add: first_free_def)
    then have "wp (balloc 1) (balloc_post A s v {} b) s" by (simp only: wp_def run)
    then show ?thesis unfolding Some option.case
      by (rule wp_mono) (use e in \<open>auto simp: balloc_post_def intro!: exI\<close>)
  qed
qed

text \<open>A file system of 100 blocks of which the first 64 are in use, with the bitmap in block 58, at the
  start of a transaction.\<close>

definition sb_example :: superblock where
  "sb_example = \<lparr>sb_size = 100, sb_nblocks = 40, sb_ninodes = 64, sb_nlog = 30, sb_logstart = 2,
     sb_inodestart = 40, sb_bmapstart = 58\<rparr>"

definition disk_example :: "uint \<Rightarrow> block" where
  "disk_example = (\<lambda>_ _. 0)(58 := \<lambda>k. if k < 8 then 0xFF else 0)"

definition nc_boot :: namecache where
  "nc_boot = \<lparr>nc_entries = replicate NAMECACHE_SIZE \<lparr>nce_valid = False, nce_dev = 0, nce_parent = 0,
       nce_name = [], nce_inum = 0, nce_hits = 0\<rparr>,
     nc_next_slot = 0, nc_total_lookups = 0, nc_cache_hits = 0, nc_cache_misses = 0\<rparr>"

definition fs_boot :: "(uint \<Rightarrow> block) \<Rightarrow> inode list \<Rightarrow> fs" where
  "fs_boot d ips = log.extend ((log_boot d)\<lparr>outstanding := 1\<rparr>)
     (fs.fields sb_example ips nc_boot)"

lemma fs_boot_sel [simp]:
  "fs_sb (fs_boot d ips) = sb_example" "inodes (fs_boot d ips) = ips" "disksize (fs_boot d ips) = 1000"
  by (simp_all add: fs_boot_def log.extend_def fs.fields_def)

lemma log_extend_sel [simp]:
  "bio_inv (log.extend b x) = bio_inv b" "bufs (log.extend b x) = bufs b"
  "disk (log.extend b x) = disk b" "disksize (log.extend b x) = disksize b"
  "dwrites (log.extend b x) = dwrites b" "log_start (log.extend b x) = log_start b"
  "log_size (log.extend b x) = log_size b" "outstanding (log.extend b x) = outstanding b"
  "committing (log.extend b x) = committing b" "log_dev (log.extend b x) = log_dev b"
  "lh_n (log.extend b x) = lh_n b" "lh_block (log.extend b x) = lh_block b"
  by (simp_all add: log.extend_def bio_inv_def in_proc_def)

lemma fs_boot_op:
  assumes "finite A" "card A \<le> 20" "\<And>bn. bn \<in> A \<Longrightarrow> 32 < bn \<and> bn < 1000"
  shows "op A (fs_boot d ips) d {}"
proof -
  let ?s = "fs_boot d ips"
  have "bio ((log_boot d)\<lparr>outstanding := 1\<rparr>) d (dwrites (log_boot d)) d {} {}"
    using log_boot_bio[of d] by simp
  then have "bio ?s d (dwrites (log_boot d)) d {} {}"
    unfolding fs_boot_def bio_def log_extend_sel by simp
  moreover have g: "log_geom ?s" by (simp add: fs_boot_def log_geom_def LOGSIZE_def)
  moreover have "trans_ok ?s {}" using log_boot_ok(2)[of d] by (simp add: fs_boot_def trans_ok_def logged_def log_geom_def)
  moreover have "home ?s bn" if "bn \<in> A" for bn
    by (rule home_above[OF g]) (use assms(3)[OF that] in \<open>simp_all add: fs_boot_def LOGSIZE_def word_less_nat_alt\<close>)
  ultimately show ?thesis
    unfolding op_def using assms(1,2)
    by (intro exI[of _ d] exI[of _ "dwrites (log_boot d)"] exI[of _ "{}"]) (simp add: fs_boot_def NBUF_def)
qed

lemma word_FF: "(0xFF :: byte) = - 1"
  by simp

lemma used_example:
  assumes "b < 100"
  shows "used sb_example disk_example b \<longleftrightarrow> b < 64"
proof -
  have "BBLOCK b sb_example = 58" "b mod BPB = b"
    using assms by (simp_all add: BBLOCK_def sb_example_def BPB_def BSIZE_def)
  moreover have "bit (- 1 :: byte) (b mod 8)" unfolding bit_minus_1_iff by (simp add: possible_bit_def)
  then have "bit (0xFF :: byte) (b mod 8)" by (simp only: word_FF)
  moreover have "(b div 8 < 8) = (b < 64)" by linarith
  ultimately show ?thesis unfolding used_def disk_example_def bit_used_iff by simp
qed

lemma map_ok_example: "map_ok sb_example 1000 disk_example"
proof -
  have B: "BBLOCK b sb_example = 58" if "b < 100" for b
    using that by (simp add: BBLOCK_def sb_example_def BPB_def BSIZE_def)
  have "b < 64" if "b < 100" "of_nat b = (58 :: uint)" for b
    using that of_nat_inj_uint[of b 58] by simp
  moreover have "unat (sb_size sb_example) = 100" by (simp add: sb_example_def)
  ultimately show ?thesis using B used_example by (auto simp: map_ok_def) (simp add: sb_example_def)
qed

lemma first_free_example: "first_free sb_example disk_example = Some 64"
proof -
  have "unat (sb_size sb_example) = 100" by (simp add: sb_example_def)
  then show ?thesis unfolding first_free_def find_Some_iff
    using used_example by (intro exI[of _ 64]) simp
qed

theorem balloc_first_free_witness:
  "wp (balloc 1) (\<lambda>r s'. r = 64) (fs_boot disk_example [])"
proof -
  have "op {58, 64} (fs_boot disk_example []) disk_example {}" by (rule fs_boot_op) auto
  note balloc_first_free[OF this]
  moreover have "BBLOCK 64 sb_example = 58" by (simp add: BBLOCK_def sb_example_def BPB_def BSIZE_def)
  ultimately show ?thesis
    using map_ok_example by (simp add: first_free_example) (auto elim: wp_mono)
qed

lemma bfree_rule:
  assumes "op A s v L" "on_disk s (BBLOCK (unat b) (fs_sb s))" "BBLOCK (unat b) (fs_sb s) \<notin> L"
    "card L < 3" "BBLOCK (unat b) (fs_sb s) \<in> A" "used (fs_sb s) v (unat b)"
  shows "wp (bfree 1 b) (\<lambda>_ s'. lframe s s' \<and>
    op A s' (v(BBLOCK (unat b) (fs_sb s) := clear_bit_used (unat b mod BPB) (v (BBLOCK (unat b) (fs_sb s))))) L \<and>
    (\<forall>j y. held s j y \<longrightarrow> held s' j y)) s"
proof -
  let ?bn = "BBLOCK (unat b) (fs_sb s)" and ?f = "clear_bit_used (unat b mod BPB)"
  show ?thesis unfolding bfree_def Let_def change_fold[where f = ?f] wp_bnd_fetch
  proof (rule wp_bndI[OF op_bread[OF assms(1-4)]], elim conjE)
    fix i t assume t: "lframe s t" "op A t v (insert ?bn L)" "held t i ?bn" "\<forall>j x. held s j x \<longrightarrow> held t j x \<and> j \<noteq> i"
    have u: "bit_used (b_data (bufs t ! i)) (unat b mod BPB)"
      using assms(6) op_held_data[OF t(2,3)] by (simp add: used_def)
    have "wp (bnd (change i ?f) (\<lambda>_. brelse i)) (\<lambda>_ s'. lframe s s' \<and> op A s' (v(?bn := ?f (v ?bn))) L \<and>
      (\<forall>j y. held s j y \<longrightarrow> held s' j y)) t"
    proof (rule wp_bndI[OF op_change[OF t(2,3) assms(5)]], elim conjE)
      fix x r assume r: "lframe t r" "op A r (v(?bn := ?f (v ?bn))) (insert ?bn L)" "\<forall>j x. held t j x \<longrightarrow> held r j x"
      have L: "insert ?bn L - {?bn} = L" using assms(3) by simp
      from r(3) t(3) have "held r i ?bn" by blast
      from op_brelse[OF r(2) this] show "wp (brelse i) (\<lambda>_ s'. lframe s s' \<and> op A s' (v(?bn := ?f (v ?bn))) L \<and>
        (\<forall>j y. held s j y \<longrightarrow> held s' j y)) r"
        unfolding L by (rule wp_mono) (use t r lframe_trans in blast)
    qed
    then show "wp (bnd (fetch (\<lambda>s. bit_used (b_data (bufs s ! i)) (unat b mod BPB)))
     (\<lambda>u. if \<not> u then panic ''freeing free block'' else bnd (change i ?f) (\<lambda>_. brelse i)))
      (\<lambda>_ s'. lframe s s' \<and> op A s' (v(?bn := ?f (v ?bn))) L \<and> (\<forall>j y. held s j y \<longrightarrow> held s' j y)) t"
      using u by (simp add: wp_simps)
  qed
qed

lemma bfree_free_panics:
  assumes "op A s v L" "on_disk s (BBLOCK (unat b) (fs_sb s))" "BBLOCK (unat b) (fs_sb s) \<notin> L"
    "card L < 3" "\<not> used (fs_sb s) v (unat b)"
  shows "bfree 1 b s = Inl (Panic ''freeing free block'')"
proof -
  obtain i t where t: "bread 1 (BBLOCK (unat b) (fs_sb s)) s = Inr (i, t)"
     "op A t v (insert (BBLOCK (unat b) (fs_sb s)) L)" "held t i (BBLOCK (unat b) (fs_sb s))"
    using op_bread[OF assms(1-4)] unfolding wp_iff by blast
  then show ?thesis
    using assms(5) op_held_data[OF t(2,3)] by (simp add: bfree_def bnd_def run_simps Let_def used_def)
qed

text \<open>C20. \<open>bfree\<close> of a block in use clears its mark and changes nothing else; a block that is not in
  use is never freed twice: the kernel panics instead.\<close>

theorem bfree_unmarks:
  fixes s :: "'a fs_scheme"
  assumes "op A s v {}" "map_ok (fs_sb s) (disksize s) v" "unat b < unat (sb_size (fs_sb s))"
    and "BBLOCK (unat b) (fs_sb s) \<in> A"
  shows "if used (fs_sb s) v (unat b)
    then wp (bfree 1 b) (\<lambda>_ s'. lframe s s' \<and> (\<exists>v'. op A s' v' {} \<and>
      (\<forall>b' < unat (sb_size (fs_sb s)). used (fs_sb s) v' b' = (b' \<noteq> unat b \<and> used (fs_sb s) v b')) \<and>
      (\<forall>bn. bn \<noteq> BBLOCK (unat b) (fs_sb s) \<longrightarrow> v' bn = v bn))) s
    else bfree 1 b s = Inl (Panic ''freeing free block'')"
proof -
  let ?bn = "BBLOCK (unat b) (fs_sb s)"
  have d: "on_disk s ?bn" using assms(2,3) by (simp add: map_ok_def)
  show ?thesis
  proof (cases "used (fs_sb s) v (unat b)")
    case True
    let ?v = "v(?bn := clear_bit_used (unat b mod BPB) (v ?bn))"
    have u: "used (fs_sb s) ?v b' = (b' \<noteq> unat b \<and> used (fs_sb s) v b')" if "b' < unat (sb_size (fs_sb s))" for b'
      by (subst used_upd[OF assms(3) that, where u = False]) auto
    show ?thesis unfolding if_P[OF True]
    proof (rule wp_mono[OF bfree_rule[OF assms(1) d _ _ assms(4) True]])
      fix x s' assume "lframe s s' \<and> op A s' ?v {} \<and> (\<forall>j y. held s j y \<longrightarrow> held s' j y)"
      then show "lframe s s' \<and> (\<exists>v'. op A s' v' {} \<and>
        (\<forall>b' < unat (sb_size (fs_sb s)). used (fs_sb s) v' b' = (b' \<noteq> unat b \<and> used (fs_sb s) v b')) \<and>
        (\<forall>bn. bn \<noteq> ?bn \<longrightarrow> v' bn = v bn))" using u by (intro conjI exI[of _ ?v]) auto
    qed simp_all
  next
    case False
    then show ?thesis using bfree_free_panics[OF assms(1) d _ _ False] by simp
  qed
qed

theorem bfree_unmarks_witness:
  "wp (bfree 1 63) (\<lambda>_ s'. \<exists>v'. op {58} s' v' {} \<and> \<not> used sb_example v' 63 \<and> used sb_example v' 62)
     (fs_boot disk_example []) \<and>
   bfree 1 64 (fs_boot disk_example []) = Inl (Panic ''freeing free block'')"
proof -
  let ?s = "fs_boot disk_example []"
  have o: "op {58} ?s disk_example {}" by (rule fs_boot_op) auto
  have B: "BBLOCK 63 sb_example = 58" "BBLOCK 64 sb_example = 58" "unat (sb_size sb_example) = 100"
    by (simp_all add: BBLOCK_def sb_example_def BPB_def BSIZE_def)
  have "wp (bfree 1 63) (\<lambda>_ s'. \<exists>v'. op {58} s' v' {} \<and> \<not> used sb_example v' 63 \<and> used sb_example v' 62) ?s"
    using bfree_unmarks[OF o, of 63] map_ok_example by (auto simp: B used_example elim!: wp_mono)
  moreover have "bfree 1 64 ?s = Inl (Panic ''freeing free block'')"
    using bfree_unmarks[OF o, of 64] map_ok_example by (simp add: B used_example)
  ultimately show ?thesis by blast
qed

end
