(* ===== verification/Pipe_Spec.thy ===== *)
theory Pipe_Spec
  imports Pipe Fs_Spec
begin

text \<open>
  What pipes promise. The ring buffer with its two counters that wrap around at 32 bits
  implements a bounded queue; the locale states the queue's laws and derives what loops over
  it do. On top of it: what one run of \<open>pipewrite\<close> and \<open>piperead\<close> does, that under every
  interleaving of runs the bytes come out in the order they went in, and when a process may
  be left asleep.
\<close>

subsection \<open>Bounded queues\<close>

locale bounded_queue =
  fixes inv :: "'q \<Rightarrow> bool"
    and items :: "'q \<Rightarrow> 'a list"
    and cap :: nat
    and is_full :: "'q \<Rightarrow> bool"
    and is_empty :: "'q \<Rightarrow> bool"
    and enq :: "'a \<Rightarrow> 'q \<Rightarrow> 'q"
    and front :: "'q \<Rightarrow> 'a"
    and deq :: "'q \<Rightarrow> 'q"
  assumes full_iff: "inv q \<Longrightarrow> is_full q \<longleftrightarrow> length (items q) = cap"
    and empty_iff: "inv q \<Longrightarrow> is_empty q \<longleftrightarrow> items q = []"
    and bounded: "inv q \<Longrightarrow> length (items q) \<le> cap"
    and enq: "inv q \<Longrightarrow> \<not> is_full q \<Longrightarrow> inv (enq x q) \<and> items (enq x q) = items q @ [x]"
    and deq: "inv q \<Longrightarrow> \<not> is_empty q \<Longrightarrow> inv (deq q) \<and> items q = front q # items (deq q)"
begin

lemma room: "inv q \<Longrightarrow> \<not> is_full q \<Longrightarrow> length (items q) < cap"
  using full_iff bounded le_neq_implies_less by blast

lemma enq_step:
  assumes "inv q" "\<not> is_full q"
  shows "inv (enq x q)" "items (enq x q) = items q @ [x]"
  using enq[OF assms] by auto

lemma deq_step:
  assumes "inv q" "\<not> is_empty q"
  shows "inv (deq q)" "items (deq q) = tl (items q)" "front q = hd (items q)"
  using deq[OF assms] by auto

lemma deq_not_full:
  assumes "inv q" "\<not> is_empty q"
  shows "\<not> is_full (deq q)"
proof -
  have "length (items (deq q)) < length (items q)" using deq[OF assms] by simp
  then show ?thesis using full_iff[of "deq q"] deq[OF assms] bounded[OF assms(1)] by simp
qed

end

subsection \<open>The ring buffer is one\<close>

definition pipe_inv :: "pipe \<Rightarrow> bool" where
  "pipe_inv pi \<longleftrightarrow> length (pi_data pi) = PIPESIZE \<and> unat (pi_nwrite pi - pi_nread pi) \<le> PIPESIZE"

text \<open>The slot of the ring for a counter value, and the bytes between the two counters.\<close>

definition ring_slot :: "uint \<Rightarrow> nat" where
  "ring_slot w = unat (w mod of_nat PIPESIZE)"

definition pipe_items :: "pipe \<Rightarrow> byte list" where
  "pipe_items pi = map (\<lambda>k. pi_data pi ! ring_slot (pi_nread pi + of_nat k)) [0..<unat (pi_nwrite pi - pi_nread pi)]"

lemma ring_slot_less: "ring_slot w < PIPESIZE"
  by (simp add: ring_slot_def PIPESIZE_def unat_mod)

lemma ring_slot_unat: "ring_slot w = unat w mod PIPESIZE"
  by (simp add: ring_slot_def PIPESIZE_def unat_mod)

text \<open>The size of the ring divides the range of the counters, so slots stay apart across the wrap.\<close>

lemma ring_slot_add: "ring_slot (w + of_nat k) = (unat w + k) mod PIPESIZE"
proof -
  have "unat (w + of_nat k) = (unat w + k) mod 2 ^ 32"
    by (simp add: unat_word_ariths unat_of_nat mod_add_right_eq)
  moreover have "PIPESIZE dvd 2 ^ 32" by (simp add: PIPESIZE_def)
  ultimately show ?thesis by (simp add: ring_slot_unat mod_mod_cancel)
qed

lemma mod_shift_inj:
  assumes "i < n" "j < n" "i \<le> j" "(a + i) mod n = (a + j) mod (n :: nat)"
  shows "i = j"
proof -
  have "n dvd (a + j) - (a + i)" using assms(3,4) by (subst mod_eq_dvd_iff_nat[symmetric]) simp_all
  then have "n dvd j - i" by simp
  then show ?thesis using assms(2,3) by (auto dest: dvd_imp_le)
qed

lemma ring_slot_inj:
  assumes "i < PIPESIZE" "j < PIPESIZE" "ring_slot (w + of_nat i) = ring_slot (w + of_nat j)"
  shows "i = j"
  using mod_shift_inj[of i PIPESIZE j "unat w"] mod_shift_inj[of j PIPESIZE i "unat w"] assms
  by (cases "i \<le> j") (auto simp: ring_slot_add)

lemma pipe_items_length [simp]: "length (pipe_items pi) = unat (pi_nwrite pi - pi_nread pi)"
  by (simp add: pipe_items_def)

lemma unat_add_one: "unat (w :: uint) < 2 ^ 32 - 1 \<Longrightarrow> unat (w + 1) = Suc (unat w)"
  by (simp add: unat_word_ariths)

lemma unat_diff_Suc: "unat (b - a) < 2 ^ 32 - 1 \<Longrightarrow> unat (b + 1 - a) = Suc (unat (b - (a :: uint)))"
  using unat_add_one[of "b - a"] by (simp add: algebra_simps)

lemma pipe_full_iff:
  assumes "pipe_inv pi"
  shows "pipe_full pi \<longleftrightarrow> unat (pi_nwrite pi - pi_nread pi) = PIPESIZE"
proof -
  have "pipe_full pi \<longleftrightarrow> pi_nwrite pi - pi_nread pi = of_nat PIPESIZE"
    by (simp add: pipe_full_def diff_eq_eq add.commute)
  also have "\<dots> \<longleftrightarrow> unat (pi_nwrite pi - pi_nread pi) = PIPESIZE"
    by (subst word_unat_eq_iff) (simp add: PIPESIZE_def)
  finally show ?thesis .
qed

lemma pipe_empty_iff: "pipe_empty pi \<longleftrightarrow> pipe_items pi = []"
proof -
  have "pipe_items pi = [] \<longleftrightarrow> unat (pi_nwrite pi - pi_nread pi) = 0" by (simp add: pipe_items_def)
  then show ?thesis by (auto simp: pipe_empty_def unat_eq_0)
qed

lemma pipe_put_items:
  assumes "pipe_inv pi" "\<not> pipe_full pi"
  shows "pipe_inv (pipe_put c pi)" "pipe_items (pipe_put c pi) = pipe_items pi @ [c]"
proof -
  let ?n = "unat (pi_nwrite pi - pi_nread pi)"
  have n: "?n < PIPESIZE" using assms by (simp add: pipe_full_iff pipe_inv_def)
  have w: "unat (pi_nwrite pi + 1 - pi_nread pi) = Suc ?n"
    using n by (intro unat_diff_Suc) (simp add: PIPESIZE_def)
  show "pipe_inv (pipe_put c pi)" using assms(1) n w by (simp add: pipe_inv_def pipe_put_def)
  have "(pi_data pi)[ring_slot (pi_nwrite pi) := c] ! ring_slot (pi_nread pi + of_nat k) =
      (if k = ?n then c else pi_data pi ! ring_slot (pi_nread pi + of_nat k))" if "k \<le> ?n" for k
  proof (cases "k = ?n")
    case True
    then show ?thesis using ring_slot_less assms(1) by (simp add: pipe_inv_def)
  next
    case False
    then have "ring_slot (pi_nread pi + of_nat k) \<noteq> ring_slot (pi_nread pi + of_nat ?n)"
      using that n ring_slot_inj[of k ?n "pi_nread pi"] by linarith
    then have "ring_slot (pi_nread pi + of_nat k) \<noteq> ring_slot (pi_nwrite pi)" by simp
    then show ?thesis using False by simp
  qed
  moreover have "(pi_data pi)[ring_slot (pi_nwrite pi) := c] ! ring_slot (pi_nwrite pi) = c"
    using ring_slot_less assms(1) by (simp add: pipe_inv_def)
  ultimately show "pipe_items (pipe_put c pi) = pipe_items pi @ [c]"
    by (auto simp: pipe_items_def pipe_put_def w ring_slot_def[symmetric])
qed

lemma pipe_drop_items:
  assumes "pipe_inv pi" "\<not> pipe_empty pi"
  shows "pipe_inv (pipe_drop pi)" "pipe_items pi = pipe_get pi # pipe_items (pipe_drop pi)"
proof -
  let ?n = "unat (pi_nwrite pi - pi_nread pi)"
  have "pi_nwrite pi - pi_nread pi \<noteq> 0" using assms(2) by (auto simp: pipe_empty_def)
  from unat_pred[OF this] have n: "?n = Suc (unat (pi_nwrite pi - (pi_nread pi + 1)))"
    using \<open>_ \<noteq> 0\<close> by (simp add: algebra_simps unat_eq_0 Suc_diff_1 unat_gt_0)
  show "pipe_inv (pipe_drop pi)" using assms(1) n by (simp add: pipe_inv_def pipe_drop_def)
  show "pipe_items pi = pipe_get pi # pipe_items (pipe_drop pi)"
    unfolding pipe_items_def pipe_drop_def pipe_get_def
    by (simp add: n upt_conv_Cons map_Suc_upt[symmetric] ring_slot_def[symmetric] add.assoc del: upt_Suc map_Suc_upt)
qed

interpretation pq: bounded_queue pipe_inv pipe_items PIPESIZE pipe_full pipe_empty pipe_put pipe_get pipe_drop
proof
  fix q c
  show "pipe_inv q \<Longrightarrow> length (pipe_items q) \<le> PIPESIZE" by (simp add: pipe_inv_def)
  show "pipe_inv q \<Longrightarrow> \<not> pipe_full q \<Longrightarrow> pipe_inv (pipe_put c q) \<and> pipe_items (pipe_put c q) = pipe_items q @ [c]"
    using pipe_put_items by blast
  show "pipe_inv q \<Longrightarrow> \<not> pipe_empty q \<Longrightarrow> pipe_inv (pipe_drop q) \<and> pipe_items q = pipe_get q # pipe_items (pipe_drop q)"
    using pipe_drop_items by blast
qed (simp_all add: pipe_full_iff pipe_empty_iff)

subsection \<open>One run of a writer or a reader\<close>

text \<open>The bytes in flight in the pipe at \<open>p\<close>.\<close>

abbreviation in_flight :: "uint \<Rightarrow> 'a pipes_scheme \<Rightarrow> byte list" where
  "in_flight p s \<equiv> pipe_items (pipes s p)"

text \<open>Some process is asleep on a channel.\<close>

definition waiting :: "chan \<Rightarrow> 'a ptable_scheme \<Rightarrow> bool" where
  "waiting c s \<longleftrightarrow> (\<exists>p \<in> set (procs s). p_state p = SLEEPING \<and> p_chan p = Some c)"

lemma pipes_wakeup1 [simp]: "pipes (wakeup1 c s) = pipes s"
  by (simp add: wakeup1_def)

lemma pipe_upd_sel [simp]:
  "pipes (pipe_upd p f s) = (pipes s)(p := f (pipes s p))" "procs (pipe_upd p f s) = procs s"
  "cur_proc (pipe_upd p f s) = cur_proc s"
  by (simp_all add: pipe_upd_def)

lemma waiting_wakeup1: "waiting c (wakeup1 c' s) = (c \<noteq> c' \<and> waiting c s)"
  by (auto simp: waiting_def wakeup1_def wake_one_def)

lemma waiting_pipe_upd [simp]: "waiting c (pipe_upd p f s) = waiting c s"
  by (simp add: waiting_def)

text \<open>How a run of \<open>pipewrite\<close> with the bytes \<open>cs\<close> may end: a prefix of them is in the pipe, and
  where it stopped says which processes it woke and whether it is itself asleep.\<close>

definition write_post :: "uint \<Rightarrow> byte list \<Rightarrow> 'a pipes_scheme \<Rightarrow> pipe_stop \<Rightarrow> 'a pipes_scheme \<Rightarrow> bool" where
  "write_post p cs s r s' \<longleftrightarrow>
     (\<exists>k \<le> length cs. pipe_inv (pipes s' p) \<and> in_flight p s' = in_flight p s @ take k cs \<and>
        pi_readopen (pipes s' p) = pi_readopen (pipes s p) \<and> pi_writeopen (pipes s' p) = pi_writeopen (pipes s p) \<and>
        pi_nread (pipes s' p) = pi_nread (pipes s p) \<and>
        (case r of
           PipeDone \<Rightarrow> k = length cs \<and> (\<forall>c. waiting c s' = (c \<noteq> ChanPipeRead p \<and> waiting c s))
         | PipeBroken \<Rightarrow> k < length cs \<and> procs s' = procs s \<and> pipe_full (pipes s' p) \<and>
             (\<not> pi_readopen (pipes s p) \<or> p_killed (procs s ! the (cur_proc s)))
         | PipeBlocked rest \<Rightarrow> rest = drop k cs \<and> rest \<noteq> [] \<and> pipe_full (pipes s' p) \<and>
             pi_readopen (pipes s p) \<and> \<not> p_killed (procs s ! the (cur_proc s)) \<and>
             (\<forall>c. waiting c s' \<longrightarrow> c = ChanPipeWrite p \<or> (c \<noteq> ChanPipeRead p \<and> waiting c s))))"

lemma waiting_sleep:
  "sleep_enter c s = Inr (x, s') \<Longrightarrow> waiting c' s' \<Longrightarrow> c' = c \<or> waiting c' s"
  by (auto simp: sleep_enter_def waiting_def proc_upd_def split: option.splits
      dest!: set_update_subset_insert[THEN subsetD])

lemma pipes_sleep: "sleep_enter c s = Inr (x, s') \<Longrightarrow> pipes s' = pipes s"
  by (auto simp: sleep_enter_def proc_upd_def split: option.splits)

lemma pipewrite_full_run:
  assumes "pipe_full (pipes s p)" "pipewrite_loop p (c # cs) s = Inr (r, s')"
  obtains "r = PipeBroken" "s' = s" "\<not> pi_readopen (pipes s p) \<or> p_killed (procs s ! the (cur_proc s))"
  | "r = PipeBlocked (c # cs)" "pi_readopen (pipes s p)" "\<not> p_killed (procs s ! the (cur_proc s))"
    "sleep_enter (ChanPipeWrite p) (wakeup1 (ChanPipeRead p) s) = Inr ((), s')"
  using assms
  by (auto simp: bnd_def run_simps wakeup_def myproc_def split: option.splits if_splits sum.splits prod.splits)

lemma pipewrite_loop_spec:
  assumes "pipe_inv (pipes s p)" "pipewrite_loop p cs s = Inr (r, s')"
  shows "write_post p cs s r s'"
  using assms
proof (induction cs arbitrary: s)
  case Nil
  then show ?case
    by (auto simp: write_post_def bnd_def run_simps wakeup_def waiting_wakeup1)
next
  case (Cons c cs)
  show ?case
  proof (cases "pipe_full (pipes s p)")
    case True
    from pipewrite_full_run[OF True Cons.prems(2)] show ?thesis
    proof cases
      case 1
      then show ?thesis using True Cons.prems(1) by (simp add: write_post_def)
    next
      case 2
      note w = waiting_sleep[OF 2(4)] pipes_sleep[OF 2(4)]
      show ?thesis unfolding write_post_def
        using True Cons.prems(1) 2(1-3) w by (intro exI[of _ 0]) (auto simp: waiting_wakeup1)
    qed
  next
    case False
    let ?s = "pipe_upd p (pipe_put c) s"
    note put = pq.enq_step[OF Cons.prems(1) False, of c]
    have "pipewrite_loop p cs ?s = Inr (r, s')"
      using Cons.prems(2) False by (simp add: bnd_def run_simps)
    from Cons.IH[OF _ this] put(1) have "write_post p cs ?s r s'" by simp
    then obtain k where k: "k \<le> length cs" "pipe_inv (pipes s' p)" "in_flight p s' = in_flight p ?s @ take k cs"
        "pi_readopen (pipes s' p) = pi_readopen (pipes ?s p)" "pi_writeopen (pipes s' p) = pi_writeopen (pipes ?s p)"
        "pi_nread (pipes s' p) = pi_nread (pipes ?s p)"
        "case r of
           PipeDone \<Rightarrow> k = length cs \<and> (\<forall>c. waiting c s' = (c \<noteq> ChanPipeRead p \<and> waiting c ?s))
         | PipeBroken \<Rightarrow> k < length cs \<and> procs s' = procs ?s \<and> pipe_full (pipes s' p) \<and>
             (\<not> pi_readopen (pipes ?s p) \<or> p_killed (procs ?s ! the (cur_proc ?s)))
         | PipeBlocked rest \<Rightarrow> rest = drop k cs \<and> rest \<noteq> [] \<and> pipe_full (pipes s' p) \<and>
             pi_readopen (pipes ?s p) \<and> \<not> p_killed (procs ?s ! the (cur_proc ?s)) \<and>
             (\<forall>c. waiting c s' \<longrightarrow> c = ChanPipeWrite p \<or> (c \<noteq> ChanPipeRead p \<and> waiting c ?s))"
      unfolding write_post_def by blast
    have keep: "pi_readopen (pipe_put c q) = pi_readopen q" "pi_writeopen (pipe_put c q) = pi_writeopen q"
      "pi_nread (pipe_put c q) = pi_nread q" for q by (simp_all add: pipe_put_def)
    show ?thesis unfolding write_post_def
      using k put(2) by (intro exI[of _ "Suc k"]) (auto simp: keep split: pipe_stop.splits)
  qed
qed

lemma write_post_nwrite:
  assumes "pipe_inv (pipes s p)" "pipe_inv (pipes s' p)" "pi_nread (pipes s' p) = pi_nread (pipes s p)"
    "in_flight p s' = in_flight p s @ take k cs" "k \<le> length cs"
  shows "unat (pi_nwrite (pipes s' p) - pi_nwrite (pipes s p)) = k"
proof -
  let ?a = "pi_nwrite (pipes s' p) - pi_nread (pipes s p)" and ?b = "pi_nwrite (pipes s p) - pi_nread (pipes s p)"
  have l: "unat ?a = unat ?b + k" using arg_cong[OF assms(4), of length] assms(3,5) by simp
  then have k: "k < 2 ^ 32" using unat_uint_bound[of ?a] by linarith
  have "?a = ?b + of_nat k" using arg_cong[OF l, of "of_nat :: nat \<Rightarrow> uint"] by simp
  then have "pi_nwrite (pipes s' p) - pi_nwrite (pipes s p) = of_nat k" by (simp add: algebra_simps)
  then show ?thesis using k by (simp add: unat_of_nat)
qed

lemma piperead_loop_spec:
  assumes "pipe_inv (pipes s p)"
  shows "\<exists>s'. piperead_loop p n s = Inr (take n (in_flight p s), s') \<and> pipe_inv (pipes s' p) \<and>
    in_flight p s' = drop n (in_flight p s) \<and> procs s' = procs s \<and> cur_proc s' = cur_proc s \<and>
    pi_readopen (pipes s' p) = pi_readopen (pipes s p) \<and> pi_writeopen (pipes s' p) = pi_writeopen (pipes s p)"
  using assms
proof (induction n arbitrary: s)
  case (Suc n)
  show ?case
  proof (cases "pipe_empty (pipes s p)")
    case True
    then show ?thesis using Suc.prems by (simp add: bnd_def run_simps pq.empty_iff)
  next
    case False
    let ?s = "pipe_upd p pipe_drop s"
    note drop = pq.deq[OF Suc.prems False]
    from Suc.IH[of ?s] drop obtain s' where s': "piperead_loop p n ?s = Inr (take n (in_flight p ?s), s')"
        "pipe_inv (pipes s' p)" "in_flight p s' = drop n (in_flight p ?s)" "procs s' = procs s" "cur_proc s' = cur_proc s"
        "pi_readopen (pipes s' p) = pi_readopen (pipe_drop (pipes s p))"
        "pi_writeopen (pipes s' p) = pi_writeopen (pipe_drop (pipes s p))" by auto
    have items: "in_flight p s = pipe_get (pipes s p) # in_flight p ?s" using drop by simp
    show ?thesis
      using s' False by (intro exI[of _ s']) (simp add: bnd_def run_simps items, simp add: pipe_drop_def)
  qed
qed (simp add: run_simps)

lemma piperead_run_cases:
  assumes "pipe_inv (pipes s p)" "piperead_run p n s = Inr (r, s')"
  obtains "r = None" "pipe_empty (pipes s p)" "pi_writeopen (pipes s p)" "sleep_enter (ChanPipeRead p) s = Inr ((), s')"
  | "r = Some (-1, [])" "pipe_empty (pipes s p)" "pi_writeopen (pipes s p)" "s' = s" "p_killed (procs s ! the (cur_proc s))"
  | t where "r = Some (int (length (take (nat n) (in_flight p s))), take (nat n) (in_flight p s))"
    "\<not> (pipe_empty (pipes s p) \<and> pi_writeopen (pipes s p))"
    "s' = wakeup1 (ChanPipeWrite p) t" "pipe_inv (pipes t p)" "in_flight p t = drop (nat n) (in_flight p s)" "procs t = procs s"
    "pi_readopen (pipes t p) = pi_readopen (pipes s p)" "pi_writeopen (pipes t p) = pi_writeopen (pipes s p)"
proof (cases "pipe_empty (pipes s p) \<and> pi_writeopen (pipes s p)")
  case True
  then show ?thesis
    using assms(2) that(1,2)
    by (auto simp: piperead_run_def bnd_def run_simps myproc_def split: option.splits if_splits sum.splits prod.splits)
next
  case False
  from piperead_loop_spec[OF assms(1), of "nat n"] obtain t where t:
    "piperead_loop p (nat n) s = Inr (take (nat n) (in_flight p s), t)" "pipe_inv (pipes t p)"
    "in_flight p t = drop (nat n) (in_flight p s)" "procs t = procs s"
    "pi_readopen (pipes t p) = pi_readopen (pipes s p)" "pi_writeopen (pipes t p) = pi_writeopen (pipes s p)" by blast
  then show ?thesis
    using assms(2) False that(3)[of t] by (auto simp: piperead_run_def bnd_def run_simps wakeup_def)
qed

lemma pipeclose_run:
  assumes "pipeclose p writable s = Inr (x, s')"
  shows "pipes s' p = (if writable then (pipes s p)\<lparr>pi_writeopen := False\<rparr> else (pipes s p)\<lparr>pi_readopen := False\<rparr>)"
    "procs s' = procs (wakeup1 (if writable then ChanPipeRead p else ChanPipeWrite p) s)"
  using assms
  by (auto simp: pipeclose_def bnd_def run_simps wakeup_def kfree_def Let_def wakeup1_def split: if_splits)

subsection \<open>Order of the bytes\<close>

text \<open>
  Runs of writers and readers of the pipe at \<open>p\<close>, closing its ends, and anything that does not touch
  it, in any order and by any processes, with the bytes sent and received so far.
\<close>

inductive pipe_step ::
  "uint \<Rightarrow> 'a pipes_scheme \<times> byte list \<times> byte list \<Rightarrow> 'a pipes_scheme \<times> byte list \<times> byte list \<Rightarrow> bool" for p where
  writer: "pipewrite_loop p cs s = Inr (st, s') \<Longrightarrow>
    pipe_step p (s, w, r) (s', w @ take (unat (pi_nwrite (pipes s' p) - pi_nwrite (pipes s p))) cs, r)"
| reader: "piperead_run p n s = Inr (Some (m, bs), s') \<Longrightarrow> pipe_step p (s, w, r) (s', w, r @ bs)"
| reader_sleeps: "piperead_run p n s = Inr (None, s') \<Longrightarrow> pipe_step p (s, w, r) (s', w, r)"
| closer: "pipeclose p writable s = Inr (x, s') \<Longrightarrow> pipe_step p (s, w, r) (s', w, r)"
| elsewhere: "pipes s' p = pipes s p \<Longrightarrow> pipe_step p (s, w, r) (s', w, r)"

definition fifo_inv :: "uint \<Rightarrow> 'a pipes_scheme \<times> byte list \<times> byte list \<Rightarrow> bool" where
  "fifo_inv p c \<longleftrightarrow> (case c of (s, w, r) \<Rightarrow> pipe_inv (pipes s p) \<and> w = r @ in_flight p s)"

lemma fifo_inv_step:
  assumes "pipe_step p c c'" "fifo_inv p c"
  shows "fifo_inv p c'"
  using assms
proof (cases rule: pipe_step.cases)
  case (writer cs s st s' w r)
  then have inv: "pipe_inv (pipes s p)" "w = r @ in_flight p s" using assms(2) by (simp_all add: fifo_inv_def)
  from pipewrite_loop_spec[OF inv(1) writer(3)] obtain k where k: "k \<le> length cs" "pipe_inv (pipes s' p)"
      "in_flight p s' = in_flight p s @ take k cs" "pi_nread (pipes s' p) = pi_nread (pipes s p)"
    unfolding write_post_def by blast
  show ?thesis using k inv writer(2) write_post_nwrite[OF inv(1) k(2,4,3,1)] by (simp add: fifo_inv_def)
next
  case (reader n s m bs s' w r)
  then have inv: "pipe_inv (pipes s p)" "w = r @ in_flight p s" using assms(2) by (simp_all add: fifo_inv_def)
  from piperead_run_cases[OF inv(1) reader(3)] show ?thesis using inv reader(2) by cases (auto simp: fifo_inv_def)
next
  case (reader_sleeps n s s' w r)
  then have inv: "pipe_inv (pipes s p)" "w = r @ in_flight p s" using assms(2) by (simp_all add: fifo_inv_def)
  from piperead_run_cases[OF inv(1) reader_sleeps(3)] show ?thesis
    using inv reader_sleeps(2) by cases (auto simp: fifo_inv_def dest: pipes_sleep)
next
  case (closer writable s x s' w r)
  then show ?thesis using assms(2) pipeclose_run(1)[OF closer(3)]
    by (simp add: fifo_inv_def pipe_inv_def pipe_items_def split: if_splits)
next
  case (elsewhere s' s w r)
  then show ?thesis using assms(2) by (simp add: fifo_inv_def)
qed

lemma fifo_inv_reach: "(pipe_step p)\<^sup>*\<^sup>* c c' \<Longrightarrow> fifo_inv p c \<Longrightarrow> fifo_inv p c'"
  by (induction rule: rtranclp_induct) (auto intro: fifo_inv_step)

text \<open>C22. Bytes leave a pipe in the order they entered it. Starting from an empty pipe, after any
  interleaving of runs of writers and readers, the bytes received followed by the at most
  \<open>PIPESIZE\<close> bytes still in the ring are exactly the bytes sent, also when the 32-bit counters wrap.\<close>

theorem pipe_fifo:
  assumes "pipe_inv (pipes s0 p)" "pipe_empty (pipes s0 p)" "(pipe_step p)\<^sup>*\<^sup>* (s0, [], []) (s, sent, received)"
  shows "sent = received @ in_flight p s \<and> length (in_flight p s) \<le> PIPESIZE"
proof -
  have "fifo_inv p (s0, [], [])" using assms(1,2) by (simp add: fifo_inv_def pq.empty_iff)
  from fifo_inv_reach[OF assms(3) this] show ?thesis by (auto simp: fifo_inv_def pipe_inv_def)
qed

text \<open>A kernel in which every pipe is \<open>pi\<close> and the processes are \<open>ps\<close>, the first of them running.\<close>

definition pipes_example :: "pipe \<Rightarrow> proc list \<Rightarrow> pipes" where
  "pipes_example pi ps = fs.extend ((fs_boot (\<lambda>_ _. 0) [])\<lparr>procs := ps, cur_proc := Some 0\<rparr>) \<lparr>pipes = \<lambda>_. pi\<rparr>"

lemma pipes_example_sel [simp]:
  "pipes (pipes_example pi ps) p = pi" "procs (pipes_example pi ps) = ps" "cur_proc (pipes_example pi ps) = Some 0"
  by (simp_all add: pipes_example_def fs.extend_def)

definition pipe_example :: pipe where
  "pipe_example = \<lparr>pi_data = replicate PIPESIZE 0, pi_nread = - 1, pi_nwrite = - 1, pi_readopen = True, pi_writeopen = True\<rparr>"

lemma pipe_example_inv: "pipe_inv pipe_example" "pipe_empty pipe_example" "pi_readopen pipe_example"
  by (simp_all add: pipe_inv_def pipe_empty_def pipe_example_def PIPESIZE_def)

theorem pipe_fifo_witness:
  "\<exists>s. (pipe_step 0)\<^sup>*\<^sup>* (pipes_example pipe_example [], [], []) (s, [1, 2], [1]) \<and> in_flight 0 s = [2]"
proof -
  let ?s0 = "pipes_example pipe_example []"
  let ?s2 = "wakeup1 (ChanPipeRead 0) (pipe_upd 0 (pipe_put 2) (pipe_upd 0 (pipe_put 1) ?s0))"
  have nf: "\<not> pipe_full pipe_example" "\<not> pipe_full (pipe_put 1 pipe_example)"
    by (simp_all add: pipe_full_def pipe_put_def pipe_example_def PIPESIZE_def)
  have "pipewrite_loop 0 [1, 2] ?s0 = Inr (PipeDone, ?s2)"
    using nf by (simp add: bnd_def run_simps wakeup_def)
  moreover have "pi_nwrite (pipes ?s2 0) - pi_nwrite (pipes ?s0 0) = 2"
    by (simp add: pipe_put_def pipe_example_def)
  ultimately have w: "pipe_step 0 (?s0, [], []) (?s2, [1, 2], [])"
    using pipe_step.writer[of 0 "[1, 2]" ?s0 PipeDone ?s2 "[]" "[]"] by simp
  have i2: "pipe_inv (pipes ?s2 0)" "in_flight 0 ?s2 = [1, 2]"
    using pq.enq_step[OF pipe_example_inv(1) nf(1)] pq.enq_step[OF _ nf(2)] pipe_example_inv(2)
    by (simp_all add: pq.empty_iff[OF pipe_example_inv(1)])
  then have "\<not> pipe_empty (pipes ?s2 0)" by (simp add: pipe_empty_iff)
  then obtain s3 where "piperead_run 0 1 ?s2 = Inr (Some (1, [1]), s3)"
    using piperead_loop_spec[OF i2(1), of 1] i2(2) by (auto simp: piperead_run_def bnd_def run_simps wakeup_def)
  from pipe_step.reader[OF this, of "[1, 2]" "[]"] w
  have r: "(pipe_step 0)\<^sup>*\<^sup>* (?s0, [], []) (s3, [1, 2], [1])" by simp
  from pipe_fifo[OF _ _ r] pipe_example_inv have "[1, 2] = [1] @ in_flight 0 s3" by simp
  then show ?thesis using r by auto
qed

subsection \<open>Nobody sleeps without a reason\<close>

text \<open>A reader asleep on the pipe has nothing to read and a writer that may come; a writer asleep has no
  room and a reader that may come.\<close>

definition pipe_awake :: "uint \<Rightarrow> 'a pipes_scheme \<Rightarrow> bool" where
  "pipe_awake p s \<longleftrightarrow>
     (waiting (ChanPipeRead p) s \<longrightarrow> pipe_empty (pipes s p) \<and> pi_writeopen (pipes s p)) \<and>
     (waiting (ChanPipeWrite p) s \<longrightarrow> pipe_full (pipes s p) \<and> pi_readopen (pipes s p))"

lemma pipe_awake_write:
  assumes "pipe_inv (pipes s p)" "pipe_awake p s" "pi_readopen (pipes s p)" "\<not> p_killed (procs s ! the (cur_proc s))"
    and "pipewrite_loop p cs s = Inr (st, s')"
  shows "pipe_awake p s'"
proof -
  from pipewrite_loop_spec[OF assms(1,5)] obtain k where k: "k \<le> length cs" "pipe_inv (pipes s' p)"
      "in_flight p s' = in_flight p s @ take k cs" "pi_readopen (pipes s' p) = pi_readopen (pipes s p)"
      "case st of
           PipeDone \<Rightarrow> k = length cs \<and> (\<forall>c. waiting c s' = (c \<noteq> ChanPipeRead p \<and> waiting c s))
         | PipeBroken \<Rightarrow> k < length cs \<and> procs s' = procs s \<and> pipe_full (pipes s' p) \<and>
             (\<not> pi_readopen (pipes s p) \<or> p_killed (procs s ! the (cur_proc s)))
         | PipeBlocked rest \<Rightarrow> rest = drop k cs \<and> rest \<noteq> [] \<and> pipe_full (pipes s' p) \<and>
             pi_readopen (pipes s p) \<and> \<not> p_killed (procs s ! the (cur_proc s)) \<and>
             (\<forall>c. waiting c s' \<longrightarrow> c = ChanPipeWrite p \<or> (c \<noteq> ChanPipeRead p \<and> waiting c s))"
    unfolding write_post_def by blast
  have "pipe_full (pipes s p) \<Longrightarrow> pipe_full (pipes s' p)"
    using pq.full_iff[OF assms(1)] pq.full_iff[OF k(2)] pq.bounded[OF k(2)] arg_cong[OF k(3), of length] by simp
  then show ?thesis using k(4,5) assms(2-4) by (cases st) (auto simp: pipe_awake_def)
qed

lemma waiting_procs: "procs s = procs s' \<Longrightarrow> waiting c s = waiting c s'"
  by (simp add: waiting_def)

lemma pipe_awake_read:
  assumes "pipe_inv (pipes s p)" "pipe_awake p s" "piperead_run p n s = Inr (r, s')"
  shows "pipe_awake p s'"
  using piperead_run_cases[OF assms(1,3)]
proof cases
  case 1
  then show ?thesis
    using assms(2) waiting_sleep[OF 1(4)] pipes_sleep[OF 1(4)] by (auto simp: pipe_awake_def)
next
  case (3 t)
  then show ?thesis
    using assms(2) waiting_procs[OF 3(6)] by (auto simp: pipe_awake_def waiting_wakeup1)
qed (use assms(2) in simp)

lemma pipe_awake_close:
  assumes "pipe_awake p s" "pipeclose p writable s = Inr (x, s')"
  shows "pipe_awake p s'"
proof -
  have "waiting c s' = waiting c (wakeup1 (if writable then ChanPipeRead p else ChanPipeWrite p) s)" for c
    by (rule waiting_procs[OF pipeclose_run(2)[OF assms(2)]])
  then show ?thesis
    using assms(1) pipeclose_run(1)[OF assms(2)]
    by (auto simp: pipe_awake_def waiting_wakeup1 pipe_empty_def pipe_full_def split: if_splits)
qed

text \<open>C23. No wakeup is lost: a run of a reader, a run of a writer that has not been killed while the read
  end is open, and closing an end all keep it true that a process asleep on the pipe has a
  reason to be.\<close>

theorem pipe_no_lost_wakeup:
  assumes "pipe_inv (pipes s p)" "pipe_awake p s"
  shows "(pi_readopen (pipes s p) \<and> \<not> p_killed (procs s ! the (cur_proc s)) \<and>
      pipewrite_loop p cs s = Inr (st, s') \<longrightarrow> pipe_awake p s') \<and>
    (piperead_run p n s = Inr (r, s') \<longrightarrow> pipe_awake p s') \<and>
    (pipeclose p writable s = Inr (x, s') \<longrightarrow> pipe_awake p s')"
  using pipe_awake_write[OF assms] pipe_awake_read[OF assms] pipe_awake_close[OF assms(2)] by blast

text \<open>A running process, and a reader asleep on the pipe at 0.\<close>

definition runner :: proc where "runner = hd (procs ptable_example)"
definition sleeping_reader :: proc where "sleeping_reader = runner\<lparr>p_state := SLEEPING, p_chan := Some (ChanPipeRead 0)\<rparr>"

lemma runner_sel [simp]: "\<not> p_killed runner" "p_state runner = RUNNING" "p_chan runner = None"
  by (simp_all add: runner_def ptable_example_def Let_def)

theorem pipe_no_lost_wakeup_witness:
  "\<exists>s'. pipewrite_loop 0 [1] (pipes_example pipe_example [runner, sleeping_reader]) = Inr (PipeDone, s') \<and>
     pipe_awake 0 s'"
proof -
  let ?s = "pipes_example pipe_example [runner, sleeping_reader]"
  have "\<not> pipe_full pipe_example" by (simp add: pipe_full_def pipe_example_def PIPESIZE_def)
  then obtain s' where s': "pipewrite_loop 0 [1] ?s = Inr (PipeDone, s')"
    by (simp add: bnd_def run_simps wakeup_def)
  have "\<not> waiting (ChanPipeWrite 0) ?s" by (simp add: waiting_def sleeping_reader_def)
  moreover have "pi_writeopen pipe_example" by (simp add: pipe_example_def)
  ultimately have "pipe_awake 0 ?s" using pipe_example_inv by (simp add: pipe_awake_def)
  from pipe_no_lost_wakeup[OF _ this, of "[1]" PipeDone s'] s' pipe_example_inv show ?thesis by auto
qed

text \<open>C24. The exception is real: a writer that has been killed fills the ring for a sleeping reader and
  returns \<open>-1\<close> without waking it.\<close>

theorem killed_writer_leaves_reader_asleep:
  assumes "pipe_inv (pipes s p)" "pipe_empty (pipes s p)" "waiting (ChanPipeRead p) s"
    "cur_proc s = Some i" "p_killed (procs s ! i)" "PIPESIZE < nat n" "nat n \<le> length addr"
  shows "\<exists>s'. pipewrite p addr n s = Inr (-1, s') \<and> waiting (ChanPipeRead p) s' \<and>
    in_flight p s' = take PIPESIZE addr"
proof -
  have run: "\<exists>s'. pipewrite_loop p cs t = Inr (PipeBroken, s') \<and> procs s' = procs s"
    if "pipe_inv (pipes t p)" "procs t = procs s" "cur_proc t = Some i" "PIPESIZE < length (in_flight p t) + length cs" for t cs
    using that
  proof (induction cs arbitrary: t)
    case Nil
    then show ?case using pq.bounded[OF Nil(1)] by simp
  next
    case (Cons c cs)
    show ?case
    proof (cases "pipe_full (pipes t p)")
      case True
      then show ?thesis using Cons.prems assms(5) by (simp add: bnd_def run_simps myproc_def)
    next
      case False
      have "\<exists>s'. pipewrite_loop p cs (pipe_upd p (pipe_put c) t) = Inr (PipeBroken, s') \<and> procs s' = procs s"
        using pq.enq_step[OF Cons.prems(1) False, of c] Cons.prems by (intro Cons.IH) simp_all
      then show ?thesis using False by (simp add: bnd_def run_simps)
    qed
  qed
  have e: "in_flight p s = []" using assms(1,2) pq.empty_iff by blast
  obtain s' where s': "pipewrite_loop p (take (nat n) addr) s = Inr (PipeBroken, s')" "procs s' = procs s"
    using run[OF assms(1) refl assms(4), of "take (nat n) addr"] assms(6,7) e by auto
  from pipewrite_loop_spec[OF assms(1) s'(1)] obtain k where k: "k < length (take (nat n) addr)"
      "pipe_inv (pipes s' p)" "in_flight p s' = take k (take (nat n) addr)" "pipe_full (pipes s' p)"
    unfolding write_post_def using e by auto
  have "k = PIPESIZE" using pq.full_iff[OF k(2)] k(1,3,4) by (simp del: pipe_items_length)
  then show ?thesis
    using s' k assms(3) waiting_procs[OF s'(2), of "ChanPipeRead p"] by (auto simp: pipewrite_def bnd_def run_simps)
qed

theorem killed_writer_leaves_reader_asleep_witness:
  "\<exists>s'. pipewrite 0 (replicate 600 7) 600 (pipes_example pipe_example [runner\<lparr>p_killed := True\<rparr>, sleeping_reader]) =
       Inr (-1, s') \<and> waiting (ChanPipeRead 0) s' \<and> in_flight 0 s' = replicate PIPESIZE 7"
  using killed_writer_leaves_reader_asleep
    [of "pipes_example pipe_example [runner\<lparr>p_killed := True\<rparr>, sleeping_reader]" 0 0 600 "replicate 600 7"]
    pipe_example_inv
  by (simp add: PIPESIZE_def waiting_def sleeping_reader_def)

end
