(* ===== verification/File.thy ===== *)
theory File
  imports Pipe
begin

text \<open>
  The open-file table of \<^verbatim>\<open>file.c\<close>, and \<open>pipealloc\<close> of \<^verbatim>\<open>pipe.c\<close>, which allocates two entries
  of it. A \<open>struct file\<close> pointer is its slot. Data moves as lists of bytes.
\<close>

subsection \<open>State\<close>

definition NFILE :: nat where "NFILE = 100"

datatype fd_type = FD_NONE | FD_PIPE | FD_INODE

record file_t =
  f_type :: fd_type
  f_ref :: int
  f_readable :: bool
  f_writable :: bool
  f_pipe :: uint
  f_ip :: nat
  f_off :: uint

record files = pipes +
  ftable :: "file_t list"

definition file_upd :: "nat \<Rightarrow> (file_t \<Rightarrow> file_t) \<Rightarrow> 'a files_scheme \<Rightarrow> 'a files_scheme" where
  "file_upd f g s = s\<lparr>ftable := (ftable s)[f := g (ftable s ! f)]\<rparr>"

subsection \<open>Allocation and reference counts\<close>

definition filealloc :: "('a files_scheme, nat option) kernel" where
  "filealloc s =
     (case find_idx (\<lambda>f. f_ref f = 0) (ftable s) of
        None \<Rightarrow> Inr (None, s)
      | Some i \<Rightarrow> Inr (Some i, file_upd i (\<lambda>f. f\<lparr>f_ref := 1\<rparr>) s))"

definition filedup :: "nat \<Rightarrow> ('a files_scheme, nat) kernel" where
  "filedup f =
     bnd (fetch (\<lambda>s. f_ref (ftable s ! f))) (\<lambda>r.
     if r < 1 then panic ''filedup''
     else bnd (modify (file_upd f (\<lambda>f. f\<lparr>f_ref := f_ref f + 1\<rparr>))) (\<lambda>_. ret f))"

definition fileclose :: "nat \<Rightarrow> ('a files_scheme, unit) kernel" where
  "fileclose f =
     bnd (fetch (\<lambda>s. f_ref (ftable s ! f))) (\<lambda>r.
     if r < 1 then panic ''fileclose''
     else
       bnd (modify (file_upd f (\<lambda>f. f\<lparr>f_ref := f_ref f - 1\<rparr>))) (\<lambda>_.
       if r - 1 > 0 then ret ()
       else
         bnd (fetch (\<lambda>s. ftable s ! f)) (\<lambda>ff.
         bnd (modify (file_upd f (\<lambda>f. f\<lparr>f_ref := 0, f_type := FD_NONE\<rparr>))) (\<lambda>_.
         case f_type ff of
           FD_PIPE \<Rightarrow> pipeclose (f_pipe ff) (f_writable ff)
         | FD_INODE \<Rightarrow> bnd begin_op (\<lambda>_. bnd (iput (f_ip ff)) (\<lambda>_. end_op))
         | FD_NONE \<Rightarrow> ret ()))))"

definition filestat :: "nat \<Rightarrow> ('a files_scheme, stat option) kernel" where
  "filestat f =
     bnd (fetch (\<lambda>s. ftable s ! f)) (\<lambda>ff.
     if f_type ff = FD_INODE then
       bnd (ilock (f_ip ff)) (\<lambda>_.
       bnd (fetch (\<lambda>s. stati (inodes s ! f_ip ff))) (\<lambda>st.
       bnd (iunlock (f_ip ff)) (\<lambda>_. ret (Some st))))
     else ret None)"

subsection \<open>Reading and writing\<close>

definition fileread ::
  "'a files_scheme devsw \<Rightarrow> nat \<Rightarrow> int \<Rightarrow> ('a files_scheme, int \<times> byte list) kernel" where
  "fileread dv f n =
     bnd (fetch (\<lambda>s. ftable s ! f)) (\<lambda>ff.
     if \<not> f_readable ff then ret (-1, [])
     else case f_type ff of
       FD_PIPE \<Rightarrow> piperead (f_pipe ff) n
     | FD_INODE \<Rightarrow>
         bnd (ilock (f_ip ff)) (\<lambda>_.
         bnd (readi dv (f_ip ff) (f_off ff) (word_of_int n)) (\<lambda>(r, bytes).
         bnd (whenk (r > 0) (modify (file_upd f (\<lambda>f. f\<lparr>f_off := f_off f + word_of_int r\<rparr>)))) (\<lambda>_.
         bnd (iunlock (f_ip ff)) (\<lambda>_. ret (r, bytes)))))
     | FD_NONE \<Rightarrow> panic ''fileread'')"

definition FILEWRITE_MAX :: int where
  "FILEWRITE_MAX = ((MAXOPBLOCKS - 1 - 1 - 2) div 2) * 512"

text \<open>One transaction of \<open>filewrite\<close>.\<close>

definition filewrite_op ::
  "'a files_scheme devsw \<Rightarrow> nat \<Rightarrow> nat \<Rightarrow> byte list \<Rightarrow> int \<Rightarrow> ('a files_scheme, int) kernel" where
  "filewrite_op dv f ip addr n1 =
     bnd begin_op (\<lambda>_.
     bnd (ilock ip) (\<lambda>_.
     bnd (fetch (\<lambda>s. f_off (ftable s ! f))) (\<lambda>off.
     bnd (writei dv ip addr off (word_of_int n1)) (\<lambda>r.
     bnd (whenk (r > 0) (modify (file_upd f (\<lambda>f. f\<lparr>f_off := f_off f + word_of_int r\<rparr>)))) (\<lambda>_.
     bnd (iunlock ip) (\<lambda>_.
     bnd end_op (\<lambda>_. ret r)))))))"

function filewrite_loop ::
  "'a files_scheme devsw \<Rightarrow> nat \<Rightarrow> nat \<Rightarrow> byte list \<Rightarrow> int \<Rightarrow> int \<Rightarrow> ('a files_scheme, int) kernel" where
  "filewrite_loop dv f ip addr n i =
     (if i < n then
        let n1 = min (n - i) FILEWRITE_MAX in
        bnd (filewrite_op dv f ip (take (nat n1) (drop (nat i) addr)) n1) (\<lambda>r.
        if r < 0 then ret i
        else if r \<noteq> n1 then panic ''short filewrite''
        else filewrite_loop dv f ip addr n (i + n1))
      else ret i)"
  by pat_completeness auto
termination
  by (relation "measure (\<lambda>(dv, f, ip, addr, n, i). nat (n - i))")
     (auto simp: FILEWRITE_MAX_def MAXOPBLOCKS_def)

declare filewrite_loop.simps [simp del]

definition filewrite ::
  "'a files_scheme devsw \<Rightarrow> nat \<Rightarrow> byte list \<Rightarrow> int \<Rightarrow> ('a files_scheme, int) kernel" where
  "filewrite dv f addr n =
     bnd (fetch (\<lambda>s. ftable s ! f)) (\<lambda>ff.
     if \<not> f_writable ff then ret (-1)
     else case f_type ff of
       FD_PIPE \<Rightarrow> pipewrite (f_pipe ff) addr n
     | FD_INODE \<Rightarrow>
         bnd (filewrite_loop dv f (f_ip ff) addr n 0) (\<lambda>i. ret (if i = n then n else -1))
     | FD_NONE \<Rightarrow> panic ''filewrite'')"

subsection \<open>Making a pipe\<close>

definition pipealloc_bad :: "nat option \<Rightarrow> nat option \<Rightarrow> ('a files_scheme, (nat \<times> nat) option) kernel" where
  "pipealloc_bad f0 f1 =
     bnd (case f0 of None \<Rightarrow> ret () | Some f \<Rightarrow> fileclose f) (\<lambda>_.
     bnd (case f1 of None \<Rightarrow> ret () | Some f \<Rightarrow> fileclose f) (\<lambda>_. ret None))"

definition pipe_open :: "pipe \<Rightarrow> pipe" where
  "pipe_open pi = pi\<lparr>pi_readopen := True, pi_writeopen := True, pi_nwrite := 0, pi_nread := 0\<rparr>"

definition pipealloc :: "('a files_scheme, (nat \<times> nat) option) kernel" where
  "pipealloc =
     bnd filealloc (\<lambda>f0.
     case f0 of
       None \<Rightarrow> pipealloc_bad None None
     | Some i0 \<Rightarrow>
         bnd filealloc (\<lambda>f1.
         case f1 of
           None \<Rightarrow> pipealloc_bad f0 None
         | Some i1 \<Rightarrow>
             bnd kalloc (\<lambda>p.
             if p = 0 then pipealloc_bad f0 f1
             else
               bnd (modify (pipe_upd p pipe_open)) (\<lambda>_.
               bnd (modify (file_upd i0 (\<lambda>f. f\<lparr>f_type := FD_PIPE, f_readable := True,
                                                f_writable := False, f_pipe := p\<rparr>))) (\<lambda>_.
               bnd (modify (file_upd i1 (\<lambda>f. f\<lparr>f_type := FD_PIPE, f_readable := False,
                                                f_writable := True, f_pipe := p\<rparr>))) (\<lambda>_.
               ret (Some (i0, i1))))))))"

end
