(* ===== verification/Vm.thy ===== *)
theory Vm
  imports File
begin

text \<open>
  The page tables of \<^verbatim>\<open>vm.c\<close>. Page directories, page tables and user pages are pages of the
  allocator, and their entries are words of the kernel's byte memory, so every operation here
  reads and writes \<open>mem\<close>. A page-directory pointer is the kernel address of its page; 0 is the
  null pointer. \<open>cr3\<close> holds the kernel address of the active directory (the register has its
  physical address).
\<close>

subsection \<open>Constants and state\<close>

definition EXTMEM :: uint where "EXTMEM = 0x100000"
definition DEVSPACE :: uint where "DEVSPACE = 0xFE000000"
definition KERNLINK :: uint where "KERNLINK = KERNBASE + EXTMEM"
definition NPDENTRIES :: nat where "NPDENTRIES = 1024"

definition PTE_P :: uint where "PTE_P = 1"
definition PTE_W :: uint where "PTE_W = 2"
definition PTE_U :: uint where "PTE_U = 4"

definition PDX :: "uint \<Rightarrow> uint" where "PDX va = drop_bit 22 va AND 0x3FF"
definition PTX :: "uint \<Rightarrow> uint" where "PTX va = drop_bit 12 va AND 0x3FF"
definition PGADDR :: "uint \<Rightarrow> uint \<Rightarrow> uint \<Rightarrow> uint" where
  "PGADDR d t o' = push_bit 22 d OR push_bit 12 t OR o'"
definition PTE_ADDR :: "uint \<Rightarrow> uint" where "PTE_ADDR pte = pte AND NOT 0xFFF"
definition PTE_FLAGS :: "uint \<Rightarrow> uint" where "PTE_FLAGS pte = pte AND 0xFFF"

definition present :: "uint \<Rightarrow> bool" where "present e \<longleftrightarrow> e AND PTE_P \<noteq> 0"

text \<open>\<open>data_sym\<close> is the linker symbol \<open>data\<close>.\<close>

record vm = files +
  kpgdir :: uint
  cr3 :: uint
  ts_esp0 :: uint
  data_sym :: uint

definition set_word :: "uint \<Rightarrow> uint \<Rightarrow> 'a kmem_scheme \<Rightarrow> 'a kmem_scheme" where
  "set_word a w s = s\<lparr>mem := st32 (mem s) a w\<rparr>"

primrec store_bytes :: "memory \<Rightarrow> uint \<Rightarrow> byte list \<Rightarrow> memory" where
  "store_bytes m a [] = m"
| "store_bytes m a (b # bs) = store_bytes (m(a := b)) (a + 1) bs"

definition load_bytes :: "memory \<Rightarrow> uint \<Rightarrow> nat \<Rightarrow> byte list" where
  "load_bytes m a n = map (\<lambda>k. m (a + of_nat k)) [0..<n]"

subsection \<open>Walking and mapping\<close>

definition walkpgdir :: "uint \<Rightarrow> uint \<Rightarrow> bool \<Rightarrow> ('a kmem_scheme, uint) kernel" where
  "walkpgdir pgdir va alloc =
     (let pde = pgdir + 4 * PDX va in
      bnd (fetch (\<lambda>s. ld32 (mem s) pde)) (\<lambda>e.
      if present e then ret (P2V (PTE_ADDR e) + 4 * PTX va)
      else if \<not> alloc then ret 0
      else
        bnd kalloc (\<lambda>pgtab.
        if pgtab = 0 then ret 0
        else
          bnd (modify (\<lambda>s. s\<lparr>mem := memset (mem s) pgtab 0 PGSIZE\<rparr>)) (\<lambda>_.
          bnd (modify (set_word pde (V2P pgtab OR PTE_P OR PTE_W OR PTE_U))) (\<lambda>_.
          ret (pgtab + 4 * PTX va))))))"

text \<open>
  The loop of \<open>mappages\<close> steps \<open>a\<close> by a page until it equals \<open>last\<close>; the last argument is the
  number of steps still to make, \<^verbatim>\<open>(last - a) / PGSIZE\<close> in the arithmetic of the machine.
\<close>

primrec mappages_loop :: "uint \<Rightarrow> uint \<Rightarrow> uint \<Rightarrow> uint \<Rightarrow> nat \<Rightarrow> ('a kmem_scheme, int) kernel" where
  "mappages_loop pgdir perm a pa 0 =
     bnd (walkpgdir pgdir a True) (\<lambda>pte.
     if pte = 0 then ret (-1)
     else bnd (fetch (\<lambda>s. ld32 (mem s) pte)) (\<lambda>e.
          if present e then panic ''remap''
          else bnd (modify (set_word pte (pa OR perm OR PTE_P))) (\<lambda>_. ret 0)))"
| "mappages_loop pgdir perm a pa (Suc k) =
     bnd (walkpgdir pgdir a True) (\<lambda>pte.
     if pte = 0 then ret (-1)
     else bnd (fetch (\<lambda>s. ld32 (mem s) pte)) (\<lambda>e.
          if present e then panic ''remap''
          else bnd (modify (set_word pte (pa OR perm OR PTE_P))) (\<lambda>_.
               mappages_loop pgdir perm (a + PGSIZE) (pa + PGSIZE) k)))"

definition mappages :: "uint \<Rightarrow> uint \<Rightarrow> uint \<Rightarrow> uint \<Rightarrow> uint \<Rightarrow> ('a kmem_scheme, int) kernel" where
  "mappages pgdir va sz pa perm =
     (let a = PGROUNDDOWN va; last = PGROUNDDOWN (va + sz - 1)
      in mappages_loop pgdir perm a pa (unat ((last - a) div PGSIZE)))"

subsection \<open>Releasing\<close>

text \<open>
  The loop of \<open>deallocuvm\<close>. Its step could wrap around the address space only for sizes in
  the last page of it, and then the loop never ends.
\<close>

function deallocuvm_loop :: "uint \<Rightarrow> uint \<Rightarrow> uint \<Rightarrow> ('a kmem_scheme, unit) kernel" where
  "deallocuvm_loop pgdir oldsz a =
     (if a < oldsz then
        bnd (walkpgdir pgdir a False) (\<lambda>pte.
        if pte = 0 then
          (if a < PGADDR (PDX a + 1) 0 0 then deallocuvm_loop pgdir oldsz (PGADDR (PDX a + 1) 0 0)
           else stuck Diverges)
        else
          bnd (fetch (\<lambda>s. ld32 (mem s) pte)) (\<lambda>e.
          bnd (if present e then
                 (if PTE_ADDR e = 0 then panic ''kfree''
                  else bnd (kfree (P2V (PTE_ADDR e))) (\<lambda>_. modify (set_word pte 0)))
               else ret ()) (\<lambda>_.
          if a < a + PGSIZE then deallocuvm_loop pgdir oldsz (a + PGSIZE) else stuck Diverges)))
      else ret ())"
  by pat_completeness auto
termination
proof (relation "measure (\<lambda>(pgdir, oldsz, a). unat oldsz - unat a)", goal_cases)
  case (2 pgdir oldsz a x)
  then show ?case by (simp add: word_less_nat_alt diff_less_mono2)
next
  case (3 pgdir oldsz a x xa xb)
  then show ?case by (simp add: word_less_nat_alt diff_less_mono2)
qed simp

declare deallocuvm_loop.simps [simp del]

definition deallocuvm :: "uint \<Rightarrow> uint \<Rightarrow> uint \<Rightarrow> ('a kmem_scheme, uint) kernel" where
  "deallocuvm pgdir oldsz newsz =
     (if newsz \<ge> oldsz then ret oldsz
      else bnd (deallocuvm_loop pgdir oldsz (PGROUNDUP newsz)) (\<lambda>_. ret newsz))"

definition freevm_entry :: "uint \<Rightarrow> nat \<Rightarrow> ('a kmem_scheme, unit) kernel" where
  "freevm_entry pgdir i =
     bnd (fetch (\<lambda>s. ld32 (mem s) (pgdir + 4 * of_nat i))) (\<lambda>e.
     whenk (present e) (kfree (P2V (PTE_ADDR e))))"

definition freevm :: "uint \<Rightarrow> ('a kmem_scheme, unit) kernel" where
  "freevm pgdir =
     (if pgdir = 0 then panic ''freevm: no pgdir''
      else
        bnd (deallocuvm pgdir KERNBASE 0) (\<lambda>_.
        bnd (for_each (freevm_entry pgdir) [0..<NPDENTRIES]) (\<lambda>_.
        kfree pgdir)))"

subsection \<open>The kernel's mappings\<close>

definition kmap :: "uint \<Rightarrow> (uint \<times> uint \<times> uint \<times> uint) list" where
  "kmap data =
     [(KERNBASE, 0, EXTMEM, PTE_W),
      (KERNLINK, V2P KERNLINK, V2P data, 0),
      (data, V2P data, PHYSTOP, PTE_W),
      (DEVSPACE, DEVSPACE, 0, PTE_W)]"

primrec setupkvm_loop :: "uint \<Rightarrow> (uint \<times> uint \<times> uint \<times> uint) list \<Rightarrow> ('a kmem_scheme, uint) kernel" where
  "setupkvm_loop pgdir [] = ret pgdir"
| "setupkvm_loop pgdir (k # ks) =
     (case k of (virt, phys_start, phys_end, perm) \<Rightarrow>
        bnd (mappages pgdir virt (phys_end - phys_start) phys_start perm) (\<lambda>r.
        if r < 0 then bnd (freevm pgdir) (\<lambda>_. ret 0)
        else setupkvm_loop pgdir ks))"

definition setupkvm :: "uint \<Rightarrow> ('a kmem_scheme, uint) kernel" where
  "setupkvm data =
     bnd kalloc (\<lambda>pgdir.
     if pgdir = 0 then ret 0
     else
       bnd (modify (\<lambda>s. s\<lparr>mem := memset (mem s) pgdir 0 PGSIZE\<rparr>)) (\<lambda>_.
       if P2V PHYSTOP > DEVSPACE then panic ''PHYSTOP too high''
       else setupkvm_loop pgdir (kmap data)))"

definition switchkvm :: "('a vm_scheme, unit) kernel" where
  "switchkvm = modify (\<lambda>s. s\<lparr>cr3 := kpgdir s\<rparr>)"

definition kvmalloc :: "('a vm_scheme, unit) kernel" where
  "kvmalloc =
     bnd (fetch data_sym) (\<lambda>data.
     bnd (setupkvm data) (\<lambda>pgdir.
     bnd (modify (\<lambda>s. s\<lparr>kpgdir := pgdir\<rparr>)) (\<lambda>_. switchkvm)))"

definition switchuvm :: "nat option \<Rightarrow> ('a vm_scheme, unit) kernel" where
  "switchuvm p =
     (case p of
        None \<Rightarrow> panic ''switchuvm: no process''
      | Some i \<Rightarrow>
          bnd (fetch (\<lambda>s. procs s ! i)) (\<lambda>pr.
          if p_kstack pr = 0 then panic ''switchuvm: no kstack''
          else if p_pgdir pr = 0 then panic ''switchuvm: no pgdir''
          else modify (\<lambda>s. s\<lparr>ts_esp0 := p_kstack pr + KSTACKSIZE, cr3 := p_pgdir pr\<rparr>)))"

subsection \<open>User memory\<close>

definition inituvm :: "uint \<Rightarrow> byte list \<Rightarrow> ('a kmem_scheme, unit) kernel" where
  "inituvm pgdir init =
     (if of_nat (length init) \<ge> PGSIZE then panic ''inituvm: more than a page''
      else
        bnd kalloc (\<lambda>m.
        if m = 0 then stuck OutOfBounds
        else
          bnd (modify (\<lambda>s. s\<lparr>mem := memset (mem s) m 0 PGSIZE\<rparr>)) (\<lambda>_.
          bnd (mappages pgdir 0 PGSIZE (V2P m) (PTE_W OR PTE_U)) (\<lambda>_.
          modify (\<lambda>s. s\<lparr>mem := store_bytes (mem s) m init\<rparr>)))))"

text \<open>
  The addresses \<^verbatim>\<open>for(; a < end; a += PGSIZE)\<close> visits, for an \<open>end\<close> below the last page of the
  address space (the callers' sizes are below \<open>KERNBASE\<close>).
\<close>

definition page_addrs :: "uint \<Rightarrow> uint \<Rightarrow> uint list" where
  "page_addrs a end_a =
     map (\<lambda>k. a + of_nat k * PGSIZE) [0..<(unat end_a - unat a + unat PGSIZE - 1) div unat PGSIZE]"

primrec loaduvm_loop ::
  "'a fs_scheme devsw \<Rightarrow> uint \<Rightarrow> uint \<Rightarrow> nat \<Rightarrow> uint \<Rightarrow> uint \<Rightarrow> uint list \<Rightarrow> ('a fs_scheme, int) kernel" where
  "loaduvm_loop dv pgdir addr ip offset sz [] = ret 0"
| "loaduvm_loop dv pgdir addr ip offset sz (i # is) =
     bnd (walkpgdir pgdir (addr + i) False) (\<lambda>pte.
     if pte = 0 then panic ''loaduvm: address should exist''
     else
       bnd (fetch (\<lambda>s. PTE_ADDR (ld32 (mem s) pte))) (\<lambda>pa.
       let n = (if sz - i < PGSIZE then sz - i else PGSIZE) in
       bnd (readi dv ip (offset + i) n) (\<lambda>(r, bytes).
       bnd (modify (\<lambda>s. s\<lparr>mem := store_bytes (mem s) (P2V pa) bytes\<rparr>)) (\<lambda>_.
       if r \<noteq> sint n then ret (-1)
       else loaduvm_loop dv pgdir addr ip offset sz is))))"

definition loaduvm ::
  "'a fs_scheme devsw \<Rightarrow> uint \<Rightarrow> uint \<Rightarrow> nat \<Rightarrow> uint \<Rightarrow> uint \<Rightarrow> ('a fs_scheme, int) kernel" where
  "loaduvm dv pgdir addr ip offset sz =
     (if addr mod PGSIZE \<noteq> 0 then panic ''loaduvm: addr must be page aligned''
      else loaduvm_loop dv pgdir addr ip offset sz (page_addrs 0 sz))"

primrec allocuvm_loop :: "uint \<Rightarrow> uint \<Rightarrow> uint \<Rightarrow> uint list \<Rightarrow> ('a kmem_scheme, uint) kernel" where
  "allocuvm_loop pgdir oldsz newsz [] = ret newsz"
| "allocuvm_loop pgdir oldsz newsz (a # as) =
     bnd kalloc (\<lambda>m.
     if m = 0 then bnd (deallocuvm pgdir newsz oldsz) (\<lambda>_. ret 0)
     else
       bnd (modify (\<lambda>s. s\<lparr>mem := memset (mem s) m 0 PGSIZE\<rparr>)) (\<lambda>_.
       bnd (mappages pgdir a PGSIZE (V2P m) (PTE_W OR PTE_U)) (\<lambda>r.
       if r < 0 then
         bnd (deallocuvm pgdir newsz oldsz) (\<lambda>_.
         bnd (kfree m) (\<lambda>_. ret 0))
       else allocuvm_loop pgdir oldsz newsz as)))"

definition allocuvm :: "uint \<Rightarrow> uint \<Rightarrow> uint \<Rightarrow> ('a kmem_scheme, uint) kernel" where
  "allocuvm pgdir oldsz newsz =
     (if newsz \<ge> KERNBASE then ret 0
      else if newsz < oldsz then ret oldsz
      else allocuvm_loop pgdir oldsz newsz (page_addrs (PGROUNDUP oldsz) newsz))"

definition clearpteu :: "uint \<Rightarrow> uint \<Rightarrow> ('a kmem_scheme, unit) kernel" where
  "clearpteu pgdir uva =
     bnd (walkpgdir pgdir uva False) (\<lambda>pte.
     if pte = 0 then panic ''clearpteu''
     else modify (\<lambda>s. set_word pte (ld32 (mem s) pte AND NOT PTE_U) s))"

primrec copyuvm_loop :: "uint \<Rightarrow> uint \<Rightarrow> uint list \<Rightarrow> ('a kmem_scheme, uint) kernel" where
  "copyuvm_loop pgdir d [] = ret d"
| "copyuvm_loop pgdir d (i # is) =
     bnd (walkpgdir pgdir i False) (\<lambda>pte.
     if pte = 0 then panic ''copyuvm: pte should exist''
     else
       bnd (fetch (\<lambda>s. ld32 (mem s) pte)) (\<lambda>e.
       if \<not> present e then panic ''copyuvm: page not present''
       else
         bnd kalloc (\<lambda>m.
         if m = 0 then bnd (freevm d) (\<lambda>_. ret 0)
         else
           bnd (modify (\<lambda>s. s\<lparr>mem := memmove (mem s) m (P2V (PTE_ADDR e)) PGSIZE\<rparr>)) (\<lambda>_.
           bnd (mappages d i PGSIZE (V2P m) (PTE_FLAGS e)) (\<lambda>r.
           if r < 0 then bnd (kfree m) (\<lambda>_. bnd (freevm d) (\<lambda>_. ret 0))
           else copyuvm_loop pgdir d is)))))"

definition copyuvm :: "uint \<Rightarrow> uint \<Rightarrow> uint \<Rightarrow> ('a kmem_scheme, uint) kernel" where
  "copyuvm data pgdir sz =
     bnd (setupkvm data) (\<lambda>d.
     if d = 0 then ret 0 else copyuvm_loop pgdir d (page_addrs 0 sz))"

text \<open>\<open>uva2ka\<close> reads through the result of \<open>walkpgdir\<close> without testing it for null.\<close>

definition uva2ka :: "uint \<Rightarrow> uint \<Rightarrow> ('a kmem_scheme, uint) kernel" where
  "uva2ka pgdir uva =
     bnd (walkpgdir pgdir uva False) (\<lambda>pte.
     if pte = 0 then stuck OutOfBounds
     else
       bnd (fetch (\<lambda>s. ld32 (mem s) pte)) (\<lambda>e.
       if \<not> present e then ret 0
       else if e AND PTE_U = 0 then ret 0
       else ret (P2V (PTE_ADDR e))))"

function copyout :: "uint \<Rightarrow> uint \<Rightarrow> byte list \<Rightarrow> ('a kmem_scheme, int) kernel" where
  "copyout pgdir va buf =
     (if buf = [] then ret 0
      else
        let va0 = PGROUNDDOWN va;
            n = min (unat (PGSIZE - (va - va0))) (length buf)
        in bnd (uva2ka pgdir va0) (\<lambda>pa0.
           if pa0 = 0 then ret (-1)
           else
             bnd (modify (\<lambda>s. s\<lparr>mem := store_bytes (mem s) (pa0 + (va - va0)) (take n buf)\<rparr>)) (\<lambda>_.
             copyout pgdir (va0 + PGSIZE) (drop n buf))))"
  by pat_completeness auto
termination
proof (relation "measure (\<lambda>(pgdir, va, buf). length buf)", goal_cases)
  case (2 pgdir va buf va0 n x xa)
  have "unat va mod 4096 < 4096" by simp
  have "unat (PGROUNDDOWN va) \<le> unat va" by (simp add: unat_PGROUNDDOWN)
  then have "unat (va - PGROUNDDOWN va) = unat va - unat (PGROUNDDOWN va)"
    by (simp add: unat_sub word_le_nat_alt)
  also have "\<dots> = unat va mod 4096" by (simp add: unat_PGROUNDDOWN minus_mult_div_eq_mod)
  finally have "unat (va - PGROUNDDOWN va) < 4096" by simp
  then have "va - PGROUNDDOWN va < PGSIZE" by (simp add: word_less_nat_alt PGSIZE_def)
  then have "PGSIZE - (va - PGROUNDDOWN va) \<noteq> 0" by auto
  then have "0 < unat (PGSIZE - (va - PGROUNDDOWN va))" by (simp add: unat_gt_0)
  then show ?case using 2 by simp
qed simp

declare copyout.simps [simp del]

subsection \<open>Translation by the processor\<close>

text \<open>
  What the memory management unit does with a user address under a page directory: the kernel
  address of the byte, if its page is present. System calls read and write their callers'
  memory this way; a missing page is a fault in the kernel.
\<close>

definition va_ka :: "memory \<Rightarrow> uint \<Rightarrow> uint \<Rightarrow> uint option" where
  "va_ka m pgdir va =
     (let pde = ld32 m (pgdir + 4 * PDX va) in
      if \<not> present pde then None
      else let pte = ld32 m (P2V (PTE_ADDR pde) + 4 * PTX va) in
           if \<not> present pte then None
           else Some (P2V (PTE_ADDR pte) + (va AND 0xFFF)))"

end
