(* ===== verification/Vm_Spec.thy ===== *)
theory Vm_Spec
  imports Vm
begin

text \<open>
  What the page tables mean. A page of the allocator is seen as its 1024 words; a page
  directory as the map from virtual page numbers to page-table entries it stands for. On this
  view: what \<open>walkpgdir\<close> and \<open>mappages\<close> do, that the processor's translation follows, that
  \<open>deallocuvm\<close> ends, and what \<open>copyout\<close> writes.
\<close>

subsection \<open>Words of a page\<close>

definition aligned :: "uint \<Rightarrow> bool" where
  "aligned p \<longleftrightarrow> unat p mod 4096 = 0"

definition word_at :: "memory \<Rightarrow> uint \<Rightarrow> nat \<Rightarrow> uint" where
  "word_at m p i = ld32 m (p + 4 * of_nat i)"

lemma aligned_multiple: "aligned p \<Longrightarrow> \<exists>k. unat p = 4096 * k \<and> k < 2 ^ 20"
proof -
  assume "aligned p"
  then obtain k where k: "unat p = 4096 * k" by (auto simp: aligned_def mod_eq_0_iff_dvd elim: dvdE)
  moreover have "4096 * k < 4096 * 2 ^ 20" using unat_uint_bound[of p] k by simp
  ultimately show ?thesis by auto
qed

lemma aligned_bound: "aligned p \<Longrightarrow> unat p + 4096 \<le> 2 ^ 32"
  using aligned_multiple by fastforce

lemma page_ok_is_aligned: "page_ok s p \<Longrightarrow> aligned p"
  by (simp add: aligned_def page_ok_aligned)

lemma unat_in_page:
  assumes "aligned p" "k < 4096"
  shows "unat (p + of_nat k) = unat p + k"
  using aligned_bound[OF assms(1)] assms(2) by (simp add: unat_word_ariths unat_of_nat)

lemma word_addr: "p + 4 * of_nat i + of_nat k = p + (of_nat (4 * i + k) :: uint)"
  by simp

lemma word_at_set_word:
  assumes "aligned p" "aligned q" "i < 1024" "j < 1024"
  shows "word_at (st32 m (q + 4 * of_nat j) w) p i = (if p = q \<and> i = j then w else word_at m p i)"
proof (cases "p = q \<and> i = j")
  case True
  then show ?thesis by (simp add: word_at_def)
next
  case False
  obtain a b where ab: "unat p = 4096 * a" "unat q = 4096 * b" using assms(1,2) aligned_multiple by blast
  have ne: "1024 * a + i \<noteq> 1024 * b + j"
  proof
    assume eq: "1024 * a + i = 1024 * b + j"
    then have "(1024 * a + i) div 1024 = (1024 * b + j) div 1024" by simp
    then have "a = b" using assms(3,4) by simp
    then show False using False eq ab by (simp add: word_unat_eq_iff)
  qed
  have "ld32 (st32 m (q + 4 * of_nat j) w) (p + 4 * of_nat i) = ld32 m (p + 4 * of_nat i)"
  proof (rule ld32_frame, rule st32_outside)
    fix k :: nat assume k: "k < 4"
    have v: "unat (q + 4 * of_nat j) = 4096 * b + 4 * j"
      using unat_in_page[OF assms(2), of "4 * j"] assms(4) ab by simp
    have "unat (p + 4 * of_nat i + of_nat k) = 4096 * a + (4 * i + k)"
      unfolding word_addr using unat_in_page[OF assms(1), of "4 * i + k"] assms(3) k ab by simp
    moreover have "unat (q + 4 * of_nat j) + 4 \<le> 2 ^ 32"
      using v aligned_bound[OF assms(2)] assms(4) ab by simp
    ultimately show "\<not> unat (p + 4 * of_nat i + of_nat k - (q + 4 * of_nat j)) < 4"
      using in_range_iff[of "q + 4 * of_nat j" 4 "p + 4 * of_nat i + of_nat k"] v ne k by auto
  qed
  then show ?thesis using False by (auto simp: word_at_def)
qed

lemma word_at_clear:
  assumes "aligned p" "aligned q" "i < 1024"
  shows "word_at (memset m q 0 PGSIZE) p i = (if p = q then 0 else word_at m p i)"
proof -
  obtain a b where ab: "unat p = 4096 * a" "unat q = 4096 * b" using assms(1,2) aligned_multiple by blast
  have "unat (p + 4 * of_nat i + of_nat k - q) < 4096 \<longleftrightarrow> p = q" if "k < 4" for k
  proof -
    have "unat (p + 4 * of_nat i + of_nat k) = 4096 * a + (4 * i + k)"
      unfolding word_addr using unat_in_page[OF assms(1), of "4 * i + k"] assms(3) that ab by simp
    then have "unat (p + 4 * of_nat i + of_nat k - q) < 4096 \<longleftrightarrow> 4096 * b \<le> 4096 * a + (4 * i + k) \<and> 4096 * a + (4 * i + k) < 4096 * b + 4096"
      using in_range_iff[of q 4096 "p + 4 * of_nat i + of_nat k"] aligned_bound[OF assms(2)] ab by simp
    also have "\<dots> \<longleftrightarrow> a = b" using assms(3) that by auto
    finally show ?thesis using ab by (auto simp: word_unat_eq_iff)
  qed
  from this[of 0] this[of 1] this[of 2] this[of 3] show ?thesis
    by (auto simp: word_at_def ld32_def memset_eq PGSIZE_def join32_def)
qed

subsection \<open>Entries\<close>

lemma pte_addr_mask: "PTE_ADDR x = push_bit 12 (drop_bit 12 x)"
proof -
  have "(0xFFF :: uint) = mask 12" by (simp add: mask_eq_exp_minus_1)
  then show ?thesis unfolding PTE_ADDR_def by (simp only: and_not_pgmask)
qed

lemma aligned_pte_addr: "aligned (PTE_ADDR x)"
  by (simp add: aligned_def pte_addr_mask unat_push_drop)

lemma pte_addr_aligned:
  assumes "aligned p" "f < 4096"
  shows "PTE_ADDR (p OR f) = p"
proof -
  have "PTE_ADDR p = p" using assms(1) by (simp add: word_unat_eq_iff pte_addr_mask unat_push_drop aligned_def) (metis add.right_neutral mult_div_mod_eq)
  moreover have "PTE_ADDR f = 0"
    using assms(2) by (simp add: word_unat_eq_iff pte_addr_mask unat_push_drop word_less_nat_alt)
  ultimately show ?thesis by (simp add: PTE_ADDR_def bit.conj_disj_distrib2)
qed

lemma present_or: "present (x OR f OR PTE_P)"
proof -
  have "bit (x OR f OR PTE_P) 0" by (simp add: bit_or_iff PTE_P_def)
  then have "bit ((x OR f OR PTE_P) AND PTE_P) 0" by (simp add: bit_and_iff PTE_P_def)
  then show ?thesis unfolding present_def by (metis bit_0_eq bot_apply bot_bool_def)
qed

lemma not_present_0 [simp]: "\<not> present 0"
  by (simp add: present_def)

lemma unat_drop_bit_div: "unat (drop_bit n (w :: uint)) = unat w div 2 ^ n"
  unfolding unat_drop_bit_eq by (simp only: drop_bit_eq_div)

lemma flags_less: "f < (4096 :: uint) \<Longrightarrow> f OR PTE_P < 4096"
proof -
  assume f: "f < 4096"
  then have "drop_bit 12 f = 0" by (simp add: word_unat_eq_iff unat_drop_bit_div word_less_nat_alt)
  then have "drop_bit 12 (f OR PTE_P) = 0" by (simp add: drop_bit_or PTE_P_def)
  then have "unat (drop_bit 12 (f OR PTE_P)) = 0" by (simp only: unat_0)
  then show ?thesis unfolding unat_drop_bit_div by (simp add: word_less_nat_alt div_eq_0_iff)
qed

lemma P2V_V2P [simp]: "P2V (V2P a) = a" "V2P (P2V a) = a"
  by (simp_all add: P2V_def V2P_def)

lemma aligned_add: "aligned p \<Longrightarrow> aligned q \<Longrightarrow> aligned (p + q)"
proof -
  assume "aligned p" "aligned q"
  then have "(unat p + unat q) mod 2 ^ 32 mod 4096 = 0"
    by (simp add: aligned_def mod_mod_cancel) (metis add_0 mod_add_eq mod_0)
  then show ?thesis by (simp add: aligned_def unat_word_ariths)
qed

lemma aligned_V2P: "aligned p \<Longrightarrow> aligned (V2P p)"
  using aligned_add[of p "- KERNBASE"] by (simp add: V2P_def KERNBASE_def aligned_def)

lemma aligned_P2V: "aligned p \<Longrightarrow> aligned (P2V p)"
  using aligned_add[of p KERNBASE] by (simp add: P2V_def KERNBASE_def aligned_def)

subsection \<open>Virtual page numbers\<close>

lemma unat_PDX: "unat (PDX va) = unat va div 2 ^ 22"
proof -
  have "PDX va = drop_bit 22 va mod 1024"
    using take_bit_eq_mod[of 10 "drop_bit 22 va"] by (simp add: PDX_def take_bit_eq_mask mask_eq_exp_minus_1)
  moreover have "unat va div 2 ^ 22 < 2 ^ 10" using unat_uint_bound[of va] by (simp add: div_less_iff_less_mult)
  ultimately show ?thesis by (simp add: unat_mod unat_drop_bit_div)
qed

lemma unat_PTX: "unat (PTX va) = unat va div 4096 mod 1024"
proof -
  have "PTX va = drop_bit 12 va mod 1024"
    using take_bit_eq_mod[of 10 "drop_bit 12 va"] by (simp add: PTX_def take_bit_eq_mask mask_eq_exp_minus_1)
  then show ?thesis by (simp add: unat_mod unat_drop_bit_div)
qed

definition vpn :: "uint \<Rightarrow> nat" where
  "vpn va = unat va div 4096"

lemma vpn_PDX: "unat (PDX va) = vpn va div 1024"
  by (simp add: unat_PDX vpn_def div_mult2_eq[symmetric])

lemma vpn_PTX: "unat (PTX va) = vpn va mod 1024"
  by (simp add: unat_PTX vpn_def)

lemma vpn_less: "vpn va < 2 ^ 20"
  using unat_uint_bound[of va] by (simp add: vpn_def div_less_iff_less_mult)

text \<open>The page table of directory entry \<open>d\<close>, and the entry of a virtual page; 0 where there is no table.\<close>

definition tab :: "memory \<Rightarrow> uint \<Rightarrow> nat \<Rightarrow> uint option" where
  "tab m pgdir d = (let e = word_at m pgdir d in if present e then Some (P2V (PTE_ADDR e)) else None)"

definition pte :: "memory \<Rightarrow> uint \<Rightarrow> nat \<Rightarrow> uint" where
  "pte m pgdir n = (case tab m pgdir (n div 1024) of None \<Rightarrow> 0 | Some t \<Rightarrow> word_at m t (n mod 1024))"

text \<open>The tables of a directory are pages of their own, disjoint from the free pages.\<close>

definition vm_inv :: "uint \<Rightarrow> uint list \<Rightarrow> 'a kmem_scheme \<Rightarrow> bool" where
  "vm_inv pgdir xs s \<longleftrightarrow> free_pages s xs \<and> page_ok s pgdir \<and> pgdir \<notin> set xs \<and>
     (\<forall>d < 1024. \<forall>t. tab (mem s) pgdir d = Some t \<longrightarrow> page_ok s t \<and> t \<notin> set xs \<and> t \<noteq> pgdir) \<and>
     (\<forall>d < 1024. \<forall>d' < 1024. \<forall>t. tab (mem s) pgdir d = Some t \<longrightarrow> tab (mem s) pgdir d' = Some t \<longrightarrow> d = d')"

lemma va_ka_pte:
  "va_ka m pgdir va = (if present (pte m pgdir (vpn va)) then Some (P2V (PTE_ADDR (pte m pgdir (vpn va))) + (va AND 0xFFF)) else None)"
proof -
  have "of_nat (vpn va div 1024) = PDX va" "of_nat (vpn va mod 1024) = PTX va"
    by (simp_all add: vpn_PDX[symmetric] vpn_PTX[symmetric])
  then show ?thesis by (simp add: va_ka_def pte_def tab_def word_at_def Let_def)
qed

subsection \<open>Walking and mapping\<close>

lemma free_pages_mem:
  assumes "free_pages s xs" "\<And>x. x \<in> set xs \<Longrightarrow> word_at m x 0 = word_at (mem s) x 0"
  shows "free_pages (s\<lparr>mem := m\<rparr>) xs"
  using assms flist_frame[of xs m "mem s" "freelist s"] by (simp add: free_pages_def word_at_def)

lemma vm_invD:
  assumes "vm_inv pgdir xs s"
  shows "free_pages s xs" "page_ok s pgdir" "aligned pgdir" "pgdir \<notin> set xs" "x \<in> set xs \<Longrightarrow> aligned x"
    and "d < 1024 \<Longrightarrow> tab (mem s) pgdir d = Some t \<Longrightarrow> aligned t \<and> page_ok s t \<and> t \<notin> set xs \<and> t \<noteq> pgdir \<and> t \<noteq> 0"
    and "d < 1024 \<Longrightarrow> d' < 1024 \<Longrightarrow> tab (mem s) pgdir d = Some t \<Longrightarrow> tab (mem s) pgdir d' = Some t \<Longrightarrow> d = d'"
  using assms page_ok_is_aligned page_ok_nonzero unfolding vm_inv_def free_pages_def by blast+

lemma vm_inv_mem:
  assumes "vm_inv pgdir xs s"
    and "\<And>x. x \<in> set xs \<Longrightarrow> word_at m x 0 = word_at (mem s) x 0"
    and "\<And>d. d < 1024 \<Longrightarrow> word_at m pgdir d = word_at (mem s) pgdir d"
  shows "vm_inv pgdir xs (s\<lparr>mem := m\<rparr>)"
proof -
  have "tab m pgdir d = tab (mem s) pgdir d" if "d < 1024" for d using assms(3)[OF that] by (simp add: tab_def)
  then show ?thesis using assms(1) free_pages_mem[of s xs m] assms(2) unfolding vm_inv_def by simp
qed

lemma set_pte:
  assumes "vm_inv pgdir xs s" "tab (mem s) pgdir d = Some t" "d < 1024" "i < 1024"
  shows "vm_inv pgdir xs (set_word (t + 4 * of_nat i) w s)"
    and "n < 2 ^ 20 \<Longrightarrow> pte (mem (set_word (t + 4 * of_nat i) w s)) pgdir n =
      (if n = d * 1024 + i then w else pte (mem s) pgdir n)"
proof -
  note D = vm_invD[OF assms(1)]
  note t = D(6)[OF assms(3,2)]
  let ?m = "st32 (mem s) (t + 4 * of_nat i) w"
  have dir: "word_at ?m pgdir d' = word_at (mem s) pgdir d'" if "d' < 1024" for d'
    using word_at_set_word[of pgdir t d' i] D(3) t that assms(4) by auto
  have "word_at ?m x 0 = word_at (mem s) x 0" if "x \<in> set xs" for x
    using word_at_set_word[of x t 0 i] D(5)[OF that] t that assms(4) by auto
  then show "vm_inv pgdir xs (set_word (t + 4 * of_nat i) w s)"
    unfolding set_word_def using vm_inv_mem[OF assms(1)] dir by blast
  show "pte (mem (set_word (t + 4 * of_nat i) w s)) pgdir n = (if n = d * 1024 + i then w else pte (mem s) pgdir n)"
    if "n < 2 ^ 20"
  proof -
    have n: "n div 1024 < 1024" "n mod 1024 < 1024" using that by (auto simp: div_less_iff_less_mult)
    have same: "tab ?m pgdir (n div 1024) = tab (mem s) pgdir (n div 1024)" using dir[OF n(1)] by (simp add: tab_def)
    show ?thesis
    proof (cases "tab (mem s) pgdir (n div 1024)")
      case None
      then have "n \<noteq> d * 1024 + i" using assms(2-4) by auto
      then show ?thesis using None same by (simp add: pte_def set_word_def)
    next
      case (Some t')
      have "t' = t \<longleftrightarrow> n div 1024 = d" using Some assms(2) D(7)[OF n(1) assms(3)] by auto
      moreover have "n = d * 1024 + i \<longleftrightarrow> n div 1024 = d \<and> n mod 1024 = i" using assms(4) by auto
      moreover have "aligned t'" using D(6)[OF n(1) Some] by blast
      ultimately show ?thesis
        using Some same word_at_set_word[of t' t "n mod 1024" i "mem s" w] t n(2) assms(4)
        by (auto simp: pte_def set_word_def)
    qed
  qed
qed

lemma table_entry:
  assumes "aligned t"
  shows "present (V2P t OR PTE_P OR PTE_W OR PTE_U)" "P2V (PTE_ADDR (V2P t OR PTE_P OR PTE_W OR PTE_U)) = t"
proof -
  have e: "V2P t OR PTE_P OR PTE_W OR PTE_U = V2P t OR 6 OR PTE_P" "6 OR PTE_P < 4096"
    by (simp_all add: PTE_P_def PTE_W_def PTE_U_def or.assoc)
  show "present (V2P t OR PTE_P OR PTE_W OR PTE_U)" unfolding e by (rule present_or)
  show "P2V (PTE_ADDR (V2P t OR PTE_P OR PTE_W OR PTE_U)) = t"
    unfolding e(1) or.assoc using pte_addr_aligned[OF aligned_V2P[OF assms] e(2)] by simp
qed

text \<open>A fresh, zeroed page becomes the table of an empty directory entry: no entry changes.\<close>

lemma add_table:
  assumes "vm_inv pgdir (x # ys) s" "tab (mem s) pgdir d = None" "d < 1024" "free_pages s1 ys" "mem s1 = mem s" "kend s1 = kend s"
  defines "s' \<equiv> set_word (pgdir + 4 * of_nat d) (V2P x OR PTE_P OR PTE_W OR PTE_U) (s1\<lparr>mem := memset (mem s1) x 0 PGSIZE\<rparr>)"
  shows "vm_inv pgdir ys s'" "tab (mem s') pgdir d = Some x" "n < 2 ^ 20 \<Longrightarrow> pte (mem s') pgdir n = pte (mem s) pgdir n"
proof -
  note D = vm_invD[OF assms(1)]
  have x: "aligned x" "x \<noteq> pgdir" "page_ok s x" "x \<notin> set ys"
    using D(1,4,5) by (auto simp: free_pages_def)
  have w: "word_at (mem s') p i = (if p = pgdir \<and> i = d then V2P x OR PTE_P OR PTE_W OR PTE_U
      else if p = x then 0 else word_at (mem s) p i)" if "aligned p" "i < 1024" for p i
    unfolding s'_def set_word_def using that x D(3) assms(3,5) by (simp add: word_at_set_word word_at_clear)
  have tabs: "tab (mem s') pgdir d' = (if d' = d then Some x else tab (mem s) pgdir d')" if "d' < 1024" for d'
    using w[OF D(3) that] x table_entry[OF x(1)] by (auto simp: tab_def)
  then show "tab (mem s') pgdir d = Some x" using assms(3) by simp
  have ok: "page_ok s' = page_ok s" using assms(6) by (simp add: s'_def set_word_def page_ok_def fun_eq_iff)
  have "free_pages s' ys"
  proof -
    have "free_pages (s1\<lparr>mem := mem s'\<rparr>) ys"
      using w D(4,5) x assms(5) by (intro free_pages_mem[OF assms(4)]) auto
    then show ?thesis by (simp add: s'_def set_word_def)
  qed
  then show "vm_inv pgdir ys s'"
    using D(2,4) D(6) D(7) x tabs assms(3) unfolding vm_inv_def ok by (auto split: if_splits)
  show "pte (mem s') pgdir n = pte (mem s) pgdir n" if "n < 2 ^ 20"
  proof -
    have n: "n div 1024 < 1024" "n mod 1024 < 1024" using that by (auto simp: div_less_iff_less_mult)
    show ?thesis
      using tabs[OF n(1)] w[OF x(1) n(2)] assms(2) D(6)[OF n(1)] w[OF _ n(2)] x(2)
      by (cases "tab (mem s) pgdir (n div 1024)") (auto simp: pte_def)
  qed
qed

lemma dir_index: "pgdir + 4 * PDX va = pgdir + 4 * of_nat (vpn va div 1024)" "t + 4 * PTX va = t + 4 * of_nat (vpn va mod 1024)"
  by (simp_all add: vpn_PDX[symmetric] vpn_PTX[symmetric])

lemma vpn_parts: "vpn va div 1024 < 1024" "vpn va mod 1024 < 1024" "vpn va div 1024 * 1024 + vpn va mod 1024 = vpn va"
  using vpn_less[of va] by (auto simp: div_less_iff_less_mult)

lemma entry_addr_nonzero: "aligned t \<Longrightarrow> t \<noteq> 0 \<Longrightarrow> i < 1024 \<Longrightarrow> t + 4 * of_nat i \<noteq> 0"
  using unat_in_page[of t "4 * i"] by (auto simp: word_unat_eq_iff)

text \<open>\<open>walkpgdir\<close> with allocation: it fails only when no page is free, and otherwise returns the address of
  the entry without changing what any entry holds.\<close>

lemma walk_alloc:
  assumes "vm_inv pgdir xs s"
  shows "wp (walkpgdir pgdir va True) (\<lambda>r s'.
    (r = 0 \<and> xs = [] \<and> s' = s) \<or>
    (\<exists>xs' t. vm_inv pgdir xs' s' \<and> set xs' \<subseteq> set xs \<and> tab (mem s') pgdir (vpn va div 1024) = Some t \<and>
       r = t + 4 * of_nat (vpn va mod 1024) \<and> r \<noteq> 0 \<and> kend s' = kend s \<and>
       (\<forall>n < 2 ^ 20. pte (mem s') pgdir n = pte (mem s) pgdir n))) s"
proof (cases "tab (mem s) pgdir (vpn va div 1024)")
  case (Some t)
  then have e: "present (word_at (mem s) pgdir (vpn va div 1024))"
    "t = P2V (PTE_ADDR (word_at (mem s) pgdir (vpn va div 1024)))" by (auto simp: tab_def Let_def split: if_splits)
  have "t + 4 * of_nat (vpn va mod 1024) \<noteq> 0"
    using vm_invD(6)[OF assms vpn_parts(1) Some] vpn_parts(2) by (intro entry_addr_nonzero) auto
  then show ?thesis
    using assms Some e unfolding walkpgdir_def dir_index Let_def wp_bnd_fetch word_at_def[symmetric]
    by (auto simp: wp_simps)
next
  case None
  then have e: "\<not> present (word_at (mem s) pgdir (vpn va div 1024))" by (auto simp: tab_def Let_def split: if_splits)
  show ?thesis
  proof (cases xs)
    case Nil
    then show ?thesis
      using e kalloc_spec[OF vm_invD(1)[OF assms]] unfolding walkpgdir_def dir_index Let_def wp_bnd_fetch word_at_def[symmetric]
      by (auto simp: wp_simps elim!: wp_mono)
  next
    case (Cons x ys)
    note inv = assms[unfolded Cons]
    show ?thesis
      unfolding walkpgdir_def dir_index Let_def wp_bnd_fetch word_at_def[symmetric] if_not_P[OF e] not_True_eq_False if_False
    proof (rule wp_bndI[OF kalloc_spec[OF vm_invD(1)[OF inv]]])
      fix r s1 assume "mem s1 = mem s \<and> kend s1 = kend s \<and>
        (case x # ys of [] \<Rightarrow> r = 0 \<and> s1 = s | x # ys \<Rightarrow> r = x \<and> r \<noteq> 0 \<and> page_ok s r \<and> free_pages s1 ys)"
      then have r: "mem s1 = mem s" "kend s1 = kend s" "r = x" "x \<noteq> 0" "page_ok s x" "free_pages s1 ys" by auto
      note T = add_table[OF inv None vpn_parts(1) r(6,1,2)]
      have "x + 4 * of_nat (vpn va mod 1024) \<noteq> 0"
        using r(4,5) vpn_parts(2) by (intro entry_addr_nonzero page_ok_is_aligned) auto
      then show "wp (if r = 0 then ret 0 else bnd (modify (\<lambda>s. s\<lparr>mem := memset (mem s) r 0 PGSIZE\<rparr>)) (\<lambda>_.
          bnd (modify (set_word (pgdir + 4 * of_nat (vpn va div 1024)) (V2P r OR PTE_P OR PTE_W OR PTE_U))) (\<lambda>_.
          ret (r + 4 * of_nat (vpn va mod 1024)))))
        (\<lambda>r s'. (r = 0 \<and> xs = [] \<and> s' = s) \<or>
          (\<exists>xs' t. vm_inv pgdir xs' s' \<and> set xs' \<subseteq> set xs \<and> tab (mem s') pgdir (vpn va div 1024) = Some t \<and>
             r = t + 4 * of_nat (vpn va mod 1024) \<and> r \<noteq> 0 \<and> kend s' = kend s \<and>
             (\<forall>n < 2 ^ 20. pte (mem s') pgdir n = pte (mem s) pgdir n))) s1"
        using T r Cons by (auto simp: wp_simps set_word_def intro!: exI[of _ ys])
    qed
  qed
qed

text \<open>One step of the loop of \<open>mappages\<close>.\<close>

definition map_post :: "uint \<Rightarrow> uint list \<Rightarrow> nat \<Rightarrow> uint \<Rightarrow> uint \<Rightarrow> nat \<Rightarrow> 'a kmem_scheme \<Rightarrow> int \<Rightarrow> 'a kmem_scheme \<Rightarrow> bool" where
  "map_post pgdir xs n pa perm k s r s' \<longleftrightarrow>
     (\<exists>xs'. vm_inv pgdir xs' s' \<and> set xs' \<subseteq> set xs \<and> kend s' = kend s \<and>
        (\<forall>j < 2 ^ 20. j < n \<or> n + k < j \<longrightarrow> pte (mem s') pgdir j = pte (mem s) pgdir j) \<and>
        (r = 0 \<and> (\<forall>i \<le> k. pte (mem s') pgdir (n + i) = (pa + of_nat i * PGSIZE) OR perm OR PTE_P) \<or>
         r = -1 \<and> xs' = []))"

lemma pa_step: "pa + PGSIZE + of_nat i * PGSIZE = (pa + of_nat (Suc i) * PGSIZE :: uint)"
  by (simp add: algebra_simps)

lemma vpn_step:
  assumes "unat a = 4096 * n" "Suc n < 2 ^ 20"
  shows "unat (a + PGSIZE) = 4096 * Suc n" "vpn a = n"
  using assms by (simp_all add: PGSIZE_def vpn_def unat_word_ariths)

lemma map_step:
  assumes "vm_inv pgdir xs s" "unat a = 4096 * n" "n < 2 ^ 20" "\<not> present (pte (mem s) pgdir n)"
    and cont: "\<And>xs' s'. vm_inv pgdir xs' s' \<Longrightarrow> set xs' \<subseteq> set xs \<Longrightarrow> kend s' = kend s \<Longrightarrow>
      (\<forall>j < 2 ^ 20. pte (mem s') pgdir j = (if j = n then w else pte (mem s) pgdir j)) \<Longrightarrow> wp rest Q s'"
    and fail: "xs = [] \<Longrightarrow> Q (-1) s"
  shows "wp (bnd (walkpgdir pgdir a True) (\<lambda>pte. if pte = 0 then ret (-1)
     else bnd (fetch (\<lambda>s. ld32 (mem s) pte)) (\<lambda>e. if present e then panic ''remap''
          else bnd (modify (set_word pte w)) (\<lambda>_. rest)))) Q s"
proof (rule wp_bndI[OF walk_alloc[OF assms(1), of a]])
  have v: "vpn a = n" using assms(2) by (simp add: vpn_def)
  fix r s' assume "(r = 0 \<and> xs = [] \<and> s' = s) \<or>
    (\<exists>xs' t. vm_inv pgdir xs' s' \<and> set xs' \<subseteq> set xs \<and> tab (mem s') pgdir (vpn a div 1024) = Some t \<and>
       r = t + 4 * of_nat (vpn a mod 1024) \<and> r \<noteq> 0 \<and> kend s' = kend s \<and>
       (\<forall>n < 2 ^ 20. pte (mem s') pgdir n = pte (mem s) pgdir n))"
  then show "wp (if r = 0 then ret (-1) else bnd (fetch (\<lambda>s. ld32 (mem s) r)) (\<lambda>e. if present e then panic ''remap''
          else bnd (modify (set_word r w)) (\<lambda>_. rest))) Q s'"
  proof
    assume "r = 0 \<and> xs = [] \<and> s' = s"
    then show ?thesis using fail by (simp add: wp_simps)
  next
    assume "\<exists>xs' t. vm_inv pgdir xs' s' \<and> set xs' \<subseteq> set xs \<and> tab (mem s') pgdir (vpn a div 1024) = Some t \<and>
       r = t + 4 * of_nat (vpn a mod 1024) \<and> r \<noteq> 0 \<and> kend s' = kend s \<and>
       (\<forall>n < 2 ^ 20. pte (mem s') pgdir n = pte (mem s) pgdir n)"
    then obtain xs' t where h: "vm_inv pgdir xs' s'" "set xs' \<subseteq> set xs" "tab (mem s') pgdir (n div 1024) = Some t"
       "r = t + 4 * of_nat (n mod 1024)" "r \<noteq> 0" "kend s' = kend s"
       "\<forall>n < 2 ^ 20. pte (mem s') pgdir n = pte (mem s) pgdir n" unfolding v by blast
    have "ld32 (mem s') r = pte (mem s') pgdir n" using h(3,4) by (simp add: pte_def word_at_def)
    then have ld: "ld32 (mem s') r = pte (mem s) pgdir n" using h(7) assms(3) by simp
    note S = set_pte[OF h(1,3), where i = "n mod 1024" and w = w, folded h(4)]
    have n: "n div 1024 < 1024" "n mod 1024 < 1024" using assms(3) by (auto simp: div_less_iff_less_mult)
    have "wp rest Q (set_word r w s')"
      using S[OF n] h(2,6,7) by (intro cont[of xs']) (auto simp: set_word_def)
    then show ?thesis using ld h(5) assms(4) by (simp add: wp_simps)
  qed
qed

lemma mappages_loop_spec:
  fixes s :: "'a kmem_scheme"
  assumes "vm_inv pgdir xs s" "unat a = 4096 * n" "n + k < 2 ^ 20"
    and "\<And>i. i \<le> k \<Longrightarrow> \<not> present (pte (mem s) pgdir (n + i))"
  shows "wp (mappages_loop pgdir perm a pa k) (map_post pgdir xs n pa perm k s) s"
  using assms
proof (induction k arbitrary: a pa n xs s)
  case 0
  show ?case unfolding mappages_loop.simps
  proof (rule map_step[OF 0(1,2)])
    fix xs' and s' :: "'a kmem_scheme" assume "vm_inv pgdir xs' s'" "set xs' \<subseteq> set xs" "kend s' = kend s"
      "\<forall>j < 2 ^ 20. pte (mem s') pgdir j = (if j = n then pa OR perm OR PTE_P else pte (mem s) pgdir j)"
    then show "wp (ret 0) (map_post pgdir xs n pa perm 0 s) s'"
      using 0(3) by (auto simp: wp_simps map_post_def)
  qed (use 0 0(4)[of 0] in \<open>auto simp: map_post_def\<close>)
next
  case (Suc k)
  have n: "Suc n + k < 2 ^ 20" "Suc n < 2 ^ 20" "n < 2 ^ 20" using Suc.prems(3) by simp_all
  show ?case unfolding mappages_loop.simps
  proof (rule map_step[OF Suc.prems(1,2) n(3)])
    show "\<not> present (pte (mem s) pgdir n)" using Suc.prems(4)[of 0] by simp
    show "xs = [] \<Longrightarrow> map_post pgdir xs n pa perm (Suc k) s (-1) s"
      using Suc.prems(1) by (auto simp: map_post_def)
    fix xs' and s' :: "'a kmem_scheme"
    assume h: "vm_inv pgdir xs' s'" "set xs' \<subseteq> set xs" "kend s' = kend s"
      "\<forall>j < 2 ^ 20. pte (mem s') pgdir j = (if j = n then pa OR perm OR PTE_P else pte (mem s) pgdir j)"
    have "wp (mappages_loop pgdir perm (a + PGSIZE) (pa + PGSIZE) k) (map_post pgdir xs' (Suc n) (pa + PGSIZE) perm k s') s'"
    proof (rule Suc.IH[OF h(1) vpn_step(1)[OF Suc.prems(2) n(2)] n(1)])
      fix i assume "i \<le> k"
      then show "\<not> present (pte (mem s') pgdir (Suc n + i))" using h(4) n(1) Suc.prems(4)[of "Suc i"] by simp
    qed
    then show "wp (mappages_loop pgdir perm (a + PGSIZE) (pa + PGSIZE) k) (map_post pgdir xs n pa perm (Suc k) s) s'"
    proof (rule wp_mono)
      fix r and s'' :: "'a kmem_scheme" assume "map_post pgdir xs' (Suc n) (pa + PGSIZE) perm k s' r s''"
      then obtain xs'' where q: "vm_inv pgdir xs'' s''" "set xs'' \<subseteq> set xs'" "kend s'' = kend s'"
        "\<forall>j < 2 ^ 20. j < Suc n \<or> Suc n + k < j \<longrightarrow> pte (mem s'') pgdir j = pte (mem s') pgdir j"
        "r = 0 \<and> (\<forall>i \<le> k. pte (mem s'') pgdir (Suc n + i) = (pa + PGSIZE + of_nat i * PGSIZE) OR perm OR PTE_P) \<or>
         r = -1 \<and> xs'' = []" unfolding map_post_def by blast
      have first: "pte (mem s'') pgdir n = pa OR perm OR PTE_P" using q(4) h(4) n(3) by simp
      have "pte (mem s'') pgdir (n + i) = (pa + of_nat i * PGSIZE) OR perm OR PTE_P" if "r = 0" "i \<le> Suc k" for i
        using first q(5) that by (cases i) (auto simp: algebra_simps)
      then show "map_post pgdir xs n pa perm (Suc k) s r s''"
        unfolding map_post_def using q h by (intro exI[of _ xs'']) auto
    qed
  qed
qed

lemma aligned_pages: "aligned pa \<Longrightarrow> aligned (pa + of_nat i * PGSIZE)"
proof -
  have "unat (of_nat i * PGSIZE :: uint) = (i * 4096) mod 2 ^ 32"
    by (simp add: PGSIZE_def unat_word_ariths unat_of_nat mod_mult_left_eq)
  also have "\<dots> mod 4096 = 0" by (simp add: mod_mod_cancel)
  finally show "aligned pa \<Longrightarrow> ?thesis" by (intro aligned_add) (simp_all add: aligned_def)
qed

lemma mapped_entry:
  assumes "aligned pa" "perm < 4096"
  shows "present ((pa + of_nat i * PGSIZE) OR perm OR PTE_P)"
    "PTE_ADDR ((pa + of_nat i * PGSIZE) OR perm OR PTE_P) = pa + of_nat i * PGSIZE"
  using present_or pte_addr_aligned[OF aligned_pages[OF assms(1)] flags_less[OF assms(2)], of i]
  by (simp_all add: or.assoc)

lemma vpn_of_page: "j < 2 ^ 20 \<Longrightarrow> vpn (of_nat (4096 * j)) = j"
  by (simp add: vpn_def unat_word_ariths unat_of_nat)

lemma present_va_ka: "present (pte m pgdir (vpn x)) \<longleftrightarrow> va_ka m pgdir x \<noteq> None"
  by (simp add: va_ka_pte)

lemma unat_last: "0 < sz \<Longrightarrow> unat va + unat sz \<le> 2 ^ 32 \<Longrightarrow> unat (va + sz - 1 :: uint) = unat va + unat sz - 1"
proof -
  assume sz: "0 < sz" "unat va + unat sz \<le> 2 ^ 32"
  have "unat (sz - 1) = unat sz - 1" using sz(1) by (intro unat_pred) auto
  moreover have "0 < unat sz" using sz(1) by (simp add: unat_gt_0)
  moreover have "unat (va + (sz - 1)) = (unat va + unat (sz - 1)) mod 2 ^ 32" by (simp add: unat_word_ariths)
  moreover have "va + sz - 1 = va + (sz - 1)" by simp
  ultimately show ?thesis using sz(2) by (simp only:) simp
qed

lemma page_count:
  assumes "0 < sz" "unat va + unat sz \<le> 2 ^ 32"
  shows "vpn va + unat ((PGROUNDDOWN (va + sz - 1) - PGROUNDDOWN va) div PGSIZE) = vpn (va + sz - 1)"
proof -
  let ?l = "va + sz - 1"
  have "0 < unat sz" using assms(1) by (simp add: unat_gt_0)
  then have "unat va \<le> unat ?l" using unat_last[OF assms] by simp
  then have le: "vpn va \<le> vpn ?l" by (simp add: vpn_def div_le_mono)
  have "PGROUNDDOWN va \<le> PGROUNDDOWN ?l" using le by (simp add: word_le_nat_alt unat_PGROUNDDOWN vpn_def)
  then have "unat (PGROUNDDOWN ?l - PGROUNDDOWN va) = 4096 * (vpn ?l - vpn va)"
    by (simp add: unat_sub unat_PGROUNDDOWN vpn_def diff_mult_distrib2)
  then show ?thesis using le by (simp add: unat_div PGSIZE_def)
qed

text \<open>C25. \<open>mappages\<close> maps every page its range touches, in order, to successive physical pages with the given
  permissions, so the processor translates every address of the range to the corresponding byte;
  all other translations stay as they were. It fails only when the allocator has no page left
  for a table.\<close>

theorem mappages_translates:
  fixes s :: "'a kmem_scheme"
  assumes "vm_inv pgdir xs s" "aligned pa" "perm < 4096" "0 < sz" "unat va + unat sz \<le> 2 ^ 32"
    and "\<And>x. vpn va \<le> vpn x \<Longrightarrow> vpn x \<le> vpn (va + sz - 1) \<Longrightarrow> va_ka (mem s) pgdir x = None"
  shows "wp (mappages pgdir va sz pa perm) (\<lambda>r s'. \<exists>xs'. vm_inv pgdir xs' s' \<and> set xs' \<subseteq> set xs \<and>
    (\<forall>x. vpn x < vpn va \<or> vpn (va + sz - 1) < vpn x \<longrightarrow> va_ka (mem s') pgdir x = va_ka (mem s) pgdir x) \<and>
    (r = 0 \<and> (\<forall>x. vpn va \<le> vpn x \<and> vpn x \<le> vpn (va + sz - 1) \<longrightarrow>
        va_ka (mem s') pgdir x = Some (P2V (pa + of_nat (vpn x - vpn va) * PGSIZE) + (x AND 0xFFF))) \<or>
     r = -1 \<and> xs' = [])) s"
proof -
  let ?n = "vpn va" and ?m = "vpn (va + sz - 1)"
  let ?k = "unat ((PGROUNDDOWN (va + sz - 1) - PGROUNDDOWN va) div PGSIZE)"
  note k = page_count[OF assms(4,5)]
  have a: "unat (PGROUNDDOWN va) = 4096 * ?n" by (simp add: unat_PGROUNDDOWN vpn_def)
  have "\<not> present (pte (mem s) pgdir (?n + i))" if "i \<le> ?k" for i
  proof -
    have i: "?n + i \<le> ?m" "?n + i < 2 ^ 20" using that k vpn_less[of "va + sz - 1"] by linarith+
    show ?thesis
      using assms(6)[of "of_nat (4096 * (?n + i))"] present_va_ka[of "mem s" pgdir "of_nat (4096 * (?n + i))"] i
      unfolding vpn_of_page[OF i(2)] by simp
  qed
  from mappages_loop_spec[OF assms(1) a _ this] have "wp (mappages pgdir va sz pa perm) (map_post pgdir xs ?n pa perm ?k s) s"
    using k vpn_less[of "va + sz - 1"] by (simp add: mappages_def Let_def)
  then show ?thesis
  proof (rule wp_mono)
    fix r and s' :: "'a kmem_scheme" assume "map_post pgdir xs ?n pa perm ?k s r s'"
    then obtain xs' where p: "vm_inv pgdir xs' s'" "set xs' \<subseteq> set xs"
        "\<forall>j < 2 ^ 20. j < ?n \<or> ?m < j \<longrightarrow> pte (mem s') pgdir j = pte (mem s) pgdir j"
        "r = 0 \<and> (\<forall>i \<le> ?k. pte (mem s') pgdir (?n + i) = (pa + of_nat i * PGSIZE) OR perm OR PTE_P) \<or> r = -1 \<and> xs' = []"
      unfolding map_post_def k by blast
    have "va_ka (mem s') pgdir x = Some (P2V (pa + of_nat (vpn x - ?n) * PGSIZE) + (x AND 0xFFF))"
      if "r = 0" "?n \<le> vpn x" "vpn x \<le> ?m" for x
    proof -
      have "vpn x - ?n \<le> ?k" using that(3) k by linarith
      then have "pte (mem s') pgdir (vpn x) = (pa + of_nat (vpn x - ?n) * PGSIZE) OR perm OR PTE_P"
        using p(4) that by (auto dest: spec[of _ "vpn x - ?n"])
      then show ?thesis using mapped_entry[OF assms(2,3)] by (simp add: va_ka_pte)
    qed
    moreover have "va_ka (mem s') pgdir x = va_ka (mem s) pgdir x" if "vpn x < ?n \<or> ?m < vpn x" for x
    proof -
      have "pte (mem s') pgdir (vpn x) = pte (mem s) pgdir (vpn x)" using p(3) that vpn_less[of x] by blast
      then show ?thesis by (simp add: va_ka_pte)
    qed
    ultimately show "\<exists>xs'. vm_inv pgdir xs' s' \<and> set xs' \<subseteq> set xs \<and>
      (\<forall>x. vpn x < ?n \<or> ?m < vpn x \<longrightarrow> va_ka (mem s') pgdir x = va_ka (mem s) pgdir x) \<and>
      (r = 0 \<and> (\<forall>x. ?n \<le> vpn x \<and> vpn x \<le> ?m \<longrightarrow>
        va_ka (mem s') pgdir x = Some (P2V (pa + of_nat (vpn x - ?n) * PGSIZE) + (x AND 0xFFF))) \<or> r = -1 \<and> xs' = [])"
      using p by (intro exI[of _ xs']) blast
  qed
qed

text \<open>A kernel with an empty page directory and one free page.\<close>

definition vm_example :: kmem where
  "vm_example = \<lparr>mem = \<lambda>_. 0, kend = 0x80100000, use_lock = False, freelist = 0x80200000\<rparr>"

lemma vm_example_inv: "vm_inv 0x80300000 [0x80200000] vm_example"
proof -
  have "tab (mem vm_example) p d = None" for p d
    by (simp add: tab_def word_at_def ld32_def join32_def vm_example_def)
  moreover have "free_pages vm_example [0x80200000]" "page_ok vm_example 0x80300000"
    by (simp_all add: free_pages_def page_ok_def vm_example_def ld32_def join32_def PGSIZE_def V2P_def KERNBASE_def PHYSTOP_def)
  ultimately show ?thesis by (simp add: vm_inv_def)
qed

theorem mappages_translates_witness:
  "wp (mappages 0x80300000 0x1000 0x1000 0x400000 (PTE_W OR PTE_U))
     (\<lambda>r s'. r = 0 \<longrightarrow> va_ka (mem s') 0x80300000 0x1004 = Some 0x80400004) vm_example"
proof -
  have none: "va_ka (mem vm_example) 0x80300000 x = None" for x
    by (simp add: va_ka_def ld32_def join32_def vm_example_def)
  have v: "vpn 0x1000 = 1" "vpn (0x1000 + 0x1000 - 1) = 1" "vpn 0x1004 = 1" by (simp_all add: vpn_def)
  show ?thesis
  proof (rule wp_mono[OF mappages_translates[OF vm_example_inv]])
    show "aligned 0x400000" "PTE_W OR PTE_U < 4096" "(0 :: uint) < 0x1000" "unat (0x1000 :: uint) + unat (0x1000 :: uint) \<le> 2 ^ 32"
      by (simp_all add: aligned_def PTE_W_def PTE_U_def)
    show "va_ka (mem vm_example) 0x80300000 x = None" for x by (rule none)
  qed (use v in \<open>auto simp: P2V_def KERNBASE_def\<close>)
qed

subsection \<open>Releasing ends\<close>

lemma kfree_no_divergence: "kfree v s \<noteq> Inl Diverges"
  by (auto simp: kfree_def Let_def split: if_splits)

lemma walk_no_alloc: "walkpgdir pgdir va False s = Inr (r, s') \<Longrightarrow> s' = s" "walkpgdir pgdir va False s \<noteq> Inl h"
  by (auto simp: walkpgdir_def bnd_def run_simps Let_def split: if_splits)

lemma next_table:
  assumes "a < 0xFFC00000"
  shows "a < PGADDR (PDX a + 1) 0 0"
proof -
  have d: "unat (PDX a) < 1023" using assms by (simp add: unat_PDX word_less_nat_alt div_less_iff_less_mult)
  then have "unat (PDX a + 1) = Suc (unat (PDX a))" by (simp add: unat_word_ariths)
  moreover have "PGADDR (PDX a + 1) 0 0 = (PDX a + 1) * 4194304" by (simp add: PGADDR_def push_bit_eq_mult)
  ultimately have "unat (PGADDR (PDX a + 1) 0 0) = Suc (unat (PDX a)) * 4194304"
    using d by (simp add: unat_word_ariths)
  moreover have "unat a < Suc (unat a div 4194304) * 4194304" by (simp add: dividend_less_div_times)
  ultimately show ?thesis by (simp add: word_less_nat_alt unat_PDX)
qed

lemma deallocuvm_loop_ends:
  assumes "oldsz \<le> 0xFFC00000"
  shows "deallocuvm_loop pgdir oldsz a s \<noteq> Inl Diverges"
  using assms
proof (induction pgdir oldsz a arbitrary: s rule: deallocuvm_loop.induct)
  case (1 pgdir oldsz a)
  show ?case
  proof (cases "a < oldsz")
    case False
    then show ?thesis by (simp add: deallocuvm_loop.simps[of pgdir oldsz a] run_simps)
  next
    case True
    then have a: "a < 0xFFC00000" using 1(3) by simp
    have step: "a < a + PGSIZE"
      using a by (simp add: word_less_nat_alt PGSIZE_def unat_word_ariths)
    obtain r where w: "walkpgdir pgdir a False s = Inr (r, s)"
      using walk_no_alloc[of pgdir a s] by (cases "walkpgdir pgdir a False s") auto
    show ?thesis
    proof (cases "r = 0")
      case True
      then show ?thesis
        using 1(1)[OF \<open>a < oldsz\<close> True next_table[OF a] 1(3)] w next_table[OF a] \<open>a < oldsz\<close>
        by (simp add: deallocuvm_loop.simps[of pgdir oldsz a] bnd_def)
    next
      case False
      note IH = 1(2)[OF \<open>a < oldsz\<close> False step 1(3)]
      show ?thesis
        using IH w step \<open>a < oldsz\<close> False kfree_no_divergence[of "P2V (PTE_ADDR (ld32 (mem s) r))" s]
        by (auto simp: deallocuvm_loop.simps[of pgdir oldsz a] bnd_def run_simps split: sum.splits)
    qed
  qed
qed

text \<open>C26. Releasing user memory always ends: for sizes a process can have (at most \<open>KERNBASE\<close>, and in fact
  anything below the last page table) the loop of \<open>deallocuvm\<close> never wraps around the address space,
  whatever the page tables contain.\<close>

theorem deallocuvm_terminates:
  assumes "oldsz \<le> KERNBASE"
  shows "deallocuvm pgdir oldsz newsz s \<noteq> Inl Diverges"
proof -
  have "oldsz \<le> 0xFFC00000" using assms by (rule order_trans) (simp add: KERNBASE_def)
  then show ?thesis
    using deallocuvm_loop_ends[of oldsz pgdir "PGROUNDUP newsz" s]
    by (auto simp: deallocuvm_def bnd_def run_simps split: sum.splits)
qed

theorem deallocuvm_terminates_witness:
  "deallocuvm 0x80300000 KERNBASE 0 vm_example \<noteq> Inl Diverges"
  by (rule deallocuvm_terminates) simp

end
