(* ===== verification/Proc.thy ===== *)
theory Proc
  imports Vm
begin

text \<open>
  The life of a process in \<^verbatim>\<open>proc.c\<close>: \<open>userinit\<close>, \<open>growproc\<close>, \<open>fork\<close>, \<open>exit\<close>, \<open>wait\<close> and the
  scheduler. \<open>exit\<close> is modelled up to the point where it enters the scheduler for the last
  time; \<open>wait\<close> has a form that stops where the code sleeps. The scheduler is split at its
  context switch: dispatching a process, and what it does when the process comes back.
\<close>

subsection \<open>Trap frames\<close>

definition TF_EAX :: uint where "TF_EAX = 28"
definition TF_ES :: uint where "TF_ES = 40"
definition TF_DS :: uint where "TF_DS = 44"
definition TF_EIP :: uint where "TF_EIP = 56"
definition TF_CS :: uint where "TF_CS = 60"
definition TF_EFLAGS :: uint where "TF_EFLAGS = 64"
definition TF_ESP :: uint where "TF_ESP = 68"
definition TF_SS :: uint where "TF_SS = 72"

definition SEG_UCODE :: ushort where "SEG_UCODE = 3"
definition SEG_UDATA :: ushort where "SEG_UDATA = 4"
definition DPL_USER :: ushort where "DPL_USER = 3"
definition FL_IF :: uint where "FL_IF = 0x200"

definition st16 :: "memory \<Rightarrow> uint \<Rightarrow> ushort \<Rightarrow> memory" where
  "st16 m a w = m(a := ucast w, a + 1 := ucast (drop_bit 8 w))"

definition init_tf :: "uint \<Rightarrow> memory \<Rightarrow> memory" where
  "init_tf tf m =
     (let ucs = push_bit 3 SEG_UCODE OR DPL_USER;
          uds = push_bit 3 SEG_UDATA OR DPL_USER;
          m = memset m tf 0 TF_SIZE;
          m = st16 m (tf + TF_CS) ucs;
          m = st16 m (tf + TF_DS) uds;
          m = st16 m (tf + TF_ES) uds;
          m = st16 m (tf + TF_SS) uds;
          m = st32 m (tf + TF_EFLAGS) FL_IF;
          m = st32 m (tf + TF_ESP) PGSIZE
      in st32 m (tf + TF_EIP) 0)"

subsection \<open>The first process\<close>

text \<open>\<open>initcode\<close> is the linked-in image of \<^verbatim>\<open>initcode.S\<close>.\<close>

definition userinit :: "'a vm_scheme devsw \<Rightarrow> byte list \<Rightarrow> ('a vm_scheme, unit) kernel" where
  "userinit dv initcode =
     bnd allocproc (\<lambda>r.
     bnd (modify (\<lambda>s. s\<lparr>initproc := r\<rparr>)) (\<lambda>_.
     case r of
       None \<Rightarrow> stuck OutOfBounds
     | Some p \<Rightarrow>
         bnd (fetch data_sym) (\<lambda>data.
         bnd (setupkvm data) (\<lambda>pgdir.
         bnd (modify (proc_upd p (\<lambda>pr. pr\<lparr>p_pgdir := pgdir\<rparr>))) (\<lambda>_.
         if pgdir = 0 then panic ''userinit: out of memory?''
         else
           bnd (inituvm pgdir initcode) (\<lambda>_.
           bnd (modify (proc_upd p (\<lambda>pr. pr\<lparr>p_sz := PGSIZE\<rparr>))) (\<lambda>_.
           bnd (modify (\<lambda>s. s\<lparr>mem := init_tf (p_tf (procs s ! p)) (mem s)\<rparr>)) (\<lambda>_.
           bnd (modify (proc_upd p (\<lambda>pr. pr\<lparr>p_name := safestrcpy (p_name pr) (cbytes ''initcode'') 16\<rparr>))) (\<lambda>_.
           bnd (namei dv (cbytes ''/'')) (\<lambda>cwd.
           modify (proc_upd p (\<lambda>pr. pr\<lparr>p_cwd := cwd, p_uid := 0, p_gid := 0, p_state := RUNNABLE\<rparr>))))))))))))"

subsection \<open>Growing and forking\<close>

definition growproc :: "int \<Rightarrow> ('a vm_scheme, int) kernel" where
  "growproc n =
     bnd myproc (\<lambda>cp.
     bnd (fetch (\<lambda>s. procs s ! cp)) (\<lambda>pr.
     let finish = (\<lambda>sz. bnd (modify (proc_upd cp (\<lambda>p. p\<lparr>p_sz := sz\<rparr>))) (\<lambda>_.
                        bnd (switchuvm (Some cp)) (\<lambda>_. ret 0)))
     in if n > 0 then
          bnd (allocuvm (p_pgdir pr) (p_sz pr) (p_sz pr + word_of_int n)) (\<lambda>sz.
          if sz = 0 then ret (-1) else finish sz)
        else if n < 0 then
          bnd (deallocuvm (p_pgdir pr) (p_sz pr) (p_sz pr + word_of_int n)) (\<lambda>sz.
          if sz = 0 then ret (-1) else finish sz)
        else finish (p_sz pr)))"

definition fork_file :: "nat \<Rightarrow> nat \<Rightarrow> nat \<Rightarrow> ('a files_scheme, unit) kernel" where
  "fork_file cp np fd =
     bnd (fetch (\<lambda>s. p_ofile (procs s ! cp) ! fd)) (\<lambda>f.
     case f of
       None \<Rightarrow> ret ()
     | Some f \<Rightarrow>
         bnd (filedup f) (\<lambda>f'.
         modify (proc_upd np (\<lambda>p. p\<lparr>p_ofile := (p_ofile p)[fd := Some f']\<rparr>))))"

definition copy_tf :: "nat \<Rightarrow> nat \<Rightarrow> 'a ptable_scheme \<Rightarrow> 'a ptable_scheme" where
  "copy_tf cp np s =
     (let tf = p_tf (procs s ! np);
          m = store_bytes (mem s) tf (load_bytes (mem s) (p_tf (procs s ! cp)) (unat TF_SIZE))
      in s\<lparr>mem := st32 m (tf + TF_EAX) 0\<rparr>)"

definition fork :: "('a vm_scheme, int) kernel" where
  "fork =
     bnd myproc (\<lambda>cp.
     bnd allocproc (\<lambda>r.
     case r of
       None \<Rightarrow> ret (-1)
     | Some np \<Rightarrow>
         bnd (fetch (\<lambda>s. (procs s ! cp, data_sym s))) (\<lambda>(pr, data).
         bnd (copyuvm data (p_pgdir pr) (p_sz pr)) (\<lambda>pgdir.
         bnd (modify (proc_upd np (\<lambda>p. p\<lparr>p_pgdir := pgdir\<rparr>))) (\<lambda>_.
         if pgdir = 0 then
           bnd (fetch (\<lambda>s. p_kstack (procs s ! np))) (\<lambda>k.
           bnd (kfree k) (\<lambda>_.
           bnd (modify (proc_upd np (\<lambda>p. p\<lparr>p_kstack := 0, p_state := UNUSED\<rparr>))) (\<lambda>_. ret (-1))))
         else
           bnd (modify (proc_upd np (\<lambda>p. p\<lparr>p_sz := p_sz pr, p_parent := Some cp\<rparr>))) (\<lambda>_.
           bnd (modify (copy_tf cp np)) (\<lambda>_.
           bnd (for_each (fork_file cp np) [0..<NOFILE]) (\<lambda>_.
           case p_cwd pr of
             None \<Rightarrow> stuck OutOfBounds
           | Some cwd \<Rightarrow>
               bnd (idup cwd) (\<lambda>cwd'.
               bnd (modify (proc_upd np (\<lambda>p. p\<lparr>p_cwd := Some cwd',
                       p_name := safestrcpy (p_name p) (p_name pr) 16,
                       p_uid := p_uid pr, p_gid := p_gid pr\<rparr>))) (\<lambda>_.
               bnd (fetch (\<lambda>s. p_pid (procs s ! np))) (\<lambda>pid.
               bnd (modify (proc_upd np (\<lambda>p. p\<lparr>p_state := RUNNABLE\<rparr>))) (\<lambda>_.
               ret pid))))))))))))"

subsection \<open>Exit and wait\<close>

definition exit_file :: "nat \<Rightarrow> nat \<Rightarrow> ('a files_scheme, unit) kernel" where
  "exit_file cp fd =
     bnd (fetch (\<lambda>s. p_ofile (procs s ! cp) ! fd)) (\<lambda>f.
     case f of
       None \<Rightarrow> ret ()
     | Some f \<Rightarrow>
         bnd (fileclose f) (\<lambda>_.
         modify (proc_upd cp (\<lambda>p. p\<lparr>p_ofile := (p_ofile p)[fd := None]\<rparr>))))"

text \<open>\<^verbatim>\<open>wakeup1\<close> on a process pointer that may be null.\<close>

definition wakeup_proc :: "nat option \<Rightarrow> 'a ptable_scheme \<Rightarrow> 'a ptable_scheme" where
  "wakeup_proc p s =
     (case p of
        Some i \<Rightarrow> wakeup1 (ChanProc i) s
      | None \<Rightarrow> s\<lparr>procs := map (\<lambda>q. if p_state q = SLEEPING \<and> p_chan q = None
                                     then q\<lparr>p_state := RUNNABLE\<rparr> else q) (procs s)\<rparr>)"

definition reparent :: "nat \<Rightarrow> nat \<Rightarrow> 'a ptable_scheme \<Rightarrow> 'a ptable_scheme" where
  "reparent cp i s =
     (if p_parent (procs s ! i) = Some cp
      then let s = proc_upd i (\<lambda>p. p\<lparr>p_parent := initproc s\<rparr>) s
           in if p_state (procs s ! i) = ZOMBIE then wakeup_proc (initproc s) s else s
      else s)"

definition exit :: "('a vm_scheme, unit) kernel" where
  "exit =
     bnd myproc (\<lambda>cp.
     bnd (fetch initproc) (\<lambda>ip.
     if ip = Some cp then panic ''init exiting''
     else
       bnd (for_each (exit_file cp) [0..<NOFILE]) (\<lambda>_.
       bnd begin_op (\<lambda>_.
       bnd (fetch (\<lambda>s. p_cwd (procs s ! cp))) (\<lambda>cwd.
       case cwd of
         None \<Rightarrow> stuck OutOfBounds
       | Some c \<Rightarrow>
           bnd (iput c) (\<lambda>_.
           bnd end_op (\<lambda>_.
           bnd (modify (proc_upd cp (\<lambda>p. p\<lparr>p_cwd := None\<rparr>))) (\<lambda>_.
           bnd (modify (\<lambda>s. wakeup_proc (p_parent (procs s ! cp)) s)) (\<lambda>_.
           bnd (fetch (\<lambda>s. length (procs s))) (\<lambda>nproc.
           bnd (for_each (\<lambda>i. modify (reparent cp i)) [0..<nproc]) (\<lambda>_.
           modify (proc_upd cp (\<lambda>p. p\<lparr>p_state := ZOMBIE\<rparr>)))))))))))))"

definition reap :: "nat \<Rightarrow> ('a vm_scheme, int) kernel" where
  "reap i =
     bnd (fetch (\<lambda>s. procs s ! i)) (\<lambda>p.
     bnd (kfree (p_kstack p)) (\<lambda>_.
     bnd (modify (proc_upd i (\<lambda>p. p\<lparr>p_kstack := 0\<rparr>))) (\<lambda>_.
     bnd (freevm (p_pgdir p)) (\<lambda>_.
     bnd (modify (proc_upd i (\<lambda>p. p\<lparr>p_pid := 0, p_parent := None, p_name := (p_name p)[0 := 0],
                                    p_killed := False, p_state := UNUSED\<rparr>))) (\<lambda>_.
     ret (p_pid p))))))"

text \<open>One round of the loop of \<open>wait\<close>: \<open>None\<close> when it sleeps.\<close>

definition wait_run :: "('a vm_scheme, int option) kernel" where
  "wait_run =
     bnd myproc (\<lambda>cp.
     bnd (fetch procs) (\<lambda>ps.
     case find_idx (\<lambda>p. p_parent p = Some cp \<and> p_state p = ZOMBIE) ps of
       Some i \<Rightarrow> bnd (reap i) (\<lambda>pid. ret (Some pid))
     | None \<Rightarrow>
         if \<not> (\<exists>p \<in> set ps. p_parent p = Some cp) \<or> p_killed (ps ! cp) then ret (Some (-1))
         else bnd (sleep_enter (ChanProc cp)) (\<lambda>_. ret None)))"

definition wait :: "('a vm_scheme, int) kernel" where
  "wait =
     bnd myproc (\<lambda>cp.
     bnd wait_run (\<lambda>r.
     case r of Some pid \<Rightarrow> ret pid | None \<Rightarrow> sleeps (ChanProc cp)))"

subsection \<open>The scheduler\<close>

text \<open>The body of the scan for slot \<open>i\<close>, up to the context switch; whether it switches.\<close>

definition scheduler_dispatch :: "nat \<Rightarrow> ('a vm_scheme, bool) kernel" where
  "scheduler_dispatch i =
     bnd (fetch (\<lambda>s. p_state (procs s ! i))) (\<lambda>st.
     if st \<noteq> RUNNABLE then ret False
     else
       bnd (modify (\<lambda>s. s\<lparr>cur_proc := Some i\<rparr>)) (\<lambda>_.
       bnd (switchuvm (Some i)) (\<lambda>_.
       bnd (modify (proc_upd i (\<lambda>p. p\<lparr>p_state := RUNNING\<rparr>))) (\<lambda>_. ret True))))"

definition scheduler_return :: "('a vm_scheme, unit) kernel" where
  "scheduler_return = bnd switchkvm (\<lambda>_. modify (\<lambda>s. s\<lparr>cur_proc := None\<rparr>))"

text \<open>The test of \<open>sched\<close> on the state of the process that enters it.\<close>

definition sched :: "('a ptable_scheme, unit) kernel" where
  "sched =
     bnd myproc (\<lambda>i.
     bnd (fetch (\<lambda>s. p_state (procs s ! i))) (\<lambda>st.
     if st = RUNNING then panic ''sched running'' else ret ()))"

text \<open>\<open>first\<close> is the static flag of \<open>forkret\<close>.\<close>

definition forkret :: "bool \<Rightarrow> ('a vm_scheme, bool) kernel" where
  "forkret first =
     bnd (whenk first (bnd (iinit ROOTDEV) (\<lambda>_. initlog ROOTDEV))) (\<lambda>_. ret False)"

end
