(* ===== verification/Users.thy ===== *)
theory Users
  imports CString
begin

text \<open>
  The user table and the list of sudoers of \<^verbatim>\<open>users.c\<close>, and the permission tests of
  \<^verbatim>\<open>perm.h\<close>. Every function of \<^verbatim>\<open>users.c\<close> is one definition on the record \<open>usertable\<close>; the
  table's spin lock makes it one step. The listing, which prints, is in \<open>Console\<close>.
\<close>

subsection \<open>State\<close>

definition NUSER :: nat where "NUSER = 10"

record user =
  u_uid :: int
  u_gid :: int
  u_username :: "byte list"
  u_password :: "byte list"
  u_active :: bool

record usertable =
  ut_users :: "user list"
  sudoers :: "int list"

subsection \<open>The table\<close>

definition sudoers_init :: "usertable \<Rightarrow> usertable" where
  "sudoers_init t =
     t\<lparr>sudoers := (replicate NUSER 0)[0 := 1, 1 := 1]\<rparr>"

definition set_user :: "int \<Rightarrow> int \<Rightarrow> byte list \<Rightarrow> byte list \<Rightarrow> user \<Rightarrow> user" where
  "set_user uid gid username password u =
     \<lparr>u_uid = uid, u_gid = gid, u_username = safestrcpy (u_username u) username 16,
      u_password = safestrcpy (u_password u) password 32, u_active = True\<rparr>"

definition users_init :: "usertable \<Rightarrow> usertable" where
  "users_init t =
     (let us = ut_users t;
          us = us[0 := set_user 0 0 (cbytes ''root'') (cbytes ''toor'') (us ! 0)];
          us = us[1 := set_user 1000 1000 (cbytes ''user'') (cbytes ''user'') (us ! 1)];
          us = take 2 us @ map (\<lambda>u. u\<lparr>u_active := False\<rparr>) (drop 2 us)
      in sudoers_init (t\<lparr>ut_users := us\<rparr>))"

definition user_named :: "byte list \<Rightarrow> user \<Rightarrow> bool" where
  "user_named username u \<longleftrightarrow> u_active u \<and> strncmp (u_username u) username 16 = 0"

definition user_with_uid :: "int \<Rightarrow> user \<Rightarrow> bool" where
  "user_with_uid uid u \<longleftrightarrow> u_active u \<and> u_uid u = uid"

definition users_checkpassword :: "byte list \<Rightarrow> byte list \<Rightarrow> usertable \<Rightarrow> int" where
  "users_checkpassword username password t =
     (case find_idx (user_named username) (ut_users t) of
        Some i \<Rightarrow> if strncmp (u_password (ut_users t ! i)) password 32 = 0
                  then u_uid (ut_users t ! i) else -1
      | None \<Rightarrow> -1)"

definition users_getname :: "int \<Rightarrow> byte list \<Rightarrow> int \<Rightarrow> usertable \<Rightarrow> byte list" where
  "users_getname uid buf n t =
     (case find_idx (user_with_uid uid) (ut_users t) of
        Some i \<Rightarrow> safestrcpy buf (u_username (ut_users t ! i)) n
      | None \<Rightarrow> safestrcpy buf (cbytes ''unknown'') n)"

definition users_add :: "byte list \<Rightarrow> byte list \<Rightarrow> int \<Rightarrow> int \<Rightarrow> usertable \<Rightarrow> int \<times> usertable" where
  "users_add username password uid gid t =
     (case find_idx (\<lambda>u. \<not> u_active u) (ut_users t) of
        Some i \<Rightarrow> (0, t\<lparr>ut_users := (ut_users t)[i := set_user uid gid username password (ut_users t ! i)]\<rparr>)
      | None \<Rightarrow> (-1, t))"

definition users_delete :: "byte list \<Rightarrow> usertable \<Rightarrow> int \<times> usertable" where
  "users_delete username t =
     (case find_idx (user_named username) (ut_users t) of
        Some i \<Rightarrow>
          if u_uid (ut_users t ! i) = 0 then (-1, t)
          else (0, t\<lparr>ut_users := (ut_users t)[i := (ut_users t ! i)\<lparr>u_active := False\<rparr>]\<rparr>)
      | None \<Rightarrow> (-1, t))"

subsection \<open>Sudoers\<close>

definition users_can_sudo :: "int \<Rightarrow> usertable \<Rightarrow> int" where
  "users_can_sudo uid t =
     (case find_idx (user_with_uid uid) (ut_users t) of
        Some i \<Rightarrow> sudoers t ! i
      | None \<Rightarrow> 0)"

definition users_add_sudoer :: "int \<Rightarrow> usertable \<Rightarrow> int \<times> usertable" where
  "users_add_sudoer uid t =
     (case find_idx (user_with_uid uid) (ut_users t) of
        Some i \<Rightarrow> (0, t\<lparr>sudoers := (sudoers t)[i := 1]\<rparr>)
      | None \<Rightarrow> (-1, t))"

definition users_remove_sudoer :: "int \<Rightarrow> usertable \<Rightarrow> int \<times> usertable" where
  "users_remove_sudoer uid t =
     (if uid = 0 then (-1, t)
      else case find_idx (user_with_uid uid) (ut_users t) of
             Some i \<Rightarrow> (0, t\<lparr>sudoers := (sudoers t)[i := 0]\<rparr>)
           | None \<Rightarrow> (-1, t))"

subsection \<open>Permission bits\<close>

definition S_IRUSR :: ushort where "S_IRUSR = 0x100"
definition S_IWUSR :: ushort where "S_IWUSR = 0x80"
definition S_IXUSR :: ushort where "S_IXUSR = 0x40"
definition S_IRGRP :: ushort where "S_IRGRP = 0x20"
definition S_IWGRP :: ushort where "S_IWGRP = 0x10"
definition S_IXGRP :: ushort where "S_IXGRP = 0x8"
definition S_IROTH :: ushort where "S_IROTH = 0x4"
definition S_IWOTH :: ushort where "S_IWOTH = 0x2"
definition S_IXOTH :: ushort where "S_IXOTH = 0x1"

definition CAN_READ :: "ushort \<Rightarrow> int \<Rightarrow> int \<Rightarrow> ushort \<Rightarrow> ushort \<Rightarrow> bool" where
  "CAN_READ mode uid gid f_uid f_gid \<longleftrightarrow>
     uid = 0 \<or> (uid = Word.uint f_uid \<and> mode AND S_IRUSR \<noteq> 0) \<or>
     (gid = Word.uint f_gid \<and> mode AND S_IRGRP \<noteq> 0) \<or> mode AND S_IROTH \<noteq> 0"

definition CAN_WRITE :: "ushort \<Rightarrow> int \<Rightarrow> int \<Rightarrow> ushort \<Rightarrow> ushort \<Rightarrow> bool" where
  "CAN_WRITE mode uid gid f_uid f_gid \<longleftrightarrow>
     uid = 0 \<or> (uid = Word.uint f_uid \<and> mode AND S_IWUSR \<noteq> 0) \<or>
     (gid = Word.uint f_gid \<and> mode AND S_IWGRP \<noteq> 0) \<or> mode AND S_IWOTH \<noteq> 0"

definition CAN_EXECUTE :: "ushort \<Rightarrow> int \<Rightarrow> int \<Rightarrow> ushort \<Rightarrow> ushort \<Rightarrow> bool" where
  "CAN_EXECUTE mode uid gid f_uid f_gid \<longleftrightarrow>
     uid = 0 \<or> (uid = Word.uint f_uid \<and> mode AND S_IXUSR \<noteq> 0) \<or>
     (gid = Word.uint f_gid \<and> mode AND S_IXGRP \<noteq> 0) \<or> mode AND S_IXOTH \<noteq> 0"

end
