(* ===== verification/Syscall.thy ===== *)
theory Syscall
  imports Proc Users
begin

text \<open>
  System-call arguments (\<^verbatim>\<open>syscall.c\<close>) and the calls of \<^verbatim>\<open>sysproc.c\<close>. Arguments come from the
  caller's stack through the active page table; a string argument is represented by its bytes,
  which cannot change during the call. A failing fetch (a negative return in the code) is
  \<open>None\<close>.
\<close>

record sys = vm +
  ut :: usertable
  ticks :: uint

subsection \<open>The caller's memory\<close>

definition user_byte :: "uint \<Rightarrow> ('a vm_scheme, byte) kernel" where
  "user_byte va s =
     (case va_ka (mem s) (cr3 s) va of
        None \<Rightarrow> Inl (Panic ''trap'')
      | Some ka \<Rightarrow> Inr (mem s ka, s))"

definition user_put :: "uint \<times> byte \<Rightarrow> ('a vm_scheme, unit) kernel" where
  "user_put x s =
     (case va_ka (mem s) (cr3 s) (fst x) of
        None \<Rightarrow> Inl (Panic ''trap'')
      | Some ka \<Rightarrow> Inr ((), s\<lparr>mem := (mem s)(ka := snd x)\<rparr>))"

definition user_addrs :: "uint \<Rightarrow> nat \<Rightarrow> uint list" where
  "user_addrs va n = map (\<lambda>k. va + of_nat k) [0..<n]"

definition user_load :: "uint \<Rightarrow> nat \<Rightarrow> ('a vm_scheme, byte list) kernel" where
  "user_load va n = map_each user_byte (user_addrs va n)"

definition user_store :: "uint \<Rightarrow> byte list \<Rightarrow> ('a vm_scheme, unit) kernel" where
  "user_store va bs = for_each user_put (zip (user_addrs va (length bs)) bs)"

definition word_bytes :: "uint \<Rightarrow> byte list" where
  "word_bytes w = [ucast w, ucast (drop_bit 8 w), ucast (drop_bit 16 w), ucast (drop_bit 24 w)]"

definition half_bytes :: "ushort \<Rightarrow> byte list" where
  "half_bytes w = [ucast w, ucast (drop_bit 8 w)]"

definition bytes_word :: "byte list \<Rightarrow> nat \<Rightarrow> uint" where
  "bytes_word bs i = join32 (bs ! i) (bs ! (i + 1)) (bs ! (i + 2)) (bs ! (i + 3))"

subsection \<open>Arguments\<close>

definition fetchint :: "uint \<Rightarrow> ('a vm_scheme, int option) kernel" where
  "fetchint addr =
     bnd myproc (\<lambda>p.
     bnd (fetch (\<lambda>s. p_sz (procs s ! p))) (\<lambda>sz.
     if addr \<ge> sz \<or> addr + 4 > sz then ret None
     else bnd (user_load addr 4) (\<lambda>bs. ret (Some (sint (bytes_word bs 0))))))"

primrec fetchstr_loop :: "uint \<Rightarrow> nat \<Rightarrow> ('a vm_scheme, byte list option) kernel" where
  "fetchstr_loop a 0 = ret None"
| "fetchstr_loop a (Suc n) =
     bnd (user_byte a) (\<lambda>c.
     if c = 0 then ret (Some [])
     else bnd (fetchstr_loop (a + 1) n) (\<lambda>r. ret (map_option (Cons c) r)))"

definition fetchstr :: "uint \<Rightarrow> ('a vm_scheme, byte list option) kernel" where
  "fetchstr addr =
     bnd myproc (\<lambda>p.
     bnd (fetch (\<lambda>s. p_sz (procs s ! p))) (\<lambda>sz.
     if addr \<ge> sz then ret None else fetchstr_loop addr (unat (sz - addr))))"

definition argint :: "nat \<Rightarrow> ('a vm_scheme, int option) kernel" where
  "argint n =
     bnd myproc (\<lambda>p.
     bnd (fetch (\<lambda>s. ld32 (mem s) (p_tf (procs s ! p) + TF_ESP))) (\<lambda>esp.
     fetchint (esp + 4 + 4 * of_nat n)))"

definition argptr :: "nat \<Rightarrow> int \<Rightarrow> ('a vm_scheme, uint option) kernel" where
  "argptr n sz =
     bnd (argint n) (\<lambda>r.
     case r of
       None \<Rightarrow> ret None
     | Some i \<Rightarrow>
         bnd myproc (\<lambda>p.
         bnd (fetch (\<lambda>s. p_sz (procs s ! p))) (\<lambda>psz.
         let a = word_of_int i in
         if sz < 0 \<or> a \<ge> psz \<or> a + word_of_int sz > psz then ret None else ret (Some a))))"

definition argstr :: "nat \<Rightarrow> ('a vm_scheme, byte list option) kernel" where
  "argstr n =
     bnd (argint n) (\<lambda>r.
     case r of None \<Rightarrow> ret None | Some a \<Rightarrow> fetchstr (word_of_int a))"

text \<open>\<^verbatim>\<open>if(... < 0) return -1;\<close>\<close>

definition orfail :: "('s, 'b option) kernel \<Rightarrow> ('b \<Rightarrow> ('s, int) kernel) \<Rightarrow> ('s, int) kernel" where
  "orfail f g = bnd f (\<lambda>r. case r of None \<Rightarrow> ret (-1) | Some x \<Rightarrow> g x)"

subsection \<open>Process system calls\<close>

definition sys_fork :: "('a vm_scheme, int) kernel" where
  "sys_fork = fork"

definition sys_exit :: "('a vm_scheme, int) kernel" where
  "sys_exit = bnd exit (\<lambda>_. ret 0)"

definition sys_wait :: "('a vm_scheme, int) kernel" where
  "sys_wait = wait"

definition sys_kill :: "('a vm_scheme, int) kernel" where
  "sys_kill = orfail (argint 0) kill"

definition sys_getpid :: "('a vm_scheme, int) kernel" where
  "sys_getpid = bnd myproc (\<lambda>p. fetch (\<lambda>s. p_pid (procs s ! p)))"

definition sys_sbrk :: "('a vm_scheme, int) kernel" where
  "sys_sbrk =
     orfail (argint 0) (\<lambda>n.
     bnd myproc (\<lambda>p.
     bnd (fetch (\<lambda>s. sint (p_sz (procs s ! p)))) (\<lambda>addr.
     bnd (growproc n) (\<lambda>r.
     if r < 0 then ret (-1) else ret addr))))"

text \<open>One round of the loop of \<open>sys_sleep\<close> for a call that started at \<open>ticks0\<close>: \<open>None\<close> when it sleeps.\<close>

definition sys_sleep_run :: "uint \<Rightarrow> int \<Rightarrow> ('a sys_scheme, int option) kernel" where
  "sys_sleep_run ticks0 n =
     bnd (fetch ticks) (\<lambda>t.
     if t - ticks0 < word_of_int n then
       bnd myproc (\<lambda>p.
       bnd (fetch (\<lambda>s. p_killed (procs s ! p))) (\<lambda>killed.
       if killed then ret (Some (-1))
       else bnd (sleep_enter ChanTicks) (\<lambda>_. ret None)))
     else ret (Some 0))"

definition sys_sleep :: "('a sys_scheme, int) kernel" where
  "sys_sleep =
     orfail (argint 0) (\<lambda>n.
     bnd (fetch ticks) (\<lambda>ticks0.
     bnd (sys_sleep_run ticks0 n) (\<lambda>r.
     case r of Some x \<Rightarrow> ret x | None \<Rightarrow> sleeps ChanTicks)))"

definition sys_uptime :: "('a sys_scheme, int) kernel" where
  "sys_uptime = fetch (\<lambda>s. sint (ticks s))"

subsection \<open>Identity system calls\<close>

definition sys_getuid :: "('a ptable_scheme, int) kernel" where
  "sys_getuid = bnd myproc (\<lambda>p. fetch (\<lambda>s. p_uid (procs s ! p)))"

definition sys_getgid :: "('a ptable_scheme, int) kernel" where
  "sys_getgid = bnd myproc (\<lambda>p. fetch (\<lambda>s. p_gid (procs s ! p)))"

definition set_uid :: "nat \<Rightarrow> int \<Rightarrow> 'a ptable_scheme \<Rightarrow> 'a ptable_scheme" where
  "set_uid p uid = proc_upd p (\<lambda>pr. pr\<lparr>p_uid := uid\<rparr>)"

definition sys_setuid :: "('a vm_scheme, int) kernel" where
  "sys_setuid =
     orfail (argint 0) (\<lambda>uid.
     bnd myproc (\<lambda>p.
     bnd (fetch (\<lambda>s. p_uid (procs s ! p))) (\<lambda>cur.
     if cur \<noteq> 0 then ret (-1)
     else bnd (modify (set_uid p uid)) (\<lambda>_. ret 0))))"

definition sys_login :: "('a sys_scheme, int) kernel" where
  "sys_login =
     orfail (argstr 0) (\<lambda>username.
     orfail (argstr 1) (\<lambda>password.
     bnd (fetch (\<lambda>s. users_checkpassword username password (ut s))) (\<lambda>uid.
     if uid < 0 then ret (-1)
     else
       bnd myproc (\<lambda>p.
       bnd (modify (proc_upd p (\<lambda>pr. pr\<lparr>p_uid := uid, p_gid := uid\<rparr>))) (\<lambda>_. ret 0)))))"

definition sys_whoami :: "('a sys_scheme, int) kernel" where
  "sys_whoami =
     orfail (argint 1) (\<lambda>n.
     orfail (argptr 0 n) (\<lambda>buf.
     bnd sys_getuid (\<lambda>uid.
     bnd (user_load buf (nat n)) (\<lambda>old.
     bnd (fetch (\<lambda>s. users_getname uid old n (ut s))) (\<lambda>new.
     bnd (user_store buf new) (\<lambda>_. ret 0))))))"

definition sys_cansudo :: "('a sys_scheme, int) kernel" where
  "sys_cansudo = bnd sys_getuid (\<lambda>uid. fetch (\<lambda>s. users_can_sudo uid (ut s)))"

text \<open>Running an operation of the user table.\<close>

definition with_users :: "(usertable \<Rightarrow> int \<times> usertable) \<Rightarrow> ('a sys_scheme, int) kernel" where
  "with_users f =
     bnd (fetch (\<lambda>s. f (ut s))) (\<lambda>(r, t).
     bnd (modify (\<lambda>s. s\<lparr>ut := t\<rparr>)) (\<lambda>_. ret r))"

definition sys_addsudoer :: "('a sys_scheme, int) kernel" where
  "sys_addsudoer =
     bnd sys_getuid (\<lambda>cur.
     if cur \<noteq> 0 then ret (-1)
     else orfail (argint 0) (\<lambda>uid. with_users (users_add_sudoer uid)))"

definition sys_removesudoer :: "('a sys_scheme, int) kernel" where
  "sys_removesudoer =
     bnd sys_getuid (\<lambda>cur.
     if cur \<noteq> 0 then ret (-1)
     else orfail (argint 0) (\<lambda>uid. with_users (users_remove_sudoer uid)))"

definition sys_setsuid :: "('a sys_scheme, int) kernel" where
  "sys_setsuid =
     bnd myproc (\<lambda>p.
     orfail (argint 0) (\<lambda>uid.
     bnd (fetch (\<lambda>s. (p_uid (procs s ! p), ut s))) (\<lambda>(cur, t).
     if users_can_sudo cur t = 0 then ret (-1)
     else if uid \<noteq> 0 \<and> uid \<noteq> cur then ret (-1)
     else bnd (modify (set_uid p uid)) (\<lambda>_. ret 0))))"

end
