(* ===== verification/Exec.thy ===== *)
theory Exec
  imports Syscall
begin

text \<open>
  \<open>exec\<close> of \<^verbatim>\<open>exec.c\<close>: loading an ELF file into a new page table and switching the process to
  it. A jump to the label \<open>bad\<close> is \<open>None\<close> in the parts, and \<open>exec_bad\<close> is the code there.
\<close>

definition ELF_MAGIC :: uint where "ELF_MAGIC = 0x464C457F"
definition ELF_PROG_LOAD :: uint where "ELF_PROG_LOAD = 1"
definition ELFHDR_SIZE :: nat where "ELFHDR_SIZE = 52"
definition PROGHDR_SIZE :: nat where "PROGHDR_SIZE = 32"
definition MAXARG :: nat where "MAXARG = 32"

definition bytes_half :: "byte list \<Rightarrow> nat \<Rightarrow> ushort" where
  "bytes_half bs i = join16 (bs ! i) (bs ! (i + 1))"

record elfhdr =
  eh_magic :: uint
  eh_entry :: uint
  eh_phoff :: uint
  eh_phnum :: ushort

definition elfhdr_of :: "byte list \<Rightarrow> elfhdr" where
  "elfhdr_of bs = \<lparr>eh_magic = bytes_word bs 0, eh_entry = bytes_word bs 24,
     eh_phoff = bytes_word bs 28, eh_phnum = bytes_half bs 44\<rparr>"

record proghdr =
  ph_type :: uint
  ph_off :: uint
  ph_vaddr :: uint
  ph_filesz :: uint
  ph_memsz :: uint

definition proghdr_of :: "byte list \<Rightarrow> proghdr" where
  "proghdr_of bs = \<lparr>ph_type = bytes_word bs 0, ph_off = bytes_word bs 4, ph_vaddr = bytes_word bs 8,
     ph_filesz = bytes_word bs 16, ph_memsz = bytes_word bs 20\<rparr>"

subsection \<open>Loading the segments\<close>

definition exec_segment ::
  "'a vm_scheme devsw \<Rightarrow> uint \<Rightarrow> nat \<Rightarrow> proghdr \<Rightarrow> uint \<Rightarrow> ('a vm_scheme, uint option) kernel" where
  "exec_segment dv pgdir ip ph sz =
     (if ph_memsz ph < ph_filesz ph then ret None
      else if ph_vaddr ph + ph_memsz ph < ph_vaddr ph then ret None
      else
        bnd (allocuvm pgdir sz (ph_vaddr ph + ph_memsz ph)) (\<lambda>sz.
        if sz = 0 then ret None
        else if ph_vaddr ph mod PGSIZE \<noteq> 0 then ret None
        else
          bnd (loaduvm dv pgdir (ph_vaddr ph) ip (ph_off ph) (ph_filesz ph)) (\<lambda>r.
          if r < 0 then ret None else ret (Some sz))))"

primrec exec_load ::
  "'a vm_scheme devsw \<Rightarrow> uint \<Rightarrow> nat \<Rightarrow> nat \<Rightarrow> uint \<Rightarrow> uint \<Rightarrow> ('a vm_scheme, uint option) kernel" where
  "exec_load dv pgdir ip 0 off sz = ret (Some sz)"
| "exec_load dv pgdir ip (Suc n) off sz =
     bnd (readi dv ip off (of_nat PROGHDR_SIZE)) (\<lambda>(r, bs).
     if r \<noteq> int PROGHDR_SIZE then ret None
     else
       let ph = proghdr_of bs in
       if ph_type ph \<noteq> ELF_PROG_LOAD then exec_load dv pgdir ip n (off + of_nat PROGHDR_SIZE) sz
       else
         bnd (exec_segment dv pgdir ip ph sz) (\<lambda>r.
         case r of
           None \<Rightarrow> ret None
         | Some sz' \<Rightarrow> exec_load dv pgdir ip n (off + of_nat PROGHDR_SIZE) sz'))"

subsection \<open>The argument stack\<close>

primrec exec_push ::
  "uint \<Rightarrow> byte list list \<Rightarrow> nat \<Rightarrow> uint \<Rightarrow> uint list \<Rightarrow> ('a vm_scheme, (uint \<times> uint list) option) kernel" where
  "exec_push pgdir [] argc sp ptrs = ret (Some (sp, ptrs))"
| "exec_push pgdir (arg # args) argc sp ptrs =
     (if argc \<ge> MAXARG then ret None
      else
        let len = strlen arg; sp' = (sp - (of_nat len + 1)) AND NOT 3 in
        bnd (copyout pgdir sp' (take len arg @ [0])) (\<lambda>r.
        if r < 0 then ret None
        else exec_push pgdir args (argc + 1) sp' (ptrs @ [sp'])))"

definition exec_ustack :: "uint \<Rightarrow> uint list \<Rightarrow> uint list" where
  "exec_ustack sp ptrs =
     (let argc = of_nat (length ptrs)
      in [0xFFFFFFFF, argc, sp - (argc + 1) * 4] @ ptrs @ [0])"

definition exec_stack ::
  "uint \<Rightarrow> byte list list \<Rightarrow> uint \<Rightarrow> ('a vm_scheme, (uint \<times> uint) option) kernel" where
  "exec_stack pgdir argv sz =
     (let sz = PGROUNDUP sz in
      bnd (allocuvm pgdir sz (sz + 2 * PGSIZE)) (\<lambda>sz.
      if sz = 0 then ret None
      else
        bnd (clearpteu pgdir (sz - 2 * PGSIZE)) (\<lambda>_.
        bnd (exec_push pgdir argv 0 sz []) (\<lambda>r.
        case r of
          None \<Rightarrow> ret None
        | Some (sp, ptrs) \<Rightarrow>
            let ustack = exec_ustack sp ptrs; sp' = sp - of_nat (length ustack) * 4 in
            bnd (copyout pgdir sp' (concat (map word_bytes ustack))) (\<lambda>r.
            if r < 0 then ret None else ret (Some (sz, sp')))))))"

text \<open>\<^verbatim>\<open>for(last=s=path; *s; s++) if(*s == '/') last = s+1;\<close>\<close>

fun exec_last :: "byte list \<Rightarrow> byte list \<Rightarrow> byte list" where
  "exec_last l [] = l"
| "exec_last l (c # s) =
     (if c = 0 then l else if c = SLASH then exec_last s s else exec_last l s)"

definition exec_bad :: "uint \<Rightarrow> nat option \<Rightarrow> ('a vm_scheme, int) kernel" where
  "exec_bad pgdir ip =
     bnd (whenk (pgdir \<noteq> 0) (freevm pgdir)) (\<lambda>_.
     bnd (case ip of None \<Rightarrow> ret () | Some i \<Rightarrow> bnd (iunlockput i) (\<lambda>_. end_op)) (\<lambda>_.
     ret (-1)))"

definition exec_commit :: "nat \<Rightarrow> byte list \<Rightarrow> uint \<Rightarrow> uint \<Rightarrow> uint \<Rightarrow> uint \<Rightarrow> ('a vm_scheme, int) kernel" where
  "exec_commit cp path pgdir sz entry sp =
     bnd (modify (proc_upd cp (\<lambda>p. p\<lparr>p_name := safestrcpy (p_name p) (exec_last path path) 16\<rparr>))) (\<lambda>_.
     bnd (fetch (\<lambda>s. p_pgdir (procs s ! cp))) (\<lambda>oldpgdir.
     bnd (modify (proc_upd cp (\<lambda>p. p\<lparr>p_pgdir := pgdir, p_sz := sz\<rparr>))) (\<lambda>_.
     bnd (fetch (\<lambda>s. p_tf (procs s ! cp))) (\<lambda>tf.
     bnd (modify (set_word (tf + TF_EIP) entry)) (\<lambda>_.
     bnd (modify (set_word (tf + TF_ESP) sp)) (\<lambda>_.
     bnd (switchuvm (Some cp)) (\<lambda>_.
     bnd (freevm oldpgdir) (\<lambda>_. ret 0))))))))"

definition exec ::
  "'a vm_scheme devsw \<Rightarrow> byte list \<Rightarrow> byte list list \<Rightarrow> ('a vm_scheme, int) kernel" where
  "exec dv path argv =
     bnd myproc (\<lambda>cp.
     bnd begin_op (\<lambda>_.
     bnd (namei dv path) (\<lambda>r.
     case r of
       None \<Rightarrow> bnd end_op (\<lambda>_. ret (-1))
     | Some ip \<Rightarrow>
         bnd (ilock ip) (\<lambda>_.
         bnd (readi dv ip 0 (of_nat ELFHDR_SIZE)) (\<lambda>(n, bs).
         if n \<noteq> int ELFHDR_SIZE \<or> eh_magic (elfhdr_of bs) \<noteq> ELF_MAGIC then exec_bad 0 (Some ip)
         else
           bnd (fetch data_sym) (\<lambda>data.
           bnd (setupkvm data) (\<lambda>pgdir.
           if pgdir = 0 then exec_bad 0 (Some ip)
           else
             bnd (exec_load dv pgdir ip (unat (eh_phnum (elfhdr_of bs))) (eh_phoff (elfhdr_of bs)) 0) (\<lambda>r.
             case r of
               None \<Rightarrow> exec_bad pgdir (Some ip)
             | Some sz \<Rightarrow>
                 bnd (iunlockput ip) (\<lambda>_.
                 bnd end_op (\<lambda>_.
                 bnd (exec_stack pgdir argv sz) (\<lambda>r.
                 case r of
                   None \<Rightarrow> exec_bad pgdir None
                 | Some (sz, sp) \<Rightarrow> exec_commit cp path pgdir sz (eh_entry (elfhdr_of bs)) sp)))))))))))"

end
