(* ===== verification/Sysfile.thy ===== *)
theory Sysfile
  imports Exec
begin

text \<open>
  The file system calls of \<^verbatim>\<open>sysfile.c\<close>. Each call is one definition with the order of the
  code: argument checks, the transaction, the inode locks and the early returns.
\<close>

definition O_RDONLY :: int where "O_RDONLY = 0"
definition O_WRONLY :: int where "O_WRONLY = 1"
definition O_RDWR :: int where "O_RDWR = 2"
definition O_CREATE :: int where "O_CREATE = 0x200"

subsection \<open>File descriptors\<close>

definition argfd :: "nat \<Rightarrow> ('a vm_scheme, (nat \<times> nat) option) kernel" where
  "argfd n =
     bnd (argint n) (\<lambda>r.
     case r of
       None \<Rightarrow> ret None
     | Some fd \<Rightarrow>
         if fd < 0 \<or> fd \<ge> int NOFILE then ret None
         else
           bnd myproc (\<lambda>p.
           bnd (fetch (\<lambda>s. p_ofile (procs s ! p) ! nat fd)) (\<lambda>f.
           ret (map_option (\<lambda>f. (nat fd, f)) f))))"

definition set_ofile :: "nat \<Rightarrow> nat \<Rightarrow> nat option \<Rightarrow> 'a ptable_scheme \<Rightarrow> 'a ptable_scheme" where
  "set_ofile p fd f = proc_upd p (\<lambda>pr. pr\<lparr>p_ofile := (p_ofile pr)[fd := f]\<rparr>)"

definition fdalloc :: "nat \<Rightarrow> ('a ptable_scheme, nat option) kernel" where
  "fdalloc f =
     bnd myproc (\<lambda>p.
     bnd (fetch (\<lambda>s. find_idx (\<lambda>x. x = None) (p_ofile (procs s ! p)))) (\<lambda>r.
     case r of
       None \<Rightarrow> ret None
     | Some fd \<Rightarrow> bnd (modify (set_ofile p fd (Some f))) (\<lambda>_. ret (Some fd))))"

definition sys_dup :: "('a vm_scheme, int) kernel" where
  "sys_dup =
     orfail (argfd 0) (\<lambda>(_, f).
     orfail (fdalloc f) (\<lambda>fd.
     bnd (filedup f) (\<lambda>_. ret (int fd))))"

definition sys_read :: "'a vm_scheme devsw \<Rightarrow> ('a vm_scheme, int) kernel" where
  "sys_read dv =
     orfail (argfd 0) (\<lambda>(_, f).
     orfail (argint 2) (\<lambda>n.
     orfail (argptr 1 n) (\<lambda>p.
     bnd (fileread dv f n) (\<lambda>(r, bytes).
     bnd (user_store p bytes) (\<lambda>_. ret r)))))"

definition sys_write :: "'a vm_scheme devsw \<Rightarrow> ('a vm_scheme, int) kernel" where
  "sys_write dv =
     orfail (argfd 0) (\<lambda>(_, f).
     orfail (argint 2) (\<lambda>n.
     orfail (argptr 1 n) (\<lambda>p.
     bnd (user_load p (nat n)) (\<lambda>bytes.
     filewrite dv f bytes n))))"

definition sys_close :: "('a vm_scheme, int) kernel" where
  "sys_close =
     orfail (argfd 0) (\<lambda>(fd, f).
     bnd myproc (\<lambda>p.
     bnd (modify (set_ofile p fd None)) (\<lambda>_.
     bnd (fileclose f) (\<lambda>_. ret 0))))"

text \<open>The fields of \<open>struct stat\<close> and their offsets.\<close>

definition stat_fields :: "stat \<Rightarrow> (uint \<times> byte list) list" where
  "stat_fields st =
     [(0, half_bytes (st_type st)), (4, word_bytes (st_dev st)), (8, word_bytes (st_ino st)),
      (12, half_bytes (st_nlink st)), (16, word_bytes (st_size st)), (20, half_bytes (st_uid st)),
      (22, half_bytes (st_gid st)), (24, half_bytes (st_mode st))]"

definition STAT_SIZE :: int where "STAT_SIZE = 28"

definition sys_fstat :: "('a vm_scheme, int) kernel" where
  "sys_fstat =
     orfail (argfd 0) (\<lambda>(_, f).
     orfail (argptr 1 STAT_SIZE) (\<lambda>p.
     bnd (filestat f) (\<lambda>r.
     case r of
       None \<Rightarrow> ret (-1)
     | Some st \<Rightarrow>
         bnd (for_each (\<lambda>(o', bs). user_store (p + o') bs) (stat_fields st)) (\<lambda>_. ret 0))))"

subsection \<open>Links\<close>

definition add_nlink :: "ushort \<Rightarrow> nat \<Rightarrow> ('a fs_scheme, unit) kernel" where
  "add_nlink d i = bnd (modify (inode_upd i (\<lambda>ip. ip\<lparr>i_nlink := i_nlink ip + d\<rparr>))) (\<lambda>_. iupdate i)"

definition link_bad :: "nat \<Rightarrow> ('a vm_scheme, int) kernel" where
  "link_bad ip =
     bnd (ilock ip) (\<lambda>_.
     bnd (add_nlink (-1) ip) (\<lambda>_.
     bnd (iunlockput ip) (\<lambda>_.
     bnd end_op (\<lambda>_. ret (-1)))))"

definition link_entry :: "'a vm_scheme devsw \<Rightarrow> nat \<Rightarrow> nat \<Rightarrow> byte list \<Rightarrow> ('a vm_scheme, int) kernel" where
  "link_entry dv ip dp name =
     bnd (fetch (\<lambda>s. (inodes s ! dp, inodes s ! ip))) (\<lambda>(d, i).
     if i_dev d \<noteq> i_dev i then ret (-1) else dirlink dv dp name (i_inum i))"

definition sys_link :: "'a vm_scheme devsw \<Rightarrow> ('a vm_scheme, int) kernel" where
  "sys_link dv =
     orfail (argstr 0) (\<lambda>old.
     orfail (argstr 1) (\<lambda>new.
     bnd begin_op (\<lambda>_.
     bnd (namei dv old) (\<lambda>r.
     case r of
       None \<Rightarrow> bnd end_op (\<lambda>_. ret (-1))
     | Some ip \<Rightarrow>
         bnd (ilock ip) (\<lambda>_.
         bnd (fetch (\<lambda>s. i_type (inodes s ! ip))) (\<lambda>type.
         if type = T_DIR then bnd (iunlockput ip) (\<lambda>_. bnd end_op (\<lambda>_. ret (-1)))
         else
           bnd (add_nlink 1 ip) (\<lambda>_.
           bnd (iunlock ip) (\<lambda>_.
           bnd (nameiparent dv new (replicate DIRSIZ 0)) (\<lambda>(r, name).
           case r of
             None \<Rightarrow> link_bad ip
           | Some dp \<Rightarrow>
               bnd (ilock dp) (\<lambda>_.
               bnd (link_entry dv ip dp name) (\<lambda>r.
               if r < 0 then bnd (iunlockput dp) (\<lambda>_. link_bad ip)
               else
                 bnd (iunlockput dp) (\<lambda>_.
                 bnd (iput ip) (\<lambda>_.
                 bnd end_op (\<lambda>_. ret 0))))))))))))))"

primrec isdirempty_loop :: "'a fs_scheme devsw \<Rightarrow> nat \<Rightarrow> nat list \<Rightarrow> ('a fs_scheme, bool) kernel" where
  "isdirempty_loop dv dp [] = ret True"
| "isdirempty_loop dv dp (off # offs) =
     bnd (read_dirent dv ''isdirempty: readi'' dp off) (\<lambda>de.
     if de_inum de \<noteq> 0 then ret False else isdirempty_loop dv dp offs)"

definition isdirempty :: "'a fs_scheme devsw \<Rightarrow> nat \<Rightarrow> ('a fs_scheme, bool) kernel" where
  "isdirempty dv dp =
     bnd (fetch (\<lambda>s. i_size (inodes s ! dp))) (\<lambda>sz.
     isdirempty_loop dv dp (drop 2 (dirent_offs sz)))"

definition unlink_bad :: "nat \<Rightarrow> ('a vm_scheme, int) kernel" where
  "unlink_bad dp = bnd (iunlockput dp) (\<lambda>_. bnd end_op (\<lambda>_. ret (-1)))"

text \<open>The part of \<open>sys_unlink\<close> after its last check: clear the entry at \<open>off\<close>, drop the links.\<close>

definition unlink_entry ::
  "'a vm_scheme devsw \<Rightarrow> nat \<Rightarrow> nat \<Rightarrow> uint \<Rightarrow> ('a vm_scheme, int) kernel" where
  "unlink_entry dv dp ip off =
     bnd (fetch (\<lambda>s. (inodes s ! ip, inodes s ! dp))) (\<lambda>(i, d).
     bnd (modify (\<lambda>s. s\<lparr>nc := namecache_invalidate (i_dev i) (i_inum i) (nc s)\<rparr>)) (\<lambda>_.
     bnd (modify (\<lambda>s. s\<lparr>nc := namecache_invalidate (i_dev d) (i_inum d) (nc s)\<rparr>)) (\<lambda>_.
     bnd (writei dv dp (replicate DIRENT_SIZE 0) off (of_nat DIRENT_SIZE)) (\<lambda>r.
     if r \<noteq> int DIRENT_SIZE then panic ''unlink: writei''
     else
       bnd (whenk (i_type i = T_DIR) (add_nlink (-1) dp)) (\<lambda>_.
       bnd (iunlockput dp) (\<lambda>_.
       bnd (add_nlink (-1) ip) (\<lambda>_.
       bnd (iunlockput ip) (\<lambda>_.
       bnd end_op (\<lambda>_. ret 0)))))))))"

definition sys_unlink :: "'a vm_scheme devsw \<Rightarrow> ('a vm_scheme, int) kernel" where
  "sys_unlink dv =
     orfail (argstr 0) (\<lambda>path.
     bnd begin_op (\<lambda>_.
     bnd (nameiparent dv path (replicate DIRSIZ 0)) (\<lambda>(r, name).
     case r of
       None \<Rightarrow> bnd end_op (\<lambda>_. ret (-1))
     | Some dp \<Rightarrow>
         bnd (ilock dp) (\<lambda>_.
         if namecmp name (cbytes ''.'') = 0 \<or> namecmp name (cbytes ''..'') = 0 then unlink_bad dp
         else
           bnd (dirlookup dv dp name) (\<lambda>r.
           case r of
             None \<Rightarrow> unlink_bad dp
           | Some (ip, off) \<Rightarrow>
               bnd (ilock ip) (\<lambda>_.
               bnd (fetch (\<lambda>s. inodes s ! ip)) (\<lambda>i.
               if sint (i_nlink i) < 1 then panic ''unlink: nlink < 1''
               else
                 bnd (if i_type i = T_DIR then isdirempty dv ip else ret True) (\<lambda>ok.
                 if \<not> ok then bnd (iunlockput ip) (\<lambda>_. unlink_bad dp)
                 else unlink_entry dv dp ip off))))))))"

subsection \<open>Creating and opening\<close>

definition create_dots :: "'a vm_scheme devsw \<Rightarrow> nat \<Rightarrow> nat \<Rightarrow> ('a vm_scheme, unit) kernel" where
  "create_dots dv dp ip =
     bnd (add_nlink 1 dp) (\<lambda>_.
     bnd (fetch (\<lambda>s. (i_inum (inodes s ! ip), i_inum (inodes s ! dp)))) (\<lambda>(inum, pinum).
     bnd (dirlink dv ip (cbytes ''.'') inum) (\<lambda>r.
     if r < 0 then panic ''create dots''
     else
       bnd (dirlink dv ip (cbytes ''..'') pinum) (\<lambda>r.
       if r < 0 then panic ''create dots'' else ret ()))))"

definition create ::
  "'a vm_scheme devsw \<Rightarrow> byte list \<Rightarrow> ushort \<Rightarrow> ushort \<Rightarrow> ushort \<Rightarrow> ('a vm_scheme, nat option) kernel" where
  "create dv path type major minor =
     bnd (nameiparent dv path (replicate DIRSIZ 0)) (\<lambda>(r, name).
     case r of
       None \<Rightarrow> ret None
     | Some dp \<Rightarrow>
         bnd (ilock dp) (\<lambda>_.
         bnd (dirlookup dv dp name) (\<lambda>r.
         case r of
           Some (ip, _) \<Rightarrow>
             bnd (iunlockput dp) (\<lambda>_.
             bnd (ilock ip) (\<lambda>_.
             bnd (fetch (\<lambda>s. i_type (inodes s ! ip))) (\<lambda>t.
             if type = T_FILE \<and> t = T_FILE then ret (Some ip)
             else bnd (iunlockput ip) (\<lambda>_. ret None))))
         | None \<Rightarrow>
             bnd (fetch (\<lambda>s. i_dev (inodes s ! dp))) (\<lambda>dev.
             bnd (ialloc dev type) (\<lambda>ip.
             bnd (ilock ip) (\<lambda>_.
             bnd (modify (inode_upd ip (\<lambda>i. i\<lparr>i_major := major, i_minor := minor, i_nlink := 1\<rparr>))) (\<lambda>_.
             bnd (iupdate ip) (\<lambda>_.
             bnd (whenk (type = T_DIR) (create_dots dv dp ip)) (\<lambda>_.
             bnd (fetch (\<lambda>s. i_inum (inodes s ! ip))) (\<lambda>inum.
             bnd (dirlink dv dp name inum) (\<lambda>r.
             if r < 0 then panic ''create: dirlink''
             else bnd (iunlockput dp) (\<lambda>_. ret (Some ip)))))))))))))"

text \<open>The permission tests of \<open>sys_open\<close>: whether they refuse.\<close>

definition open_denied :: "int \<Rightarrow> int \<Rightarrow> inode \<Rightarrow> bool" where
  "open_denied uid omode ip \<longleftrightarrow>
     ((omode = O_RDONLY \<or> omode = O_RDWR) \<and> uid \<noteq> 0 \<and> uid \<noteq> Word.uint (i_uid ip) \<and>
        i_mode ip AND S_IROTH = 0) \<or>
     ((omode = O_WRONLY \<or> omode = O_RDWR) \<and> uid \<noteq> 0 \<and> uid \<noteq> Word.uint (i_uid ip) \<and>
        i_mode ip AND S_IWOTH = 0)"

definition omode_bit :: "int \<Rightarrow> int \<Rightarrow> bool" where
  "omode_bit omode b \<longleftrightarrow> omode AND b \<noteq> 0"

text \<open>The inode \<open>sys_open\<close> is about to open, locked.\<close>

definition open_inode :: "'a vm_scheme devsw \<Rightarrow> byte list \<Rightarrow> int \<Rightarrow> int \<Rightarrow> ('a vm_scheme, nat option) kernel" where
  "open_inode dv path omode uid =
     (if omode_bit omode O_CREATE then create dv path T_FILE 0 0
      else
        bnd (namei dv path) (\<lambda>r.
        case r of
          None \<Rightarrow> ret None
        | Some ip \<Rightarrow>
            bnd (ilock ip) (\<lambda>_.
            bnd (fetch (\<lambda>s. inodes s ! ip)) (\<lambda>i.
            if i_type i = T_DIR \<and> omode \<noteq> O_RDONLY then bnd (iunlockput ip) (\<lambda>_. ret None)
            else if open_denied uid omode i then bnd (iunlockput ip) (\<lambda>_. ret None)
            else ret (Some ip)))))"

definition open_fail :: "nat option \<Rightarrow> nat \<Rightarrow> ('a vm_scheme, int) kernel" where
  "open_fail f ip =
     bnd (case f of None \<Rightarrow> ret () | Some f \<Rightarrow> fileclose f) (\<lambda>_.
     bnd (iunlockput ip) (\<lambda>_.
     bnd end_op (\<lambda>_. ret (-1))))"

definition open_file :: "int \<Rightarrow> nat \<Rightarrow> file_t \<Rightarrow> file_t" where
  "open_file omode ip f =
     f\<lparr>f_type := FD_INODE, f_ip := ip, f_off := 0, f_readable := \<not> omode_bit omode O_WRONLY,
       f_writable := (omode_bit omode O_WRONLY \<or> omode_bit omode O_RDWR)\<rparr>"

definition sys_open :: "'a vm_scheme devsw \<Rightarrow> ('a vm_scheme, int) kernel" where
  "sys_open dv =
     bnd sys_getuid (\<lambda>uid.
     orfail (argstr 0) (\<lambda>path.
     orfail (argint 1) (\<lambda>omode.
     bnd begin_op (\<lambda>_.
     bnd (open_inode dv path omode uid) (\<lambda>r.
     case r of
       None \<Rightarrow> bnd end_op (\<lambda>_. ret (-1))
     | Some ip \<Rightarrow>
         bnd filealloc (\<lambda>r.
         case r of
           None \<Rightarrow> open_fail None ip
         | Some f \<Rightarrow>
             bnd (fdalloc f) (\<lambda>r.
             case r of
               None \<Rightarrow> open_fail (Some f) ip
             | Some fd \<Rightarrow>
                 bnd (iunlock ip) (\<lambda>_.
                 bnd end_op (\<lambda>_.
                 bnd (modify (file_upd f (open_file omode ip))) (\<lambda>_.
                 ret (int fd)))))))))))"

text \<open>\<^verbatim>\<open>{ end_op(); return -1; }\<close> when an operand of the guard fails, else put the inode.\<close>

definition finish_create :: "('a vm_scheme, nat option) kernel \<Rightarrow> ('a vm_scheme, int) kernel" where
  "finish_create f =
     bnd begin_op (\<lambda>_.
     bnd f (\<lambda>r.
     case r of
       None \<Rightarrow> bnd end_op (\<lambda>_. ret (-1))
     | Some ip \<Rightarrow> bnd (iunlockput ip) (\<lambda>_. bnd end_op (\<lambda>_. ret 0))))"

definition ornone :: "('s, 'b option) kernel \<Rightarrow> ('b \<Rightarrow> ('s, 'c option) kernel) \<Rightarrow> ('s, 'c option) kernel" where
  "ornone f g = bnd f (\<lambda>r. case r of None \<Rightarrow> ret None | Some x \<Rightarrow> g x)"

definition sys_mkdir :: "'a vm_scheme devsw \<Rightarrow> ('a vm_scheme, int) kernel" where
  "sys_mkdir dv = finish_create (ornone (argstr 0) (\<lambda>path. create dv path T_DIR 0 0))"

definition sys_mknod :: "'a vm_scheme devsw \<Rightarrow> ('a vm_scheme, int) kernel" where
  "sys_mknod dv =
     finish_create
       (ornone (argstr 0) (\<lambda>path.
        ornone (argint 1) (\<lambda>major.
        ornone (argint 2) (\<lambda>minor.
        create dv path T_DEV (word_of_int major) (word_of_int minor)))))"

definition sys_chdir :: "'a vm_scheme devsw \<Rightarrow> ('a vm_scheme, int) kernel" where
  "sys_chdir dv =
     bnd myproc (\<lambda>p.
     bnd begin_op (\<lambda>_.
     bnd (ornone (argstr 0) (namei dv)) (\<lambda>r.
     case r of
       None \<Rightarrow> bnd end_op (\<lambda>_. ret (-1))
     | Some ip \<Rightarrow>
         bnd (ilock ip) (\<lambda>_.
         bnd (fetch (\<lambda>s. i_type (inodes s ! ip))) (\<lambda>t.
         if t \<noteq> T_DIR then bnd (iunlockput ip) (\<lambda>_. bnd end_op (\<lambda>_. ret (-1)))
         else
           bnd (iunlock ip) (\<lambda>_.
           bnd (fetch (\<lambda>s. p_cwd (procs s ! p))) (\<lambda>cwd.
           case cwd of
             None \<Rightarrow> stuck OutOfBounds
           | Some c \<Rightarrow>
               bnd (iput c) (\<lambda>_.
               bnd end_op (\<lambda>_.
               bnd (modify (proc_upd p (\<lambda>pr. pr\<lparr>p_cwd := Some ip\<rparr>))) (\<lambda>_. ret 0))))))))))"

subsection \<open>Exec and pipes\<close>

text \<open>The loop that collects the argument strings, from index \<open>i\<close>; the counter is what is left of \<open>argv\<close>.\<close>

primrec exec_args :: "uint \<Rightarrow> nat \<Rightarrow> nat \<Rightarrow> ('a vm_scheme, byte list list option) kernel" where
  "exec_args uargv i 0 = ret None"
| "exec_args uargv i (Suc n) =
     ornone (fetchint (uargv + 4 * of_nat i)) (\<lambda>uarg.
     if uarg = 0 then ret (Some [])
     else
       ornone (fetchstr (word_of_int uarg)) (\<lambda>arg.
       ornone (exec_args uargv (i + 1) n) (\<lambda>args. ret (Some (arg # args)))))"

definition sys_exec :: "'a vm_scheme devsw \<Rightarrow> ('a vm_scheme, int) kernel" where
  "sys_exec dv =
     orfail (argstr 0) (\<lambda>path.
     orfail (argint 1) (\<lambda>uargv.
     orfail (exec_args (word_of_int uargv) 0 MAXARG) (\<lambda>argv.
     exec dv path argv)))"

definition pipe_bad :: "nat option \<Rightarrow> nat \<Rightarrow> nat \<Rightarrow> ('a vm_scheme, int) kernel" where
  "pipe_bad fd0 rf wr =
     bnd (case fd0 of
            None \<Rightarrow> ret ()
          | Some fd \<Rightarrow> bnd myproc (\<lambda>p. modify (set_ofile p fd None))) (\<lambda>_.
     bnd (fileclose rf) (\<lambda>_.
     bnd (fileclose wr) (\<lambda>_. ret (-1))))"

definition sys_pipe :: "('a vm_scheme, int) kernel" where
  "sys_pipe =
     orfail (argptr 0 8) (\<lambda>fd.
     orfail pipealloc (\<lambda>(rf, wr).
     bnd (fdalloc rf) (\<lambda>fd0.
     case fd0 of
       None \<Rightarrow> pipe_bad None rf wr
     | Some n0 \<Rightarrow>
         bnd (fdalloc wr) (\<lambda>fd1.
         case fd1 of
           None \<Rightarrow> pipe_bad fd0 rf wr
         | Some n1 \<Rightarrow>
             bnd (user_store fd (word_bytes (of_nat n0))) (\<lambda>_.
             bnd (user_store (fd + 4) (word_bytes (of_nat n1))) (\<lambda>_. ret 0))))))"

subsection \<open>Modes and owners\<close>

definition sys_chmod :: "'a vm_scheme devsw \<Rightarrow> ('a vm_scheme, int) kernel" where
  "sys_chmod dv =
     bnd sys_getuid (\<lambda>uid.
     orfail (argstr 0) (\<lambda>path.
     orfail (argint 1) (\<lambda>mode.
     bnd begin_op (\<lambda>_.
     bnd (namei dv path) (\<lambda>r.
     case r of
       None \<Rightarrow> bnd end_op (\<lambda>_. ret (-1))
     | Some ip \<Rightarrow>
         bnd (ilock ip) (\<lambda>_.
         bnd (fetch (\<lambda>s. Word.uint (i_uid (inodes s ! ip)))) (\<lambda>owner.
         if uid \<noteq> 0 \<and> uid \<noteq> owner then bnd (iunlockput ip) (\<lambda>_. bnd end_op (\<lambda>_. ret (-1)))
         else
           bnd (modify (inode_upd ip (\<lambda>i. i\<lparr>i_mode := word_of_int (mode AND 0x1FF)\<rparr>))) (\<lambda>_.
           bnd (iupdate ip) (\<lambda>_.
           bnd (iunlockput ip) (\<lambda>_.
           bnd end_op (\<lambda>_. ret 0)))))))))))"

definition sys_chown :: "'a vm_scheme devsw \<Rightarrow> ('a vm_scheme, int) kernel" where
  "sys_chown dv =
     bnd sys_getuid (\<lambda>cur.
     orfail (argstr 0) (\<lambda>path.
     orfail (argint 1) (\<lambda>uid.
     if cur \<noteq> 0 then ret (-1)
     else
       bnd begin_op (\<lambda>_.
       bnd (namei dv path) (\<lambda>r.
       case r of
         None \<Rightarrow> bnd end_op (\<lambda>_. ret (-1))
       | Some ip \<Rightarrow>
           bnd (ilock ip) (\<lambda>_.
           bnd (modify (inode_upd ip (\<lambda>i. i\<lparr>i_uid := word_of_int uid\<rparr>))) (\<lambda>_.
           bnd (iupdate ip) (\<lambda>_.
           bnd (iunlockput ip) (\<lambda>_.
           bnd end_op (\<lambda>_. ret 0))))))))))"

end
