(* ===== verification/Grep.thy ===== *)
theory Grep
  imports Prelude
begin

text \<open>
  The user program \<^verbatim>\<open>grep.c\<close>: its regular expression matcher and its loop over the lines of a
  file. A C string is the list of its bytes before the terminating NUL. The matcher is compared
  with a denotation of patterns as sets of strings; the line loop with the lines of its input.
\<close>

subsection \<open>The matcher\<close>

definition CARET :: byte where "CARET = 94"
definition DOT :: byte where "DOT = 46"
definition STAR :: byte where "STAR = 42"
definition DOLLAR :: byte where "DOLLAR = 36"
definition NEWLINE :: byte where "NEWLINE = 10"

fun matchhere :: "byte list \<Rightarrow> byte list \<Rightarrow> bool"
  and matchstar :: "byte \<Rightarrow> byte list \<Rightarrow> byte list \<Rightarrow> bool" where
  "matchhere [] text = True"
| "matchhere (r # re) text =
     (if re \<noteq> [] \<and> hd re = STAR then matchstar r (tl re) text
      else if r = DOLLAR \<and> re = [] then text = []
      else text \<noteq> [] \<and> (r = DOT \<or> r = hd text) \<and> matchhere re (tl text))"
| "matchstar c re [] = matchhere re []"
| "matchstar c re (t # text) = (matchhere re (t # text) \<or> ((t = c \<or> c = DOT) \<and> matchstar c re text))"

fun match_any :: "byte list \<Rightarrow> byte list \<Rightarrow> bool" where
  "match_any re [] = matchhere re []"
| "match_any re (t # text) = (matchhere re (t # text) \<or> match_any re text)"

definition match :: "byte list \<Rightarrow> byte list \<Rightarrow> bool" where
  "match re text = (if re \<noteq> [] \<and> hd re = CARET then matchhere (tl re) text else match_any re text)"

subsection \<open>What a pattern means\<close>

datatype atom = One byte | Many byte

text \<open>The atoms of a pattern after its optional anchor, and whether it ends in an end anchor.\<close>

fun atoms :: "byte list \<Rightarrow> atom list \<times> bool" where
  "atoms [] = ([], False)"
| "atoms (r # re) =
     (if re \<noteq> [] \<and> hd re = STAR then (case atoms (tl re) of (as, e) \<Rightarrow> (Many r # as, e))
      else if r = DOLLAR \<and> re = [] then ([], True)
      else (case atoms re of (as, e) \<Rightarrow> (One r # as, e)))"

definition chars :: "byte \<Rightarrow> byte set" where
  "chars c = (if c = DOT then UNIV else {c})"

fun lang :: "atom list \<Rightarrow> byte list set" where
  "lang [] = {[]}"
| "lang (One c # as) = {x # v | x v. x \<in> chars c \<and> v \<in> lang as}"
| "lang (Many c # as) = {u @ v | u v. set u \<subseteq> chars c \<and> v \<in> lang as}"

text \<open>A text starts with a string of the pattern, and ends with it if the pattern is anchored there.\<close>

definition starts_with :: "atom list \<times> bool \<Rightarrow> byte list \<Rightarrow> bool" where
  "starts_with p text \<longleftrightarrow> (\<exists>u v. text = u @ v \<and> u \<in> lang (fst p) \<and> (snd p \<longrightarrow> v = []))"

lemma starts_with_Nil: "starts_with ([], e) text \<longleftrightarrow> (e \<longrightarrow> text = [])"
  by (auto simp: starts_with_def)

lemma starts_withE:
  assumes "starts_with (as, e) text"
  obtains u v where "text = u @ v" "u \<in> lang as" "e \<longrightarrow> v = []"
  using assms by (auto simp: starts_with_def)

lemma starts_withI: "text = u @ v \<Longrightarrow> u \<in> lang as \<Longrightarrow> (e \<longrightarrow> v = []) \<Longrightarrow> starts_with (as, e) text"
  by (auto simp: starts_with_def)

lemma starts_with_One_Cons: "starts_with (One c # as, e) (x # xs) \<longleftrightarrow> x \<in> chars c \<and> starts_with (as, e) xs"
proof
  assume "starts_with (One c # as, e) (x # xs)"
  then obtain u v where "x # xs = u @ v" "u \<in> lang (One c # as)" "e \<longrightarrow> v = []" by (rule starts_withE)
  then show "x \<in> chars c \<and> starts_with (as, e) xs" by (auto intro: starts_withI)
next
  assume h: "x \<in> chars c \<and> starts_with (as, e) xs"
  then obtain u v where uv: "xs = u @ v" "u \<in> lang as" "e \<longrightarrow> v = []" using starts_withE[of as e xs] by blast
  show "starts_with (One c # as, e) (x # xs)"
    using h uv by (intro starts_withI[of "x # xs" "x # u" v]) auto
qed

lemma starts_with_One:
  "starts_with (One c # as, e) text \<longleftrightarrow> text \<noteq> [] \<and> (c = DOT \<or> c = hd text) \<and> starts_with (as, e) (tl text)"
proof (cases "text")
  case Nil
  then show ?thesis by (auto elim!: starts_withE)
next
  case (Cons x xs)
  then show ?thesis by (auto simp: starts_with_One_Cons chars_def)
qed

lemma starts_with_Many_iff:
  "starts_with (Many c # as, e) text \<longleftrightarrow> (\<exists>u v. text = u @ v \<and> set u \<subseteq> chars c \<and> starts_with (as, e) v)"
proof
  assume "starts_with (Many c # as, e) text"
  then obtain x w where xw: "text = x @ w" "x \<in> lang (Many c # as)" "e \<longrightarrow> w = []" by (rule starts_withE)
  then obtain u v where "x = u @ v" "set u \<subseteq> chars c" "v \<in> lang as" by auto
  then show "\<exists>u v. text = u @ v \<and> set u \<subseteq> chars c \<and> starts_with (as, e) v"
    using xw by (intro exI[of _ u] exI[of _ "v @ w"]) (simp add: starts_withI[OF refl])
next
  assume "\<exists>u v. text = u @ v \<and> set u \<subseteq> chars c \<and> starts_with (as, e) v"
  then obtain u v where uv: "text = u @ v" "set u \<subseteq> chars c" "starts_with (as, e) v" by blast
  from uv(3) obtain x w where xw: "v = x @ w" "x \<in> lang as" "e \<longrightarrow> w = []" by (rule starts_withE)
  have "u @ x \<in> lang (Many c # as)" using uv(2) xw(2) by auto
  then show "starts_with (Many c # as, e) text" using uv(1) xw(1,3) by (intro starts_withI[of _ "u @ x" w]) simp_all
qed

lemma starts_with_Many_chars:
  "starts_with (Many c # as, e) (t # text) \<longleftrightarrow>
     starts_with (as, e) (t # text) \<or> (t \<in> chars c \<and> starts_with (Many c # as, e) text)"
proof
  assume "starts_with (Many c # as, e) (t # text)"
  then obtain u v where "t # text = u @ v" "set u \<subseteq> chars c" "starts_with (as, e) v"
    unfolding starts_with_Many_iff by blast
  then show "starts_with (as, e) (t # text) \<or> (t \<in> chars c \<and> starts_with (Many c # as, e) text)"
    unfolding starts_with_Many_iff by (cases u) auto
next
  assume "starts_with (as, e) (t # text) \<or> (t \<in> chars c \<and> starts_with (Many c # as, e) text)"
  then show "starts_with (Many c # as, e) (t # text)"
  proof
    assume "starts_with (as, e) (t # text)"
    then show ?thesis unfolding starts_with_Many_iff by (intro exI[of _ "[]"] exI[of _ "t # text"]) simp
  next
    assume h: "t \<in> chars c \<and> starts_with (Many c # as, e) text"
    then obtain u v where "text = u @ v" "set u \<subseteq> chars c" "starts_with (as, e) v"
      unfolding starts_with_Many_iff by blast
    then show ?thesis using h unfolding starts_with_Many_iff by (intro exI[of _ "t # u"] exI[of _ v]) simp
  qed
qed

lemma starts_with_Many:
  "starts_with (Many c # as, e) [] \<longleftrightarrow> starts_with (as, e) []"
  "starts_with (Many c # as, e) (t # text) \<longleftrightarrow>
     starts_with (as, e) (t # text) \<or> ((t = c \<or> c = DOT) \<and> starts_with (Many c # as, e) text)"
  by (simp add: starts_with_Many_iff) (auto simp: starts_with_Many_chars chars_def)

lemma matchhere_matchstar:
  "matchhere re text \<longleftrightarrow> starts_with (atoms re) text"
  "matchstar c re text \<longleftrightarrow> starts_with (Many c # fst (atoms re), snd (atoms re)) text"
proof (induction re "text" and c re "text" rule: matchhere_matchstar.induct)
  case (2 r re x)
  then show ?case
    by (auto simp: starts_with_Nil starts_with_One split: prod.splits)
next
  case (3 c re)
  then show ?case by (simp add: starts_with_Many)
next
  case (4 c re t x)
  then show ?case by (simp add: starts_with_Many)
qed (simp add: starts_with_Nil)

lemma match_any_iff: "match_any re text \<longleftrightarrow> (\<exists>pre post. text = pre @ post \<and> matchhere re post)"
  by (induction "text") (auto simp: Cons_eq_append_conv)

text \<open>C29. The matcher decides what patterns mean: a text matches when some part of it is a string of the
  pattern, at the beginning if the pattern starts with the caret and at the end if it ends with the
  dollar sign.\<close>

theorem match_correct:
  "match re text \<longleftrightarrow>
     (let caret = (re \<noteq> [] \<and> hd re = CARET); (as, dollar) = atoms (if caret then tl re else re)
      in \<exists>pre u post. text = pre @ u @ post \<and> u \<in> lang as \<and> (caret \<longrightarrow> pre = []) \<and> (dollar \<longrightarrow> post = []))"
proof -
  have h: "matchhere re' text' \<longleftrightarrow> (\<exists>u post. text' = u @ post \<and> u \<in> lang (fst (atoms re')) \<and> (snd (atoms re') \<longrightarrow> post = []))"
    for re' text'
    unfolding matchhere_matchstar(1) starts_with_def by blast
  show ?thesis
    by (cases "re \<noteq> [] \<and> hd re = CARET") (auto simp: match_def Let_def match_any_iff h split: prod.splits)
qed

theorem match_correct_witness:
  "match [CARET, 97, DOLLAR] [97] \<and> \<not> match [CARET, 97, DOLLAR] [97, 97]"
proof -
  have "lang [One 97] = {[97]}" by (simp add: chars_def DOT_def)
  moreover have "atoms [97, DOLLAR] = ([One 97], True)" by (simp add: DOLLAR_def STAR_def)
  ultimately show ?thesis by (simp add: match_correct del: lang.simps atoms.simps)
qed

subsection \<open>The line loop\<close>

text \<open>
  \<^verbatim>\<open>q = strchr(p, '\n')\<close>: the bytes before the first newline and those after it, when there is one
  before the terminating NUL.
\<close>

definition next_line :: "byte list \<Rightarrow> (byte list \<times> byte list) option" where
  "next_line p =
     (let l = takeWhile (\<lambda>c. c \<noteq> NEWLINE \<and> c \<noteq> 0) p; r = drop (length l) p
      in if r \<noteq> [] \<and> hd r = NEWLINE then Some (l, tl r) else None)"

lemma next_line_shorter: "next_line p = Some (l, p') \<Longrightarrow> length p' < length p"
proof -
  assume "next_line p = Some (l, p')"
  then have "p' = tl (drop (length l) p)" "drop (length l) p \<noteq> []"
    by (auto simp: next_line_def Let_def split: if_splits)
  then have "length p' < length (drop (length l) p)" by (cases "drop (length l) p") auto
  then show ?thesis by simp
qed

text \<open>The inner loop: the lines written, and what is left after the last newline.\<close>

function grep_lines :: "byte list \<Rightarrow> byte list \<Rightarrow> byte list list \<times> byte list" where
  "grep_lines pattern p =
     (case next_line p of
        None \<Rightarrow> ([], p)
      | Some (l, p') \<Rightarrow>
          (case grep_lines pattern p' of
             (out, r) \<Rightarrow> ((if match pattern l then (l @ [NEWLINE]) # out else out), r)))"
  by pat_completeness auto
termination
  by (relation "measure (length \<circ> snd)") (auto dest: next_line_shorter)

declare grep_lines.simps [simp del]

definition GREP_BUF :: nat where "GREP_BUF = 1024"

text \<open>
  \<open>grep\<close> on the results of its reads. \<open>kept\<close> are the first \<open>m\<close> bytes of the buffer; \<^verbatim>\<open>p == buf\<close> when
  the inner loop found no newline.
\<close>

primrec grep :: "byte list \<Rightarrow> byte list \<Rightarrow> byte list list \<Rightarrow> byte list list" where
  "grep pattern kept [] = []"
| "grep pattern kept (chunk # reads) =
     (if chunk = [] then []
      else let buf = kept @ chunk; (out, p) = grep_lines pattern buf
           in out @ grep pattern (if length p = length buf then [] else p) reads)"

text \<open>The complete lines of a text.\<close>

fun lines :: "byte list \<Rightarrow> byte list \<Rightarrow> byte list list" where
  "lines acc [] = []"
| "lines acc (c # cs) = (if c = NEWLINE then acc # lines [] cs else lines (acc @ [c]) cs)"

definition tail_line :: "byte list \<Rightarrow> byte list" where
  "tail_line t = rev (takeWhile (\<lambda>c. c \<noteq> NEWLINE) (rev t))"

text \<open>Reads that fit into the buffer, each of which brings the end of a line, of a text without NULs.\<close>

fun reads_ok :: "byte list \<Rightarrow> byte list list \<Rightarrow> bool" where
  "reads_ok kept [] = True"
| "reads_ok kept (chunk # reads) =
     (length (kept @ chunk) < GREP_BUF \<and> NEWLINE \<in> set chunk \<and> 0 \<notin> set chunk \<and>
      reads_ok (tail_line (kept @ chunk)) reads)"

lemma lines_prefix: "NEWLINE \<notin> set l \<Longrightarrow> lines acc (l @ cs) = lines (acc @ l) cs"
  by (induction l arbitrary: acc) auto

lemma lines_no_newline: "NEWLINE \<notin> set l \<Longrightarrow> lines acc l = []"
  using lines_prefix[of l acc "[]"] by simp

lemma next_line_None: "0 \<notin> set p \<Longrightarrow> next_line p = None \<longleftrightarrow> NEWLINE \<notin> set p"
  by (induction p) (auto simp: next_line_def Let_def split: if_splits)

lemma next_line_Some:
  assumes "0 \<notin> set p" "next_line p = Some (l, p')"
  shows "p = l @ NEWLINE # p'" "NEWLINE \<notin> set l"
proof -
  let ?P = "\<lambda>c. c \<noteq> NEWLINE \<and> c \<noteq> 0"
  have l: "l = takeWhile ?P p" "drop (length l) p \<noteq> []" "hd (drop (length l) p) = NEWLINE" "p' = tl (drop (length l) p)"
    using assms(2) by (auto simp: next_line_def Let_def split: if_splits)
  then have "drop (length l) p = NEWLINE # p'" by (cases "drop (length l) p") auto
  moreover have "p = l @ drop (length l) p" using l(1) by (metis dropWhile_eq_drop takeWhile_dropWhile_id)
  ultimately show "p = l @ NEWLINE # p'" by simp
  show "NEWLINE \<notin> set l" using l(1) by (auto dest: set_takeWhileD)
qed

lemma tail_line_append: "NEWLINE \<in> set t \<Longrightarrow> tail_line (s @ t) = tail_line t"
  by (simp add: tail_line_def takeWhile_append1[of NEWLINE])

lemma tail_line_no:
  assumes "NEWLINE \<notin> set t"
  shows "tail_line t = t"
proof -
  have "takeWhile (\<lambda>c. c \<noteq> NEWLINE) (rev t) = rev t" using assms by (auto simp: takeWhile_eq_all_conv)
  then show ?thesis unfolding tail_line_def by (simp only: rev_rev_ident)
qed

lemma grep_lines_spec:
  "0 \<notin> set p \<Longrightarrow> grep_lines pattern p =
     (map (\<lambda>l. l @ [NEWLINE]) (filter (match pattern) (lines [] p)), tail_line p)"
proof (induction pattern p rule: grep_lines.induct)
  case (1 pattern p)
  show ?case
  proof (cases "next_line p")
    case None
    then have "NEWLINE \<notin> set p" using 1(2) next_line_None by blast
    then show ?thesis using None by (simp add: grep_lines.simps[of _ p] lines_no_newline tail_line_no)
  next
    case (Some x)
    then obtain l p' where x: "next_line p = Some (l, p')" by (cases x) auto
    note p = next_line_Some[OF 1(2) x]
    have IH: "grep_lines pattern p' = (map (\<lambda>l. l @ [NEWLINE]) (filter (match pattern) (lines [] p')), tail_line p')"
      using 1(1)[OF x refl] 1(2) p(1) by auto
    have t: "tail_line p = tail_line p'"
    proof (cases "NEWLINE \<in> set p'")
      case True
      then show ?thesis using tail_line_append[of p' "l @ [NEWLINE]"] p(1) by simp
    next
      case False
      then have "tail_line p = tail_line p'" unfolding p(1) tail_line_def by (simp add: takeWhile_tail)
      then show ?thesis .
    qed
    have "lines [] p = l # lines [] p'" unfolding p(1) using lines_prefix[OF p(2), of "[]"] by simp
    then show ?thesis using x IH t by (simp add: grep_lines.simps[of _ p])
  qed
qed

lemma tail_line_set: "set (tail_line t) \<subseteq> set t"
  by (auto simp: tail_line_def dest: set_takeWhileD)

lemma tail_line_shorter:
  assumes "NEWLINE \<in> set t"
  shows "length (tail_line t) \<noteq> length t"
proof
  assume "length (tail_line t) = length t"
  then have "takeWhile (\<lambda>c. c \<noteq> NEWLINE) (rev t) = rev t"
    by (metis length_rev length_takeWhile_le nat_less_le tail_line_def takeWhile_eq_take take_all)
  then show False using assms by (metis set_rev set_takeWhileD)
qed

lemma tail_line_Cons:
  "tail_line (c # xs) = (if NEWLINE \<in> set xs then tail_line xs else if c = NEWLINE then xs else c # xs)"
proof (cases "NEWLINE \<in> set xs")
  case True
  then show ?thesis using tail_line_append[of xs "[c]"] by simp
next
  case False
  moreover have "tail_line (NEWLINE # xs) = tail_line xs" by (simp add: tail_line_def takeWhile_tail)
  ultimately show ?thesis using tail_line_no[of "c # xs"] tail_line_no[of xs] by auto
qed

lemma lines_append_acc:
  "lines acc (xs @ ys) = lines acc xs @ lines (if NEWLINE \<in> set xs then tail_line xs else acc @ xs) ys"
  by (induction xs arbitrary: acc) (auto simp: tail_line_Cons)

lemma lines_append: "NEWLINE \<in> set xs \<Longrightarrow> lines [] (xs @ ys) = lines [] xs @ lines [] (tail_line xs @ ys)"
proof -
  have "NEWLINE \<notin> set (tail_line xs)" by (auto simp: tail_line_def dest: set_takeWhileD)
  then show "NEWLINE \<in> set xs \<Longrightarrow> ?thesis" using lines_append_acc[of "[]" xs ys] by (simp add: lines_prefix)
qed

lemma grep_spec:
  "reads_ok kept reads \<Longrightarrow> 0 \<notin> set kept \<Longrightarrow> NEWLINE \<notin> set kept \<Longrightarrow> grep pattern kept reads =
     map (\<lambda>l. l @ [NEWLINE]) (filter (match pattern) (lines [] (kept @ concat reads)))"
proof (induction reads arbitrary: kept)
  case Nil
  then show ?case by (simp add: lines_no_newline)
next
  case (Cons chunk reads)
  let ?b = "kept @ chunk"
  have b: "NEWLINE \<in> set ?b" "0 \<notin> set ?b" "chunk \<noteq> []" using Cons.prems by auto
  have "NEWLINE \<notin> set (tail_line ?b)" by (auto simp: tail_line_def dest: set_takeWhileD)
  moreover have "0 \<notin> set (tail_line ?b)" using tail_line_set[of ?b] b(2) by blast
  ultimately have "grep pattern (tail_line ?b) reads =
      map (\<lambda>l. l @ [NEWLINE]) (filter (match pattern) (lines [] (tail_line ?b @ concat reads)))"
    using Cons.prems by (intro Cons.IH) simp_all
  moreover have "lines [] (?b @ concat reads) = lines [] ?b @ lines [] (tail_line ?b @ concat reads)"
    by (rule lines_append[OF b(1)])
  ultimately show ?case
    using b tail_line_shorter[OF b(1)] by (simp add: grep_lines_spec[OF b(2)] Let_def)
qed

text \<open>C30. When every read brings the end of a line, \<open>grep\<close> writes exactly the matching lines of its input,
  in order, however the reads cut the input up.\<close>

theorem grep_correct:
  assumes "reads_ok [] reads"
  shows "grep pattern [] reads = map (\<lambda>l. l @ [NEWLINE]) (filter (match pattern) (lines [] (concat reads)))"
  using grep_spec[OF assms] by simp

theorem grep_correct_witness:
  "grep [98, STAR, 99] [] [[97, 10, 98], [98, 99, 10, 100], [10]] = [[98, 98, 99, 10]]"
proof -
  have "reads_ok [] [[97, 10, 98], [98, 99, 10, 100], [10]]"
    by (simp add: NEWLINE_def GREP_BUF_def tail_line_def)
  from grep_correct[OF this, of "[98, STAR, 99]"] show ?thesis
    by (simp add: NEWLINE_def match_def CARET_def STAR_def DOT_def DOLLAR_def)
qed

text \<open>C31. A read that ends inside a line whose beginning fills the buffer, or that a pipe or the console
  cut short before any newline, is thrown away: the rest of the line is then matched and printed
  as if it were the whole line.\<close>

theorem grep_drops_partial_line:
  assumes "a \<noteq> []" "NEWLINE \<notin> set a" "0 \<notin> set a" "NEWLINE \<notin> set b" "0 \<notin> set b"
  shows "grep pattern [] [a, b @ [NEWLINE]] = (if match pattern b then [b @ [NEWLINE]] else [])"
proof -
  have "grep_lines pattern a = ([], a)"
    using assms(2,3) by (simp add: grep_lines_spec lines_no_newline tail_line_no)
  moreover have "lines [] (b @ [NEWLINE]) = [b]" using assms(4) by (simp add: lines_prefix)
  moreover have "0 \<notin> set (b @ [NEWLINE])" using assms(5) by (simp add: NEWLINE_def)
  ultimately show ?thesis
    using assms(1) by (simp add: grep_lines_spec Let_def)
qed

theorem grep_drops_partial_line_witness:
  "grep [97] [] [[97, 98], [99, 10]] = []"
  using grep_drops_partial_line[of "[97, 98]" "[99]" "[97]"]
  by (simp add: NEWLINE_def match_def CARET_def STAR_def DOT_def DOLLAR_def)

end
