(* ===== verification/Users_Spec.thy ===== *)
theory Users_Spec
  imports Syscall Pipe_Spec Vm_Spec
begin

text \<open>
  Who can become root. The identity calls of \<^verbatim>\<open>sysproc.c\<close> are put together as steps that any process
  can take in any order; the only ways to privilege are the password of a privileged account
  and membership in the sudoers. Deleting an account, however, leaves its membership behind.
\<close>

subsection \<open>Fetching arguments changes nothing\<close>

lemma keeps_myproc [keeps_intros]: "keeps g myproc"
  by (auto simp: keeps_def myproc_def split: option.splits)

lemma keeps_user_byte [keeps_intros]: "keeps g (user_byte va)"
  by (auto simp: keeps_def user_byte_def split: option.splits)

lemma keeps_user_load [keeps_intros]: "keeps g (user_load va n)"
  unfolding user_load_def by (intro keeps_intros)

lemma keeps_fetchint [keeps_intros]: "keeps g (fetchint a)"
  unfolding fetchint_def by (intro keeps_intros)

lemma keeps_fetchstr_loop [keeps_intros]: "keeps g (fetchstr_loop a n)"
  by (induction n arbitrary: a) (auto intro!: keeps_intros)

lemma keeps_fetchstr [keeps_intros]: "keeps g (fetchstr a)"
  unfolding fetchstr_def by (intro keeps_intros)

lemma keeps_argint [keeps_intros]: "keeps g (argint n)"
  unfolding argint_def by (intro keeps_intros)

lemma keeps_argstr [keeps_intros]: "keeps g (argstr n)"
  unfolding argstr_def by (intro keeps_intros)

lemma keeps_state: "keeps (\<lambda>s. s) f \<Longrightarrow> f s = Inr (x, s') \<Longrightarrow> s' = s"
  by (drule keepsD)

subsection \<open>The identity calls as steps\<close>

datatype id_call = SetUid | Login | SetSuid | AddSudoer | RemoveSudoer

primrec run_id :: "id_call \<Rightarrow> ('a sys_scheme, int) kernel" where
  "run_id SetUid = sys_setuid"
| "run_id Login = sys_login"
| "run_id SetSuid = sys_setsuid"
| "run_id AddSudoer = sys_addsudoer"
| "run_id RemoveSudoer = sys_removesudoer"

text \<open>The record of process \<open>p\<close> may change only in its uid and gid.\<close>

definition id_of :: "'a ptable_scheme \<Rightarrow> nat \<Rightarrow> int" where
  "id_of s p = p_uid (procs s ! p)"

definition privileged :: "usertable \<Rightarrow> int \<Rightarrow> bool" where
  "privileged t uid \<longleftrightarrow> uid = 0 \<or> users_can_sudo uid t \<noteq> 0"

text \<open>What a call of process \<open>p\<close> can do to identities and to the user table.\<close>

definition id_effect :: "nat \<Rightarrow> 'a sys_scheme \<Rightarrow> 'a sys_scheme \<Rightarrow> bool" where
  "id_effect p s s' \<longleftrightarrow> length (procs s') = length (procs s) \<and>
     (\<forall>q. q \<noteq> p \<longrightarrow> q < length (procs s) \<longrightarrow> id_of s' q = id_of s q) \<and>
     (id_of s' p = id_of s p \<or> id_of s p = 0 \<or>
      (id_of s' p = 0 \<and> users_can_sudo (id_of s p) (ut s) \<noteq> 0) \<or>
      (\<exists>name password. users_checkpassword name password (ut s) = id_of s' p \<and> 0 \<le> id_of s' p)) \<and>
     (ut s' = ut s \<or> id_of s p = 0)"

lemma id_effect_refl [simp]: "id_effect p s s"
  by (simp add: id_effect_def)

lemma orfail_InrE:
  assumes "orfail f g s = Inr (r, s')" "keeps (\<lambda>s. s) f"
  obtains "s' = s" | x where "g x s = Inr (r, s')"
  using assms by (auto simp: orfail_def bnd_def run_simps split: sum.splits prod.splits option.splits dest!: keeps_state)

lemma id_of_upd [simp]:
  "q \<noteq> p \<Longrightarrow> id_of (proc_upd p f s) q = id_of s q" "length (procs (proc_upd p f s)) = length (procs s)"
  "ut (proc_upd p f s') = ut s'"
  by (simp_all add: id_of_def proc_upd_def)

lemma run_id_effect:
  assumes "run_id c s = Inr (r, s')" "cur_proc s = Some p" "p < length (procs s)"
  shows "id_effect p s s'"
proof (cases c)
  case SetUid
  with assms(1) have "sys_setuid s = Inr (r, s')" by simp
  then show ?thesis unfolding sys_setuid_def
    using assms(2,3) by (elim orfail_InrE) (auto intro: keeps_intros simp: bnd_def run_simps myproc_def id_effect_def set_uid_def id_of_def proc_upd_def split: if_splits)
next
  case Login
  with assms(1) have "sys_login s = Inr (r, s')" by simp
  then show ?thesis unfolding sys_login_def
    using assms(2,3)
    by (elim orfail_InrE) (auto intro: keeps_intros simp: bnd_def run_simps myproc_def id_effect_def id_of_def proc_upd_def
        split: if_splits; blast)+
next
  case SetSuid
  with assms(1,2) have "orfail (argint 0) (\<lambda>uid. bnd (fetch (\<lambda>s. (p_uid (procs s ! p), ut s))) (\<lambda>(cur, t).
     if users_can_sudo cur t = 0 then ret (-1) else if uid \<noteq> 0 \<and> uid \<noteq> cur then ret (-1)
     else bnd (modify (set_uid p uid)) (\<lambda>_. ret 0))) s = Inr (r, s')"
    by (simp add: sys_setsuid_def bnd_def myproc_def)
  then show ?thesis
    using assms(2,3)
    by (elim orfail_InrE) (auto intro: keeps_intros simp: bnd_def run_simps id_effect_def set_uid_def id_of_def proc_upd_def split: if_splits)
next
  case AddSudoer
  with assms(1,2) show ?thesis
    by (auto simp: sys_addsudoer_def sys_getuid_def with_users_def bnd_def run_simps myproc_def id_effect_def id_of_def
        split: if_splits prod.splits elim!: orfail_InrE intro: keeps_intros)
next
  case RemoveSudoer
  with assms(1,2) show ?thesis
    by (auto simp: sys_removesudoer_def sys_getuid_def with_users_def bnd_def run_simps myproc_def id_effect_def id_of_def
        split: if_splits prod.splits elim!: orfail_InrE intro: keeps_intros)
qed

text \<open>Any process of the table runs any identity call. The logins are restricted to accounts in \<open>A\<close>, the
  accounts whose passwords the processes know.\<close>

inductive id_step :: "int set \<Rightarrow> 'a sys_scheme \<Rightarrow> 'a sys_scheme \<Rightarrow> bool" for A where
  call: "p < length (procs s) \<Longrightarrow> run_id c (s\<lparr>cur_proc := Some p\<rparr>) = Inr (r, s') \<Longrightarrow>
    c = Login \<longrightarrow> id_of s' p \<noteq> id_of s p \<longrightarrow> id_of s' p \<in> A \<Longrightarrow> id_step A s s'"

definition unprivileged :: "'a sys_scheme \<Rightarrow> bool" where
  "unprivileged s \<longleftrightarrow> (\<forall>p < length (procs s). \<not> privileged (ut s) (id_of s p))"

lemma run_id_login_only:
  assumes "run_id c s = Inr (r, s')" "cur_proc s = Some p" "p < length (procs s)" "\<not> privileged (ut s) (id_of s p)"
    "c \<noteq> Login"
  shows "id_of s' p = id_of s p"
  using assms
  by (cases c)
    (auto simp: sys_setuid_def sys_setsuid_def sys_addsudoer_def sys_removesudoer_def sys_getuid_def with_users_def
      bnd_def run_simps myproc_def id_of_def set_uid_def proc_upd_def privileged_def
      split: if_splits prod.splits elim!: orfail_InrE intro: keeps_intros)

lemma unprivileged_step:
  assumes "id_step A s s'" "unprivileged s" "\<And>uid. uid \<in> A \<Longrightarrow> \<not> privileged (ut s) uid"
  shows "unprivileged s' \<and> ut s' = ut s"
  using assms(1)
proof cases
  case (call p c r)
  let ?s = "s\<lparr>cur_proc := Some p\<rparr>"
  have same: "id_of ?s = id_of s" "ut ?s = ut s" "procs ?s = procs s" by (auto simp: id_of_def fun_eq_iff)
  have np: "\<not> privileged (ut s) (id_of s p)" using assms(2) call(1) by (simp add: unprivileged_def)
  from run_id_effect[OF call(2)] call(1) have e: "id_effect p ?s s'" by simp
  have "ut s' = ut s" using e np by (simp add: id_effect_def same privileged_def)
  moreover have "\<not> privileged (ut s) (id_of s' p)"
  proof (cases "c = Login")
    case True
    then show ?thesis using call(3) assms(3) np by (cases "id_of s' p = id_of s p") auto
  next
    case False
    then show ?thesis using run_id_login_only[OF call(2)] call(1) np by (simp add: same)
  qed
  moreover have "length (procs s') = length (procs s)" "\<And>q. q \<noteq> p \<Longrightarrow> q < length (procs s) \<Longrightarrow> id_of s' q = id_of s q"
    using e by (simp_all add: id_effect_def same)
  ultimately show ?thesis using assms(2) unfolding unprivileged_def by metis
qed

text \<open>C34. No process gains privilege out of thin air: from a state in which no process is root or a sudoer,
  no sequence of identity calls, by any processes in any order, makes one so or changes the user table,
  unless somebody logs in to a privileged account with its password.\<close>

theorem no_privilege_escalation:
  assumes "(id_step A)\<^sup>*\<^sup>* s s'" "unprivileged s" "\<And>uid. uid \<in> A \<Longrightarrow> \<not> privileged (ut s) uid"
  shows "unprivileged s' \<and> ut s' = ut s"
  using assms(1)
proof (induction rule: rtranclp_induct)
  case base
  then show ?case using assms(2) by simp
next
  case (step t u)
  then show ?case using unprivileged_step[of A t u] assms(3) by simp
qed


subsection \<open>Deleting an account\<close>

text \<open>C36. Deleting an account clears its slot but not the slot's place among the sudoers: the next account
  created there may use \<open>sudo\<close> although nobody ever allowed it to.\<close>

theorem deleted_sudoer_inherited:
  assumes "find_idx (user_named n) (ut_users t) = Some i" "u_uid (ut_users t ! i) \<noteq> 0" "sudoers t ! i \<noteq> 0"
    and "\<And>j. j < i \<Longrightarrow> u_active (ut_users t ! j)" "\<And>j. j < i \<Longrightarrow> u_uid (ut_users t ! j) \<noteq> uid"
  shows "users_can_sudo uid (snd (users_add n' pw uid gid (snd (users_delete n t)))) \<noteq> 0"
proof -
  let ?us = "ut_users t"
  have i: "i < length ?us" using assms(1) by (rule find_idx_Some_less)
  let ?vs = "?us[i := (?us ! i)\<lparr>u_active := False\<rparr>]"
  have f: "find_idx (\<lambda>u. \<not> u_active u) ?vs = Some i"
    using assms(4) i by (auto simp: find_idx_Some_iff)
  let ?ws = "?vs[i := set_user uid gid n' pw (?vs ! i)]"
  have "find_idx (user_with_uid uid) ?ws = Some i"
    using assms(5) i by (auto simp: find_idx_Some_iff user_with_uid_def set_user_def)
  then show ?thesis
    using assms(1-3) f by (simp add: users_delete_def users_add_def users_can_sudo_def)
qed

subsection \<open>A running system\<close>

text \<open>
  The users \<open>users_init\<close> creates, and a process with uid \<open>uid\<close> whose first page is mapped and zero, so that
  every integer argument it passes is 0.
\<close>

definition users_example :: usertable where
  "users_example = users_init \<lparr>ut_users = replicate NUSER \<lparr>u_uid = 0, u_gid = 0, u_username = replicate 16 0,
     u_password = replicate 32 0, u_active = False\<rparr>, sudoers = replicate NUSER 0\<rparr>"

definition sys_example :: "int \<Rightarrow> sys" where
  "sys_example uid =
     (vm.extend (files.extend (pipes.extend (pipes_example pipe_example
         [runner\<lparr>p_uid := uid, p_sz := 4096, p_tf := 0x80400000\<rparr>]) \<lparr>ftable = []\<rparr>)
       \<lparr>kpgdir = 0x80700000, cr3 = 0x80300000, ts_esp0 = 0, data_sym = 0x80108000\<rparr>)
       \<lparr>ut = users_example, ticks = 0\<rparr>)
     \<lparr>mem := (\<lambda>_. 0)(0x80300000 := 7, 0x80300002 := 0x50, 0x80500000 := 7, 0x80500002 := 0x60)\<rparr>"

lemma sys_example_sel [simp]:
  "procs (sys_example uid) = [runner\<lparr>p_uid := uid, p_sz := 4096, p_tf := 0x80400000\<rparr>]" "cur_proc (sys_example uid) = Some 0"
  "ut (sys_example uid) = users_example" "cr3 (sys_example uid) = 0x80300000"
  "mem (sys_example uid) = (\<lambda>_. 0)(0x80300000 := 7, 0x80300002 := 0x50, 0x80500000 := 7, 0x80500002 := 0x60)"
  by (simp_all add: sys_example_def vm.extend_def files.extend_def pipes.extend_def pipes_example_def fs.extend_def)

lemma users_example_accounts:
  "find_idx (user_with_uid 1000) (ut_users users_example) = Some 1" "users_can_sudo 1000 users_example = 1"
  "find_idx (user_with_uid 2000) (ut_users users_example) = None" "users_can_sudo 2000 users_example = 0"
  by (simp_all add: users_can_sudo_def find_idx_Some_iff find_idx_None_iff users_example_def users_init_def Let_def sudoers_init_def
      NUSER_def user_with_uid_def set_user_def eval_nat_numeral)

lemma sys_example_page:
  assumes "va < 16"
  shows "va_ka (mem (sys_example uid)) 0x80300000 va = Some (0x80600000 + va)"
proof -
  let ?m = "mem (sys_example uid)"
  have v: "unat va < 16" using assms by (simp add: word_less_nat_alt)
  have "PDX va = 0" "PTX va = 0" using v by (simp_all add: word_unat_eq_iff unat_PDX unat_PTX)
  moreover have "va AND 0xFFF = va"
  proof -
    have "va mod 4096 = va" using v by (simp add: word_unat_eq_iff unat_mod)
    then show ?thesis using take_bit_eq_mod[of 12 va] by (simp add: take_bit_eq_mask mask_eq_exp_minus_1)
  qed
  moreover have "ld32 ?m 0x80300000 = 0x500007" "ld32 ?m 0x80500000 = 0x600007"
    by (simp_all add: ld32_def join32_def)
  ultimately show ?thesis
    by (simp add: va_ka_def present_def PTE_P_def PTE_ADDR_def P2V_def KERNBASE_def)
qed

lemma sys_example_byte: "va < 16 \<Longrightarrow> user_byte va (sys_example uid) = Inr (0, sys_example uid)"
proof -
  assume v: "va < 16"
  then have "unat (0x80600000 + va) = 0x80600000 + unat va" by (simp add: unat_word_ariths word_less_nat_alt)
  then have "mem (sys_example uid) (0x80600000 + va) = 0" by (auto simp: word_unat_eq_iff)
  then show ?thesis using sys_example_page[OF v] by (simp add: user_byte_def)
qed

lemma sys_example_argint: "argint 0 (sys_example uid) = Inr (Some 0, sys_example uid)"
proof -
  have "ld32 (mem (sys_example uid)) (0x80400000 + TF_ESP) = 0"
    by (simp add: ld32_def join32_def TF_ESP_def)
  moreover have "user_load 4 4 (sys_example uid) = Inr ([0, 0, 0, 0], sys_example uid)"
  proof -
    have "user_byte 4 (sys_example uid) = Inr (0, sys_example uid)" "user_byte 5 (sys_example uid) = Inr (0, sys_example uid)"
      "user_byte 6 (sys_example uid) = Inr (0, sys_example uid)" "user_byte 7 (sys_example uid) = Inr (0, sys_example uid)"
      by (rule sys_example_byte, simp)+
    then show ?thesis by (simp add: user_load_def user_addrs_def eval_nat_numeral bnd_def run_simps)
  qed
  ultimately show ?thesis
    by (simp add: argint_def fetchint_def bnd_def run_simps myproc_def bytes_word_def join32_def)
qed


theorem no_privilege_escalation_witness:
  "id_step {} (sys_example 2000) (sys_example 2000) \<and> unprivileged (sys_example 2000)"
proof -
  let ?s = "sys_example 2000"
  have cur: "?s\<lparr>cur_proc := Some 0\<rparr> = ?s" by (simp add: sys_example_def vm.extend_def files.extend_def pipes.extend_def pipes_example_def fs.extend_def)
  have u: "unprivileged ?s" by (simp add: unprivileged_def privileged_def id_of_def users_example_accounts)
  have "run_id AddSudoer ?s = Inr (-1, ?s)"
    by (simp add: sys_addsudoer_def sys_getuid_def bnd_def run_simps myproc_def)
  then have "id_step {} ?s ?s" using id_step.call[of 0 ?s AddSudoer "-1" ?s "{}"] cur by simp
  moreover from this have "(id_step {})\<^sup>*\<^sup>* ?s ?s" by (rule r_into_rtranclp)
  then have "unprivileged ?s" using no_privilege_escalation[of "{}" ?s ?s] u by simp
  ultimately show ?thesis by simp
qed

theorem deleted_sudoer_inherited_witness:
  "users_can_sudo 2000 (snd (users_add (cbytes ''eve'') (cbytes ''x'') 2000 2000
     (snd (users_delete (cbytes ''user'') users_example)))) \<noteq> 0"
proof (rule deleted_sudoer_inherited[where i = 1])
  have us: "ut_users users_example ! 0 = set_user 0 0 (cbytes ''root'') (cbytes ''toor'') \<lparr>u_uid = 0, u_gid = 0, u_username = replicate 16 0, u_password = replicate 32 0, u_active = False\<rparr>"
    "ut_users users_example ! 1 = set_user 1000 1000 (cbytes ''user'') (cbytes ''user'') \<lparr>u_uid = 0, u_gid = 0, u_username = replicate 16 0, u_password = replicate 32 0, u_active = False\<rparr>"
    "length (ut_users users_example) = 10"
    by (simp_all add: users_example_def users_init_def Let_def sudoers_init_def NUSER_def eval_nat_numeral)
  have n: "strncmp (safestrcpy (replicate 16 0) (cbytes ''root'') 16) (cbytes ''user'') 16 \<noteq> 0"
    "strncmp (safestrcpy (replicate 16 0) (cbytes ''user'') 16) (cbytes ''user'') 16 = 0"
    by (simp_all add: strncmp_zero_iff cstr_safestrcpy cbytes_def)
  show "find_idx (user_named (cbytes ''user'')) (ut_users users_example) = Some 1"
    using us n by (simp add: find_idx_Some_iff user_named_def set_user_def)
  show "u_uid (ut_users users_example ! 1) \<noteq> 0" using us by (simp add: set_user_def)
  show "sudoers users_example ! 1 \<noteq> 0" by (simp add: users_example_def users_init_def Let_def sudoers_init_def NUSER_def)
  show "u_active (ut_users users_example ! j)" "u_uid (ut_users users_example ! j) \<noteq> 2000" if "j < 1" for j
    using us that by (simp_all add: set_user_def)
qed

end
