(* ===== verification/Fs_Data.thy ===== *)
theory Fs_Data
  imports Fs_Spec
begin

text \<open>
  The contents of files. A file is the sequence of bytes its direct and indirect blocks hold;
  reading returns a stretch of it and writing inside it replaces one, however the request is cut into
  blocks.
\<close>

subsection \<open>Cutting a request into blocks\<close>

lemma BSIZE_pos: "0 < BSIZE"
  by (simp add: BSIZE_def)

lemma chunks_concat:
  "concat (map (\<lambda>(blk, bo, m). map (\<lambda>k. F (blk * BSIZE + k)) [bo..<bo + m]) (chunks off n)) = map F [off..<off + n]"
proof (induction off n rule: chunks.induct)
  case (1 off n)
  show ?case
  proof (cases "n = 0")
    case True
    then show ?thesis by (simp add: chunks.simps)
  next
    case False
    let ?m = "min n (BSIZE - off mod BSIZE)"
    have m: "?m \<le> n" by simp
    have "map (\<lambda>k. F (off div BSIZE * BSIZE + k)) [off mod BSIZE..<off mod BSIZE + ?m] = map F [off..<off + ?m]"
      by (rule nth_equalityI) (simp_all add: add.assoc[symmetric] add.commute)
    moreover have "[off..<off + n] = [off..<off + ?m] @ [off + ?m..<off + ?m + (n - ?m)]"
      using m upt_add_eq_append[of off "off + ?m" "n - ?m"] by (simp only: le_add1 add.assoc le_add_diff_inverse)
    ultimately show ?thesis using 1[OF False refl] False by (subst chunks.simps) (simp add: Let_def)
  qed
qed

lemma chunks_bounds:
  "(blk, bo, m) \<in> set (chunks off n) \<Longrightarrow> bo + m \<le> BSIZE \<and> 0 < m \<and> off \<le> blk * BSIZE + bo \<and> blk * BSIZE + bo + m \<le> off + n"
proof (induction off n rule: chunks.induct)
  case (1 off n)
  let ?m = "min n (BSIZE - off mod BSIZE)"
  have n: "n \<noteq> 0" using 1(2) by (subst (asm) chunks.simps) (auto split: if_splits)
  have b: "off mod BSIZE < BSIZE" using BSIZE_pos by simp
  have "(blk, bo, m) = (off div BSIZE, off mod BSIZE, ?m) \<or> (blk, bo, m) \<in> set (chunks (off + ?m) (n - ?m))"
    using 1(2) n by (subst (asm) chunks.simps) (auto simp: Let_def)
  then show ?case
  proof
    assume "(blk, bo, m) = (off div BSIZE, off mod BSIZE, ?m)"
    then show ?thesis using n b by (auto simp: div_mult_mod_eq)
  next
    assume "(blk, bo, m) \<in> set (chunks (off + ?m) (n - ?m))"
    from 1(1)[OF n refl this] show ?thesis by auto
  qed
qed

subsection \<open>The bytes of a file\<close>

text \<open>The disk block that holds block \<open>b\<close> of a file.\<close>

definition file_block :: "(uint \<Rightarrow> block) \<Rightarrow> inode \<Rightarrow> nat \<Rightarrow> uint" where
  "file_block v ip b =
     (if b < NDIRECT then i_addrs ip ! b else bld32 (v (i_addrs ip ! NDIRECT)) (4 * (b - NDIRECT)))"

definition file_byte :: "(uint \<Rightarrow> block) \<Rightarrow> inode \<Rightarrow> nat \<Rightarrow> byte" where
  "file_byte v ip k = v (file_block v ip (k div BSIZE)) (k mod BSIZE)"

text \<open>The first \<open>n\<close> bytes of the file have blocks, and these are on the disk.\<close>

definition file_ok :: "uint \<Rightarrow> (uint \<Rightarrow> block) \<Rightarrow> inode \<Rightarrow> nat \<Rightarrow> bool" where
  "file_ok dsize v ip n \<longleftrightarrow> i_dev ip = 1 \<and> n \<le> MAXFILE * BSIZE \<and>
     (NDIRECT * BSIZE < n \<longrightarrow> i_addrs ip ! NDIRECT \<noteq> 0 \<and> i_addrs ip ! NDIRECT < dsize) \<and>
     (\<forall>b. b * BSIZE < n \<longrightarrow> file_block v ip b \<noteq> 0 \<and> file_block v ip b < dsize)"

lemma inodes_lframe: "lframe s s' \<Longrightarrow> inodes s' = inodes s"
  by (erule lframeE) simp

lemma bmap_mapped:
  assumes "op A s v L" "card L < 3" "file_ok (disksize s) v (inodes s ! i) n" "b * BSIZE < n" "i_addrs (inodes s ! i) ! NDIRECT \<notin> L"
  shows "wp (bmap i b) (\<lambda>r s'. r = file_block v (inodes s ! i) b \<and> lframe s s' \<and> op A s' v L \<and>
    (\<forall>j y. held s j y \<longrightarrow> held s' j y)) s"
proof -
  let ?ip = "inodes s ! i"
  have fb: "file_block v ?ip b \<noteq> 0" using assms(3,4) by (simp add: file_ok_def)
  show ?thesis
  proof (cases "b < NDIRECT")
    case True
    then show ?thesis using assms(1) fb unfolding bmap_def wp_bnd_fetch by (simp add: wp_simps file_block_def)
  next
    case False
    let ?ind = "i_addrs ?ip ! NDIRECT"
    have "NDIRECT * BSIZE < n" using False mult_le_mono1[of NDIRECT b BSIZE] assms(4) by linarith
    then have ind: "?ind \<noteq> 0" "on_disk s ?ind" "i_dev ?ip = 1" using assms(3,4) by (auto simp: file_ok_def)
    have "b * BSIZE < MAXFILE * BSIZE" using assms(3,4) unfolding file_ok_def by linarith
    then have rng: "b - NDIRECT < NINDIRECT" using False by (simp add: MAXFILE_def BSIZE_pos)
    have "wp (bnd (bread 1 ?ind) (\<lambda>bp. bnd (fetch (\<lambda>s. bld32 (b_data (bufs s ! bp)) (4 * (b - NDIRECT)))) (\<lambda>addr.
        bnd (if addr = 0 then x bp else ret addr) (\<lambda>addr. bnd (brelse bp) (\<lambda>_. ret addr)))))
      (\<lambda>r s'. r = file_block v ?ip b \<and> lframe s s' \<and> op A s' v L \<and> (\<forall>j y. held s j y \<longrightarrow> held s' j y)) s" for x
    proof (rule wp_bndI[OF op_bread[OF assms(1) ind(2) assms(5,2)]], elim conjE)
      fix bp t assume t: "lframe s t" "op A t v (insert ?ind L)" "held t bp ?ind" "\<forall>j x. held s j x \<longrightarrow> held t j x \<and> j \<noteq> bp"
      have d: "bld32 (b_data (bufs t ! bp)) (4 * (b - NDIRECT)) = file_block v ?ip b"
        using op_held_data[OF t(2,3)] False by (simp add: file_block_def)
      have L: "insert ?ind L - {?ind} = L" using assms(5) by simp
      show "wp (bnd (fetch (\<lambda>s. bld32 (b_data (bufs s ! bp)) (4 * (b - NDIRECT)))) (\<lambda>addr.
          bnd (if addr = 0 then x bp else ret addr) (\<lambda>addr. bnd (brelse bp) (\<lambda>_. ret addr))))
        (\<lambda>r s'. r = file_block v ?ip b \<and> lframe s s' \<and> op A s' v L \<and> (\<forall>j y. held s j y \<longrightarrow> held s' j y)) t"
        unfolding wp_bnd_fetch d if_not_P[OF fb]
        using op_brelse[OF t(2,3)] lframe_trans[OF t(1)] t(4) unfolding L by (auto simp: wp_simps elim!: wp_mono)
    qed
    then show ?thesis
      using False rng ind unfolding bmap_def wp_bnd_fetch by (simp add: wp_simps)
  qed
qed

subsection \<open>Reading\<close>

lemma file_ok_lframe: "lframe s s' \<Longrightarrow> disksize s' = disksize s"
  by (rule lframe_sel(8))

lemma read_chunk_rule:
  assumes "op A s v {}" "file_ok (disksize s) v (inodes s ! i) n" "bo + m \<le> BSIZE" "0 < m" "blk * BSIZE + bo + m \<le> n"
  shows "wp (read_chunk i (blk, bo, m)) (\<lambda>r s'. r = map (\<lambda>k. file_byte v (inodes s ! i) (blk * BSIZE + k)) [bo..<bo + m] \<and>
    lframe s s' \<and> op A s' v {}) s"
proof -
  let ?ip = "inodes s ! i" and ?a = "file_block v (inodes s ! i) blk"
  have b: "blk * BSIZE < n" using assms(4,5) by linarith
  have bytes: "map (v ?a) [bo..<bo + m] = map (\<lambda>k. file_byte v ?ip (blk * BSIZE + k)) [bo..<bo + m]"
    using assms(3) by (auto simp: file_byte_def)
  have body: "read_chunk i (blk, bo, m) = bnd (bmap i blk) (\<lambda>addr. bnd (fetch (\<lambda>s. i_dev (inodes s ! i))) (\<lambda>dev.
      bnd (bread dev addr) (\<lambda>bp. bnd (fetch (\<lambda>s. (\<lambda>x. map x [bo..<bo + m]) (b_data (bufs s ! bp)))) (\<lambda>bytes.
      bnd (brelse bp) (\<lambda>_. ret bytes)))))"
    by (simp add: read_chunk_def)
  show ?thesis unfolding body
  proof (rule wp_bndI[OF bmap_mapped[OF assms(1) _ assms(2) b]], simp_all, elim conjE)
    fix t assume t: "lframe s t" "op A t v {}"
    have dev: "i_dev (inodes t ! i) = 1" "on_disk t ?a"
      using inodes_lframe[OF t(1)] file_ok_lframe[OF t(1)] assms(2) b by (auto simp: file_ok_def)
    show "wp (bnd (fetch (\<lambda>s. i_dev (inodes s ! i))) (\<lambda>dev. bnd (bread dev ?a) (\<lambda>bp.
        bnd (fetch (\<lambda>s. map (b_data (bufs s ! bp)) [bo..<bo + m])) (\<lambda>bytes. bnd (brelse bp) (\<lambda>_. ret bytes)))))
      (\<lambda>r s'. r = map (\<lambda>k. file_byte v ?ip (blk * BSIZE + k)) [bo..<bo + m] \<and> lframe s s' \<and> op A s' v {}) t"
      unfolding wp_bnd_fetch dev(1)
      using bst.peek[OF t(2) dev(2), where f = "\<lambda>x. map x [bo..<bo + m]"] lframe_trans[OF t(1)]
      by (auto simp: bytes elim!: wp_mono)
  qed
qed

lemma read_chunks_rule:
  assumes "op A s v {}" "file_ok (disksize s) v (inodes s ! i) n"
    and "\<And>blk bo m. (blk, bo, m) \<in> set cs \<Longrightarrow> bo + m \<le> BSIZE \<and> 0 < m \<and> blk * BSIZE + bo + m \<le> n"
  shows "wp (map_each (read_chunk i) cs) (\<lambda>r s'.
    r = map (\<lambda>(blk, bo, m). map (\<lambda>k. file_byte v (inodes s ! i) (blk * BSIZE + k)) [bo..<bo + m]) cs \<and>
    lframe s s' \<and> op A s' v {}) s"
  using assms
proof (induction cs arbitrary: s)
  case Nil
  then show ?case by (simp add: wp_simps)
next
  case (Cons c cs)
  obtain blk bo m where c: "c = (blk, bo, m)" by (cases c)
  have h: "bo + m \<le> BSIZE" "0 < m" "blk * BSIZE + bo + m \<le> n" using Cons.prems(3)[of blk bo m] c by auto
  show ?case unfolding map_each.simps c
  proof (rule wp_bndI[OF read_chunk_rule[OF Cons.prems(1,2) h]], elim conjE)
    fix r t assume t: "r = map (\<lambda>k. file_byte v (inodes s ! i) (blk * BSIZE + k)) [bo..<bo + m]" "lframe s t" "op A t v {}"
    note F = inodes_lframe[OF t(2)] file_ok_lframe[OF t(2)]
    have "wp (map_each (read_chunk i) cs) (\<lambda>r s'.
      r = map (\<lambda>(blk, bo, m). map (\<lambda>k. file_byte v (inodes t ! i) (blk * BSIZE + k)) [bo..<bo + m]) cs \<and>
      lframe t s' \<and> op A s' v {}) t"
    proof (rule Cons.IH[OF t(3)])
      show "file_ok (disksize t) v (inodes t ! i) n" using Cons.prems(2) by (simp add: F)
      show "bo + m \<le> BSIZE \<and> 0 < m \<and> blk * BSIZE + bo + m \<le> n" if "(blk, bo, m) \<in> set cs" for blk bo m
        using Cons.prems(3)[of blk bo m] that by simp
    qed
    then show "wp (bnd (map_each (read_chunk i) cs) (\<lambda>ys. ret (r # ys))) (\<lambda>r s'.
      r = map (\<lambda>(blk, bo, m). map (\<lambda>k. file_byte v (inodes s ! i) (blk * BSIZE + k)) [bo..<bo + m]) ((blk, bo, m) # cs) \<and>
      lframe s s' \<and> op A s' v {}) t"
      using t(1) lframe_trans[OF t(2)] by (auto simp: wp_simps F elim!: wp_mono)
  qed
qed

lemma add_wraps: "a + b < a \<longleftrightarrow> 2 ^ 32 \<le> unat a + unat (b :: uint)"
proof (cases "unat a + unat b < 2 ^ 32")
  case True
  then show ?thesis by (simp add: word_less_nat_alt unat_word_ariths)
next
  case False
  then have "(unat a + unat b) mod 2 ^ 32 = unat a + unat b - 2 ^ 32"
    using unat_uint_bound[of a] unat_uint_bound[of b] by (simp add: le_mod_geq)
  then show ?thesis using False unat_uint_bound[of b] by (simp add: word_less_nat_alt unat_word_ariths)
qed

lemma sint_small:
  assumes "unat (w :: uint) < 2 ^ 31"
  shows "sint w = int (unat w)"
proof -
  have "int (unat w) < int (2 ^ 31)" using assms by (simp only: of_nat_less_iff)
  then have "int (unat w) < 2 ^ 31" by (simp only: of_nat_power of_nat_numeral)
  then have "signed_take_bit 31 (int (unat w)) = int (unat w)" by (intro signed_take_bit_int_eq_self order_trans[OF _ of_nat_0_le_iff]) simp_all
  moreover have "sint (word_of_int (int (unat w)) :: uint) = signed_take_bit 31 (int (unat w))"
    by (subst sint_sbintrunc') (simp only: len_num0 len_num1 len_bit0, simp)
  ultimately show ?thesis by simp
qed

lemma readi_len:
  fixes off n sz :: uint
  assumes "unat off \<le> unat sz" "unat off + unat n < 2 ^ 32"
  shows "unat (if off + n > sz then sz - off else n) = min (unat n) (unat sz - unat off)"
proof -
  have "unat (off + n) = unat off + unat n" using assms(2) by (simp add: unat_word_ariths)
  moreover have "unat (sz - off) = unat sz - unat off" using assms(1) by (simp add: unat_sub word_le_nat_alt)
  ultimately show ?thesis using assms(1) by (auto simp: word_less_nat_alt)
qed


subsection \<open>Writing\<close>

text \<open>The disk blocks of the first \<open>n\<close> bytes, and a file whose blocks are its own: each belongs to one
  place of the file only, and none of them is the block of the indirect addresses.\<close>

definition data_blocks :: "(uint \<Rightarrow> block) \<Rightarrow> inode \<Rightarrow> nat \<Rightarrow> uint set" where
  "data_blocks v ip n = file_block v ip ` {b. b * BSIZE < n}"

definition writable :: "uint \<Rightarrow> (uint \<Rightarrow> block) \<Rightarrow> inode \<Rightarrow> nat \<Rightarrow> bool" where
  "writable dsize v ip n \<longleftrightarrow> file_ok dsize v ip n \<and>
     inj_on (file_block v ip) {b. b * BSIZE < n} \<and> (NDIRECT * BSIZE < n \<longrightarrow> i_addrs ip ! NDIRECT \<notin> data_blocks v ip n)"

text \<open>Contents \<open>v'\<close> hold the file with the bytes from \<open>off\<close> on replaced, and are otherwise as \<open>v\<close>.\<close>

definition overwritten ::
  "inode \<Rightarrow> nat \<Rightarrow> nat \<Rightarrow> byte list \<Rightarrow> (uint \<Rightarrow> block) \<Rightarrow> (uint \<Rightarrow> block) \<Rightarrow> bool" where
  "overwritten ip fsz off bs v v' \<longleftrightarrow>
     (\<forall>b. b * BSIZE < fsz \<longrightarrow> file_block v' ip b = file_block v ip b) \<and>
     (\<forall>k < fsz. file_byte v' ip k = (if off \<le> k \<and> k < off + length bs then bs ! (k - off) else file_byte v ip k)) \<and>
     (\<forall>bn. bn \<notin> data_blocks v ip fsz \<longrightarrow> v' bn = v bn)"

lemma overwritten_refl: "overwritten ip fsz off [] v v"
  by (auto simp: overwritten_def)

lemma data_blocks_same: "overwritten ip fsz off bs v v' \<Longrightarrow> data_blocks v' ip fsz = data_blocks v ip fsz"
  unfolding data_blocks_def by (rule image_cong) (auto simp: overwritten_def)

lemma overwritten_blocks:
  assumes "overwritten ip fsz off bs v v'" "k < fsz"
  shows "file_block v' ip (k div BSIZE) = file_block v ip (k div BSIZE)"
proof -
  have "k div BSIZE * BSIZE < fsz" using assms(2) by (meson div_times_less_eq_dividend le_less_trans)
  then show ?thesis using assms(1) by (simp add: overwritten_def)
qed

lemma overwritten_append:
  assumes "overwritten ip fsz off bs v v'" "overwritten ip fsz (off + length bs) cs v' v''"
  shows "overwritten ip fsz off (bs @ cs) v v''"
  using assms data_blocks_same[OF assms(1)] unfolding overwritten_def by (auto simp: nth_append)

lemma writable_overwritten:
  assumes "overwritten ip fsz off bs v v'" "writable dsize v ip fsz"
  shows "writable dsize v' ip fsz"
proof -
  have fb: "file_block v' ip b = file_block v ip b" if "b * BSIZE < fsz" for b
    using assms(1) that by (simp add: overwritten_def)
  then have "inj_on (file_block v' ip) {b. b * BSIZE < fsz} = inj_on (file_block v ip) {b. b * BSIZE < fsz}"
    by (intro inj_on_cong) simp
  then show ?thesis using assms(2) fb unfolding writable_def data_blocks_same[OF assms(1)] file_ok_def by simp
qed

lemma overwrite_block:
  assumes "writable dsize v ip fsz" "blk * BSIZE < fsz" "bo + m \<le> BSIZE" "length bs = m"
  defines "v' \<equiv> v(file_block v ip blk := \<lambda>k. if bo \<le> k \<and> k < bo + m then bs ! (k - bo) else v (file_block v ip blk) k)"
  shows "overwritten ip fsz (blk * BSIZE + bo) bs v v'"
proof -
  let ?a = "file_block v ip blk"
  have a: "?a \<in> data_blocks v ip fsz" using assms(2) by (auto simp: data_blocks_def)
  have same: "file_block v' ip b = file_block v ip b" if "b * BSIZE < fsz" for b
  proof (cases "b < NDIRECT")
    case False
    then have "NDIRECT * BSIZE < fsz" using mult_le_mono1[of NDIRECT b BSIZE] that by linarith
    then have "i_addrs ip ! NDIRECT \<noteq> ?a" using assms(1) a by (auto simp: writable_def)
    then show ?thesis by (simp add: file_block_def v'_def)
  qed (simp add: file_block_def)
  have "file_byte v' ip k = (if blk * BSIZE + bo \<le> k \<and> k < blk * BSIZE + bo + m then bs ! (k - (blk * BSIZE + bo)) else file_byte v ip k)"
    if k: "k < fsz" for k
  proof -
    have d: "k div BSIZE * BSIZE < fsz" using k by (meson div_times_less_eq_dividend le_less_trans)
    have km: "k mod BSIZE < BSIZE" "k = k div BSIZE * BSIZE + k mod BSIZE" using BSIZE_pos by simp_all
    show ?thesis
    proof (cases "k div BSIZE = blk")
      case True
      then have "k = blk * BSIZE + k mod BSIZE" using km(2) by simp
      then have "(blk * BSIZE + bo \<le> k) = (bo \<le> k mod BSIZE)" "(k < blk * BSIZE + bo + m) = (k mod BSIZE < bo + m)"
        "k - (blk * BSIZE + bo) = k mod BSIZE - bo" by linarith+
      then show ?thesis using same[OF d] True by (simp add: file_byte_def v'_def)
    next
      case False
      then have "file_block v ip (k div BSIZE) \<noteq> ?a"
        using assms(1,2) d by (auto simp: writable_def inj_on_def)
      moreover have "\<not> (blk * BSIZE + bo \<le> k \<and> k < blk * BSIZE + bo + m)"
      proof
        assume "blk * BSIZE + bo \<le> k \<and> k < blk * BSIZE + bo + m"
        then have "blk * BSIZE \<le> k" "k < Suc blk * BSIZE" using assms(3) by (auto simp: algebra_simps)
        then have "k div BSIZE = blk" by (intro div_nat_eqI) (simp_all add: mult.commute)
        then show False using False by simp
      qed
      ultimately show ?thesis unfolding file_byte_def same[OF d] by (auto simp: v'_def)
    qed
  qed
  then show ?thesis using same a assms(4) unfolding overwritten_def by (auto simp: v'_def)
qed

lemma write_chunk_rule:
  assumes "op A s v {}" "writable (disksize s) v (inodes s ! i) fsz" "bo + m \<le> BSIZE" "0 < m" "blk * BSIZE + bo + m \<le> fsz" "length bs = m"
    "file_block v (inodes s ! i) blk \<in> A"
  shows "wp (write_chunk i ((blk, bo, m), bs)) (\<lambda>_ s'. lframe s s' \<and>
    (\<exists>v'. op A s' v' {} \<and> overwritten (inodes s ! i) fsz (blk * BSIZE + bo) bs v v')) s"
proof -
  let ?ip = "inodes s ! i" and ?a = "file_block v (inodes s ! i) blk"
  let ?f = "\<lambda>x k. if bo \<le> k \<and> k < bo + m then bs ! (k - bo) else x k :: byte"
  have b: "blk * BSIZE < fsz" using assms(4,5) by linarith
  have ok: "file_ok (disksize s) v ?ip fsz" "?a \<in> A"
    using assms(2,7) by (auto simp: writable_def)
  show ?thesis unfolding write_chunk_def prod.case change_fold[where f = ?f]
  proof (rule wp_bndI[OF bmap_mapped[OF assms(1) _ ok(1) b]], simp_all, elim conjE)
    fix t assume t: "lframe s t" "op A t v {}"
    have dev: "i_dev (inodes t ! i) = 1" "on_disk t ?a"
      using inodes_lframe[OF t(1)] file_ok_lframe[OF t(1)] ok(1) b by (auto simp: file_ok_def)
    have "wp (bnd (bread 1 ?a) (\<lambda>bp. bnd (change bp ?f) (\<lambda>_. brelse bp))) (\<lambda>_ s'. lframe s s' \<and>
      (\<exists>v'. op A s' v' {} \<and> overwritten ?ip fsz (blk * BSIZE + bo) bs v v')) t"
    proof (rule wp_mono[OF bst.poke[OF t(2) dev(2) _ _ ok(2)]])
      fix x s' assume "lframe t s' \<and> op A s' (v(?a := ?f (v ?a))) {} \<and> (\<forall>j y. held t j y \<longrightarrow> held s' j y)"
      then show "lframe s s' \<and> (\<exists>v'. op A s' v' {} \<and> overwritten ?ip fsz (blk * BSIZE + bo) bs v v')"
        using lframe_trans[OF t(1)] overwrite_block[OF assms(2) b assms(3,6)] by blast
    qed simp_all
    then show "wp (bnd (fetch (\<lambda>s. i_dev (inodes s ! i))) (\<lambda>dev. bnd (bread dev ?a) (\<lambda>bp. bnd (change bp ?f) (\<lambda>_. brelse bp))))
      (\<lambda>_ s'. lframe s s' \<and> (\<exists>v'. op A s' v' {} \<and> overwritten ?ip fsz (blk * BSIZE + bo) bs v v')) t"
      unfolding wp_bnd_fetch dev(1) .
  qed
qed

lemma write_loop_rule:
  assumes "op A s v {}" "writable (disksize s) v (inodes s ! i) fsz" "off + n \<le> fsz" "length bs = n"
    "\<And>k. off \<le> k \<Longrightarrow> k < off + n \<Longrightarrow> file_block v (inodes s ! i) (k div BSIZE) \<in> A"
  shows "wp (for_each (write_chunk i) (slices (chunks off n) bs)) (\<lambda>_ s'. lframe s s' \<and>
    (\<exists>v'. op A s' v' {} \<and> overwritten (inodes s ! i) fsz off bs v v')) s"
  using assms
proof (induction off n arbitrary: s v bs rule: chunks.induct)
  case (1 off n)
  show ?case
  proof (cases "n = 0")
    case True
    then show ?thesis using 1(2,5) overwritten_refl by (auto simp: chunks.simps wp_simps)
  next
    case False
    let ?m = "min n (BSIZE - off mod BSIZE)"
    have m: "off mod BSIZE + ?m \<le> BSIZE" "0 < ?m" "off div BSIZE * BSIZE + off mod BSIZE + ?m \<le> fsz" "?m \<le> n"
      using False 1(4) BSIZE_pos by (auto simp: min_def mod_less_divisor less_imp_le)
    have sl: "slices (chunks off n) bs = ((off div BSIZE, off mod BSIZE, ?m), take ?m bs) # slices (chunks (off + ?m) (n - ?m)) (drop ?m bs)"
      using False by (subst chunks.simps) (simp add: Let_def)
    have lt: "length (take ?m bs) = ?m" using m(4) 1(5) by simp
    have inA: "file_block v (inodes s ! i) (off div BSIZE) \<in> A" using 1(6)[of off] False by simp
    show ?thesis unfolding sl for_each.simps
    proof (rule wp_bndI[OF write_chunk_rule[OF 1(2,3) m(1-3) lt inA]], elim conjE exE)
      fix x t v1 assume t: "lframe s t" "op A t v1 {}"
        "overwritten (inodes s ! i) fsz (off div BSIZE * BSIZE + off mod BSIZE) (take ?m bs) v v1"
      note F = inodes_lframe[OF t(1)] file_ok_lframe[OF t(1)]
      have A: "file_block v1 (inodes s ! i) (k div BSIZE) \<in> A" if "off \<le> k" "k < off + n" for k
        using 1(6)[OF that] overwritten_blocks[OF t(3), of k] that 1(4) by simp
      have "wp (for_each (write_chunk i) (slices (chunks (off + ?m) (n - ?m)) (drop ?m bs))) (\<lambda>_ s'. lframe t s' \<and>
        (\<exists>v'. op A s' v' {} \<and> overwritten (inodes t ! i) fsz (off + ?m) (drop ?m bs) v1 v')) t"
        using writable_overwritten[OF t(3) 1(3)] m(4) 1(4,5) A by (intro 1(1)[OF False refl t(2)]) (simp_all add: F)
      then show "wp (for_each (write_chunk i) (slices (chunks (off + ?m) (n - ?m)) (drop ?m bs))) (\<lambda>_ s'. lframe s s' \<and>
        (\<exists>v'. op A s' v' {} \<and> overwritten (inodes s ! i) fsz off bs v v')) t"
      proof (rule wp_mono, elim conjE exE)
        fix y s' v' assume u: "lframe t s'" "op A s' v' {}" "overwritten (inodes t ! i) fsz (off + ?m) (drop ?m bs) v1 v'"
        have o1: "overwritten (inodes s ! i) fsz off (take ?m bs) v v1" using t(3) by simp
        have o2: "overwritten (inodes s ! i) fsz (off + length (take ?m bs)) (drop ?m bs) v1 v'" using u(3) unfolding F lt .
        have "overwritten (inodes s ! i) fsz off bs v v'"
          using overwritten_append[OF o1 o2] by (simp only: append_take_drop_id)
        then show "lframe s s' \<and> (\<exists>v'. op A s' v' {} \<and> overwritten (inodes s ! i) fsz off bs v v')"
          using u(2) lframe_trans[OF t(1) u(1)] by blast
      qed
    qed
  qed
qed

text \<open>C32. Writing inside an ordinary file replaces exactly the bytes of the request: in the transaction the file then
  reads as before except for them, every block that is not a data block of the file is unchanged, and the
  result is the number of bytes. The transaction has room for the blocks the request touches, and no data block
  is in two places of the file.\<close>

theorem writei_overwrites:
  fixes s :: "'a fs_scheme"
  assumes "op A s v {}" "i_type (inodes s ! i) \<noteq> T_DEV"
    and "writable (disksize s) v (inodes s ! i) (unat (i_size (inodes s ! i)))"
    and "unat off + unat n \<le> unat (i_size (inodes s ! i))" "length src = unat n"
    and "\<And>k. unat off \<le> k \<Longrightarrow> k < unat off + unat n \<Longrightarrow> file_block v (inodes s ! i) (k div BSIZE) \<in> A"
  shows "wp (writei dv i src off n) (\<lambda>r s'. r = int (unat n) \<and> lframe s s' \<and>
    (\<exists>v'. op A s' v' {} \<and> overwritten (inodes s ! i) (unat (i_size (inodes s ! i))) (unat off) src v v')) s"
proof -
  let ?ip = "inodes s ! i"
  let ?sz = "i_size ?ip"
  have max: "unat ?sz \<le> MAXFILE * BSIZE" using assms(3) by (simp add: writable_def file_ok_def)
  then have "unat ?sz < 2 ^ 31" by (simp add: MAXFILE_def NDIRECT_def NINDIRECT_def BSIZE_def)
  then have lt: "unat n < 2 ^ 31" "unat off + unat n < 2 ^ 32" using assms(4) by simp_all
  have small: "sint n = int (unat n)" "unat (off + n) = unat off + unat n"
    using sint_small[OF lt(1)] lt(2) by (simp_all add: unat_word_ariths)
  have c: "\<not> (off > ?sz \<or> off + n < off)" "\<not> off + n > ?sz"
    using assms(4) small(2) by (auto simp: word_less_nat_alt)
  have m: "\<not> off + n > of_nat (MAXFILE * BSIZE)"
    using assms(4) small(2) max by (simp add: word_less_nat_alt MAXFILE_def NDIRECT_def NINDIRECT_def BSIZE_def)
  have "wp (for_each (write_chunk i) (slices (chunks (unat off) (unat n)) src)) (\<lambda>_ s'. lframe s s' \<and>
    (\<exists>v'. op A s' v' {} \<and> overwritten ?ip (unat ?sz) (unat off) src v v')) s"
    by (rule write_loop_rule[OF assms(1,3,4,5,6)])
  then show ?thesis
    unfolding writei_def wp_bnd_fetch if_not_P[OF assms(2)] if_not_P[OF c(1)] if_not_P[OF m]
  proof (rule wp_bndI, elim conjE exE)
    fix x t v' assume t: "lframe s t" "op A t v' {}" "overwritten ?ip (unat ?sz) (unat off) src v v'"
    show "wp (bnd (fetch (\<lambda>s. i_size (inodes s ! i))) (\<lambda>size. bnd (whenk (n > 0 \<and> off + n > size)
        (bnd (modify (inode_upd i (\<lambda>ip. ip\<lparr>i_size := off + n\<rparr>))) (\<lambda>_. iupdate i))) (\<lambda>_. ret (sint n))))
      (\<lambda>r s'. r = int (unat n) \<and> lframe s s' \<and>
        (\<exists>v'. op A s' v' {} \<and> overwritten ?ip (unat ?sz) (unat off) src v v')) t"
      unfolding wp_bnd_fetch inodes_lframe[OF t(1)] using c(2) t small(1) by (auto simp: wp_simps)
  qed
qed

text \<open>A file of two blocks that is not stored in the order of its contents.\<close>

definition file_example :: inode where
  "file_example = \<lparr>i_dev = 1, i_inum = 5, i_ref = 1, i_lock = initsleeplock, i_valid = True, i_type = T_FILE,
     i_major = 0, i_minor = 0, i_nlink = 1, i_size = 5000, i_uid = 0, i_gid = 0, i_mode = 0,
     i_addrs = [70, 66, 0, 0, 0, 0, 0, 0, 0, 0, 0, 0, 0]\<rparr>"

definition data_example :: "uint \<Rightarrow> block" where
  "data_example = (\<lambda>_ _. 0)(70 := \<lambda>k. of_nat k, 66 := \<lambda>k. of_nat (k + 1))"

lemma example_block: "b * BSIZE < 5000 \<Longrightarrow> b = 0 \<or> b = 1"
  by (auto simp: BSIZE_def)

lemma file_block_example [simp]: "file_block v file_example 0 = 70" "file_block v file_example (Suc 0) = 66"
  by (simp_all add: file_block_def file_example_def NDIRECT_def)

lemma file_example_sel [simp]:
  "unat (i_size file_example) = 5000" "i_dev file_example = 1" "i_type file_example = T_FILE"
  by (simp_all add: file_example_def)

lemma writable_example: "writable 1000 data_example file_example 5000"
  by (auto dest!: example_block simp: writable_def file_ok_def data_blocks_def inj_on_def)
    (simp_all add: MAXFILE_def NDIRECT_def NINDIRECT_def BSIZE_def)

definition no_devices :: "fs devsw" where
  "no_devices = \<lparr>dev_read = \<lambda>_. None, dev_write = \<lambda>_. None\<rparr>"


theorem writei_overwrites_witness:
  "wp (writei no_devices 0 [7, 8, 9] 4094 3) (\<lambda>r s'. r = 3 \<and> (\<exists>v'. op {66, 70} s' v' {} \<and>
     map (file_byte v' file_example) [4093..<4098] = [253, 7, 8, 9, 2])) (fs_boot data_example [file_example])"
proof -
  let ?s = "fs_boot data_example [file_example]"
  have o: "op {66, 70} ?s data_example {}" by (rule fs_boot_op) auto
  have A: "file_block data_example file_example (k div BSIZE) \<in> {66, 70}" if "4094 \<le> k" "k < 4097" for k
    using that example_block[of "k div BSIZE"] div_times_less_eq_dividend[of k BSIZE] by fastforce
  have v: "file_byte data_example file_example 4093 = 253" "file_byte data_example file_example 4097 = 2"
    by (simp_all add: file_byte_def data_example_def BSIZE_def)
  have b: "map (file_byte v' file_example) [4093..<4098] = [253, 7, 8, 9, 2]"
    if "overwritten file_example 5000 4094 [7, 8, 9] data_example v'" for v'
    using that v by (simp add: overwritten_def upt_rec)
  have "wp (writei no_devices 0 [7, 8, 9] 4094 3) (\<lambda>r s'. r = int (unat (3 :: uint)) \<and> lframe ?s s' \<and>
    (\<exists>v'. op {66, 70} s' v' {} \<and> overwritten (inodes ?s ! 0) (unat (i_size (inodes ?s ! 0))) (unat (4094 :: uint)) [7, 8, 9] data_example v')) ?s"
    by (rule writei_overwrites[OF o]) (use writable_example A in \<open>simp_all add: T_FILE_def T_DEV_def\<close>)
  then show ?thesis by (rule wp_mono) (use b in auto)
qed

end
