(* ===== verification/Format.thy ===== *)
theory Format
  imports CString
begin

text \<open>
  Formatted output and the number routines: \<open>printint\<close> and the format loop of the kernel's \<open>cprintf\<close>
  (\<^verbatim>\<open>console.c\<close>), the same of the user library (\<^verbatim>\<open>printf.c\<close>), and the string functions of
  \<^verbatim>\<open>ulib.c\<close>. The functions produce the bytes they print; \<open>Console\<close> sends the kernel's to the screen. A variable
  argument is a word together with the string at that address, which only \<open>%s\<close> looks at.
\<close>

subsection \<open>Numbers\<close>

text \<open>\<^verbatim>\<open>do buf[i++] = digits[x % base]; while((x /= base) != 0)\<close>, for the bases 10 and 16 it is called with: the digits
  from the last to the first.\<close>

function print_digits :: "string \<Rightarrow> nat \<Rightarrow> nat \<Rightarrow> byte list" where
  "print_digits digits base x =
     of_char (digits ! (x mod base)) # (if x div base = 0 \<or> base < 2 then [] else print_digits digits base (x div base))"
  by pat_completeness auto
termination
  by (relation "measure (\<lambda>(digits, base, x). x)") (auto simp: div_greater_zero_iff)

declare print_digits.simps [simp del]

definition printint :: "uint \<Rightarrow> nat \<Rightarrow> bool \<Rightarrow> byte list" where
  "printint xx base sign =
     (let neg = sign \<and> sint xx < 0;
          x = (if neg then - xx else xx);
          buf = print_digits ''0123456789abcdef'' base (unat x)
      in rev (buf @ (if neg then [45] else [])))"

definition printf_printint :: "uint \<Rightarrow> nat \<Rightarrow> bool \<Rightarrow> byte list" where
  "printf_printint xx base sign =
     (let neg = sign \<and> sint xx < 0;
          x = (if neg then - xx else xx);
          buf = print_digits ''0123456789ABCDEF'' base (unat x)
      in rev (buf @ (if neg then [45] else [])))"

subsection \<open>The format loops\<close>

definition PERCENT :: byte where "PERCENT = 37"

type_synonym arg = "uint \<times> byte list"

definition arg_str :: "arg \<Rightarrow> byte list" where
  "arg_str a = (if fst a = 0 then cbytes ''(null)'' else cstr (snd a))"

text \<open>The output, or \<open>None\<close> when a directive finds no argument.\<close>

fun cprintf_loop :: "byte list \<Rightarrow> arg list \<Rightarrow> byte list option" where
  "cprintf_loop [] args = Some []"
| "cprintf_loop [c] args = Some (if c = 0 \<or> c = PERCENT then [] else [c])"
| "cprintf_loop (c # d # fmt) args =
     (if c = 0 then Some []
      else if c \<noteq> PERCENT then map_option ((#) c) (cprintf_loop (d # fmt) args)
      else if d = 0 then Some []
      else if d = of_char (CHR ''d'') then
        (case args of [] \<Rightarrow> None | a # as \<Rightarrow> map_option ((@) (printint (fst a) 10 True)) (cprintf_loop fmt as))
      else if d = of_char (CHR ''x'') \<or> d = of_char (CHR ''p'') then
        (case args of [] \<Rightarrow> None | a # as \<Rightarrow> map_option ((@) (printint (fst a) 16 False)) (cprintf_loop fmt as))
      else if d = of_char (CHR ''s'') then
        (case args of [] \<Rightarrow> None | a # as \<Rightarrow> map_option ((@) (arg_str a)) (cprintf_loop fmt as))
      else if d = PERCENT then map_option ((#) PERCENT) (cprintf_loop fmt args)
      else map_option ((@) [PERCENT, d]) (cprintf_loop fmt args))"

text \<open>\<open>st\<close> is the local \<open>state\<close>: whether the last character was a percent sign.\<close>

fun printf_loop :: "bool \<Rightarrow> byte list \<Rightarrow> arg list \<Rightarrow> byte list option" where
  "printf_loop st [] args = Some []"
| "printf_loop st (c # fmt) args =
     (if c = 0 then Some []
      else if \<not> st then
        (if c = PERCENT then printf_loop True fmt args else map_option ((#) c) (printf_loop False fmt args))
      else if c = of_char (CHR ''d'') then
        (case args of [] \<Rightarrow> None | a # as \<Rightarrow> map_option ((@) (printf_printint (fst a) 10 True)) (printf_loop False fmt as))
      else if c = of_char (CHR ''x'') \<or> c = of_char (CHR ''p'') then
        (case args of [] \<Rightarrow> None | a # as \<Rightarrow> map_option ((@) (printf_printint (fst a) 16 False)) (printf_loop False fmt as))
      else if c = of_char (CHR ''s'') then
        (case args of [] \<Rightarrow> None | a # as \<Rightarrow> map_option ((@) (arg_str a)) (printf_loop False fmt as))
      else if c = of_char (CHR ''c'') then
        (case args of [] \<Rightarrow> None | a # as \<Rightarrow> map_option ((#) (ucast (fst a))) (printf_loop False fmt as))
      else if c = PERCENT then map_option ((#) c) (printf_loop False fmt args)
      else map_option ((@) [PERCENT, c]) (printf_loop False fmt args))"

definition printf :: "byte list \<Rightarrow> arg list \<Rightarrow> byte list option" where
  "printf fmt args = printf_loop False fmt args"

subsection \<open>The string functions of the user library\<close>

text \<open>\<open>strcpy\<close>: the destination after the copy; \<open>None\<close> when the string does not fit.\<close>

fun ulib_strcpy :: "byte list \<Rightarrow> byte list \<Rightarrow> byte list option" where
  "ulib_strcpy [] t = None"
| "ulib_strcpy (d # s) t = (if rd t = 0 then Some (0 # s) else map_option ((#) (rd t)) (ulib_strcpy s (tl t)))"

fun ulib_strcmp :: "byte list \<Rightarrow> byte list \<Rightarrow> int" where
  "ulib_strcmp (p # ps) (q # qs) = (if p \<noteq> 0 \<and> p = q then ulib_strcmp ps qs else int (unat p) - int (unat q))"
| "ulib_strcmp ps qs = int (unat (rd ps)) - int (unat (rd qs))"

primrec ulib_strlen :: "byte list \<Rightarrow> nat" where
  "ulib_strlen [] = 0"
| "ulib_strlen (c # s) = (if c = 0 then 0 else Suc (ulib_strlen s))"

primrec strchr :: "byte list \<Rightarrow> byte \<Rightarrow> byte list option" where
  "strchr [] c = None"
| "strchr (d # s) c = (if d = 0 then None else if d = c then Some (d # s) else strchr s c)"

text \<open>\<open>gets\<close> on the results of its one-byte reads, \<open>n\<close> of which still fit; the end of the list is the end of the input.\<close>

fun gets_loop :: "nat \<Rightarrow> byte list \<Rightarrow> byte list" where
  "gets_loop 0 input = []"
| "gets_loop (Suc n) [] = []"
| "gets_loop (Suc n) (c # input) = c # (if c = 10 \<or> c = 13 then [] else gets_loop n input)"

definition gets :: "byte list \<Rightarrow> nat \<Rightarrow> byte list" where
  "gets input mx = gets_loop (mx - 1) input @ [0]"

definition is_digit :: "byte \<Rightarrow> bool" where
  "is_digit c \<longleftrightarrow> 48 \<le> c \<and> c \<le> 57"

primrec atoi_loop :: "uint \<Rightarrow> byte list \<Rightarrow> uint" where
  "atoi_loop n [] = n"
| "atoi_loop n (c # s) = (if is_digit c then atoi_loop (n * 10 + ucast c - 48) s else n)"

definition atoi :: "byte list \<Rightarrow> int" where
  "atoi s = sint (atoi_loop 0 s)"

primrec ulib_memmove :: "memory \<Rightarrow> uint \<Rightarrow> uint \<Rightarrow> nat \<Rightarrow> memory" where
  "ulib_memmove m dst src 0 = m"
| "ulib_memmove m dst src (Suc n) = ulib_memmove (m(dst := m src)) (dst + 1) (src + 1) n"

subsection \<open>Printing and reading numbers\<close>

definition decimal :: "string \<Rightarrow> bool" where
  "decimal ds \<longleftrightarrow> (\<forall>k < 10. is_digit (of_char (ds ! k)) \<and> (ucast (of_char (ds ! k) :: byte) :: uint) - 48 = of_nat k)"

lemma decimal_digits: "decimal ''0123456789abcdef''" "decimal ''0123456789ABCDEF''"
proof -
  have k: "k = 0 \<or> k = 1 \<or> k = 2 \<or> k = 3 \<or> k = 4 \<or> k = 5 \<or> k = 6 \<or> k = 7 \<or> k = 8 \<or> k = 9" if "k < 10" for k :: nat
    using that by arith
  show "decimal ''0123456789abcdef''" "decimal ''0123456789ABCDEF''"
    unfolding decimal_def is_digit_def by (auto dest!: k)
qed

lemma atoi_digits:
  assumes "decimal ds"
  shows "atoi_loop 0 (rev (print_digits ds 10 x) @ rest) = atoi_loop (of_nat x) rest"
proof (induction x arbitrary: rest rule: less_induct)
  case (less x)
  let ?d = "of_char (ds ! (x mod 10)) :: byte"
  have d: "is_digit ?d" "(ucast ?d :: uint) - 48 = of_nat (x mod 10)" using assms by (auto simp: decimal_def)
  then have u: "(ucast ?d :: uint) = 48 + of_nat (x mod 10)" by (simp add: algebra_simps)
  show ?case
  proof (cases "x div 10 = 0")
    case True
    then show ?thesis using d(1) u by (subst print_digits.simps) simp
  next
    case False
    then have "x div 10 < x" by simp
    have "(of_nat x :: uint) = of_nat (x div 10) * 10 + of_nat (x mod 10)"
      by (metis div_mult_mod_eq of_nat_add of_nat_mult of_nat_numeral)
    then show ?thesis
      using False d(1) u less.IH[OF \<open>x div 10 < x\<close>, of "?d # rest"] by (subst print_digits.simps) (simp add: algebra_simps)
  qed
qed

lemma print_digits_length: "2 \<le> base \<Longrightarrow> x < base ^ Suc n \<Longrightarrow> length (print_digits ds base x) \<le> Suc n"
proof (induction n arbitrary: x)
  case 0
  then show ?case by (subst print_digits.simps) simp
next
  case (Suc n)
  then have "x div base < base ^ Suc n" by (simp add: less_mult_imp_div_less mult.commute)
  then show ?case using Suc.IH[OF Suc.prems(1)] by (subst print_digits.simps) auto
qed



end
