(* ===== verification/Spinlock.thy ===== *)
theory Spinlock
  imports Kalloc
begin

text \<open>
  Spin locks and interrupt nesting: \<^verbatim>\<open>spinlock.c\<close>, with \<open>mycpu\<close> of \<^verbatim>\<open>proc.c\<close>. Every operation takes the
  identifier of the processor that executes it, which is what \<open>lapicid\<close> reads from the hardware. The other theories treat
  a critical section as one step; here processors are interleaved between the single accesses to a lock,
  and mutual exclusion is what justifies those steps.
\<close>

subsection \<open>State\<close>

record spinlock =
  lk_locked :: uint
  lk_name :: string
  lk_cpu :: "nat option"
  lk_pcs :: "uint list"

record cpu =
  c_apicid :: byte
  c_ncli :: int
  c_intena :: bool

text \<open>\<open>eflags_if\<close> is the interrupt flag of each processor.\<close>

record smp =
  cpus :: "cpu list"
  locks :: "spinlock list"
  eflags_if :: "byte \<Rightarrow> bool"
  stack_mem :: "uint \<Rightarrow> byte"

definition cpu_upd :: "nat \<Rightarrow> (cpu \<Rightarrow> cpu) \<Rightarrow> 'a smp_scheme \<Rightarrow> 'a smp_scheme" where
  "cpu_upd i f s = s\<lparr>cpus := (cpus s)[i := f (cpus s ! i)]\<rparr>"

definition lock_upd :: "nat \<Rightarrow> (spinlock \<Rightarrow> spinlock) \<Rightarrow> 'a smp_scheme \<Rightarrow> 'a smp_scheme" where
  "lock_upd l f s = s\<lparr>locks := (locks s)[l := f (locks s ! l)]\<rparr>"

subsection \<open>Interrupt nesting\<close>

definition mycpu :: "byte \<Rightarrow> ('a smp_scheme, nat) kernel" where
  "mycpu a =
     bnd (fetch (\<lambda>s. eflags_if s a)) (\<lambda>interruptible.
     if interruptible then panic (''mycpu called with interrupts enabled'' @ [CHR 0x0A])
     else bnd (fetch (\<lambda>s. find_idx (\<lambda>c. c_apicid c = a) (cpus s))) (\<lambda>r.
       case r of None \<Rightarrow> panic (''unknown apicid'' @ [CHR 0x0A]) | Some i \<Rightarrow> ret i))"

definition set_if :: "byte \<Rightarrow> bool \<Rightarrow> 'a smp_scheme \<Rightarrow> 'a smp_scheme" where
  "set_if a b s = s\<lparr>eflags_if := (eflags_if s)(a := b)\<rparr>"

definition pushcli :: "byte \<Rightarrow> ('a smp_scheme, unit) kernel" where
  "pushcli a =
     bnd (fetch (\<lambda>s. eflags_if s a)) (\<lambda>eflags.
     bnd (modify (set_if a False)) (\<lambda>_.
     bnd (mycpu a) (\<lambda>i.
     bnd (fetch (\<lambda>s. c_ncli (cpus s ! i))) (\<lambda>n.
     bnd (whenk (n = 0) (modify (cpu_upd i (\<lambda>c. c\<lparr>c_intena := eflags\<rparr>)))) (\<lambda>_.
     modify (cpu_upd i (\<lambda>c. c\<lparr>c_ncli := c_ncli c + 1\<rparr>)))))))"

definition popcli :: "byte \<Rightarrow> ('a smp_scheme, unit) kernel" where
  "popcli a =
     bnd (fetch (\<lambda>s. eflags_if s a)) (\<lambda>interruptible.
     if interruptible then panic ''popcli - interruptible''
     else bnd (mycpu a) (\<lambda>i.
       bnd (modify (cpu_upd i (\<lambda>c. c\<lparr>c_ncli := c_ncli c - 1\<rparr>))) (\<lambda>_.
       bnd (fetch (\<lambda>s. cpus s ! i)) (\<lambda>c.
       if c_ncli c < 0 then panic ''popcli''
       else whenk (c_ncli c = 0 \<and> c_intena c) (modify (set_if a True))))))"

subsection \<open>Locks\<close>

definition initlock :: "nat \<Rightarrow> string \<Rightarrow> ('a smp_scheme, unit) kernel" where
  "initlock l name = modify (lock_upd l (\<lambda>k. k\<lparr>lk_name := name, lk_locked := 0, lk_cpu := None\<rparr>))"

definition holding :: "byte \<Rightarrow> nat \<Rightarrow> ('a smp_scheme, bool) kernel" where
  "holding a l =
     bnd (pushcli a) (\<lambda>_.
     bnd (fetch (\<lambda>s. locks s ! l)) (\<lambda>k.
     bnd (mycpu a) (\<lambda>i.
     bnd (popcli a) (\<lambda>_.
     ret (lk_locked k \<noteq> 0 \<and> lk_cpu k = Some i)))))"

text \<open>The walk along the saved frame pointers: at most \<open>n\<close> frames are left.\<close>

primrec callerpcs_loop :: "(uint \<Rightarrow> byte) \<Rightarrow> nat \<Rightarrow> uint \<Rightarrow> uint list" where
  "callerpcs_loop m 0 ebp = []"
| "callerpcs_loop m (Suc n) ebp =
     (if ebp = 0 \<or> ebp < KERNBASE \<or> ebp = 0xFFFFFFFF then replicate (Suc n) 0
      else ld32 m (ebp + 4) # callerpcs_loop m n (ld32 m ebp))"

definition getcallerpcs :: "(uint \<Rightarrow> byte) \<Rightarrow> uint \<Rightarrow> uint list" where
  "getcallerpcs m v = callerpcs_loop m 10 (v - 8)"

definition xchg :: "nat \<Rightarrow> uint \<Rightarrow> ('a smp_scheme, uint) kernel" where
  "xchg l new =
     bnd (fetch (\<lambda>s. lk_locked (locks s ! l))) (\<lambda>old.
     bnd (modify (lock_upd l (\<lambda>k. k\<lparr>lk_locked := new\<rparr>))) (\<lambda>_. ret old))"

text \<open>\<open>acquire\<close> in its three parts: before the loop, one round of the loop, and after it. \<open>v\<close> is the
  address of the argument on the stack.\<close>

definition acquire_enter :: "byte \<Rightarrow> nat \<Rightarrow> ('a smp_scheme, unit) kernel" where
  "acquire_enter a l =
     bnd (pushcli a) (\<lambda>_.
     bnd (holding a l) (\<lambda>h. if h then panic ''acquire'' else ret ()))"

definition acquire_record :: "byte \<Rightarrow> nat \<Rightarrow> uint \<Rightarrow> ('a smp_scheme, unit) kernel" where
  "acquire_record a l v =
     bnd (mycpu a) (\<lambda>i.
     bnd (modify (lock_upd l (\<lambda>k. k\<lparr>lk_cpu := Some i\<rparr>))) (\<lambda>_.
     bnd (fetch (\<lambda>s. getcallerpcs (stack_mem s) v)) (\<lambda>pcs.
     modify (lock_upd l (\<lambda>k. k\<lparr>lk_pcs := pcs\<rparr>)))))"

text \<open>With no other processor running, a lock that is taken stays taken and the loop does not end.\<close>

definition acquire :: "byte \<Rightarrow> nat \<Rightarrow> uint \<Rightarrow> ('a smp_scheme, unit) kernel" where
  "acquire a l v =
     bnd (acquire_enter a l) (\<lambda>_.
     bnd (xchg l 1) (\<lambda>old. if old \<noteq> 0 then stuck Diverges else acquire_record a l v))"

definition release_clear :: "byte \<Rightarrow> nat \<Rightarrow> ('a smp_scheme, unit) kernel" where
  "release_clear a l =
     bnd (holding a l) (\<lambda>h.
     if \<not> h then panic ''release''
     else modify (lock_upd l (\<lambda>k. k\<lparr>lk_pcs := (lk_pcs k)[0 := 0], lk_cpu := None\<rparr>)))"

definition release_free :: "byte \<Rightarrow> nat \<Rightarrow> ('a smp_scheme, unit) kernel" where
  "release_free a l =
     bnd (modify (lock_upd l (\<lambda>k. k\<lparr>lk_locked := 0\<rparr>))) (\<lambda>_. popcli a)"

definition release :: "byte \<Rightarrow> nat \<Rightarrow> ('a smp_scheme, unit) kernel" where
  "release a l = bnd (release_clear a l) (\<lambda>_. release_free a l)"

subsection \<open>Several processors\<close>

text \<open>
  Where a processor is with respect to the locks, and the locks whose \<open>acquire\<close> has returned on it. An
  interrupt handler is more steps of the processor it interrupts, which it can do only between operations since
  interrupts are off inside them.
\<close>

datatype phase = Out | Spinning nat uint | Taken nat uint | Leaving nat

record world = smp +
  phase :: "byte \<Rightarrow> phase"
  owned :: "byte \<Rightarrow> nat list"

inductive lstep :: "world \<Rightarrow> world \<Rightarrow> bool" where
  enter: "phase w a = Out \<Longrightarrow> l < length (locks w) \<Longrightarrow> acquire_enter a l w = Inr ((), w') \<Longrightarrow>
    lstep w (w'\<lparr>phase := (phase w')(a := Spinning l v)\<rparr>)"
| spin: "phase w a = Spinning l v \<Longrightarrow> xchg l 1 w = Inr (old, w') \<Longrightarrow>
    lstep w (w'\<lparr>phase := (phase w')(a := if old \<noteq> 0 then Spinning l v else Taken l v)\<rparr>)"
| taken: "phase w a = Taken l v \<Longrightarrow> acquire_record a l v w = Inr ((), w') \<Longrightarrow>
    lstep w (w'\<lparr>phase := (phase w')(a := Out), owned := (owned w')(a := l # owned w' a)\<rparr>)"
| leave: "phase w a = Out \<Longrightarrow> l < length (locks w) \<Longrightarrow> release_clear a l w = Inr ((), w') \<Longrightarrow>
    lstep w (w'\<lparr>phase := (phase w')(a := Leaving l)\<rparr>)"
| free: "phase w a = Leaving l \<Longrightarrow> release_free a l w = Inr ((), w') \<Longrightarrow>
    lstep w (w'\<lparr>phase := (phase w')(a := Out), owned := (owned w')(a := remove1 l (owned w' a))\<rparr>)"

inductive_cases lstepE: "lstep w w'"

subsection \<open>What the operations do\<close>

abbreviation cpu_of :: "byte \<Rightarrow> 'a smp_scheme \<Rightarrow> nat option" where
  "cpu_of a s \<equiv> find_idx (\<lambda>c. c_apicid c = a) (cpus s)"

text \<open>The processor is known, and its interrupts are off inside a nesting.\<close>

definition nested_ok :: "byte \<Rightarrow> nat \<Rightarrow> 'a smp_scheme \<Rightarrow> bool" where
  "nested_ok a i s \<longleftrightarrow> cpu_of a s = Some i \<and> 0 \<le> c_ncli (cpus s ! i) \<and> (eflags_if s a \<longrightarrow> c_ncli (cpus s ! i) = 0)"

definition pushed :: "byte \<Rightarrow> nat \<Rightarrow> 'a smp_scheme \<Rightarrow> 'a smp_scheme" where
  "pushed a i s = cpu_upd i (\<lambda>c. c\<lparr>c_intena := (if c_ncli c = 0 then eflags_if s a else c_intena c),
     c_ncli := c_ncli c + 1\<rparr>) (set_if a False s)"

lemma upd_sel [simp]:
  "locks (cpu_upd i f s) = locks s" "eflags_if (cpu_upd i f s) = eflags_if s"
  "cpus (lock_upd l g s) = cpus s" "eflags_if (lock_upd l g s) = eflags_if s"
  "cpus (set_if a b s) = cpus s" "locks (set_if a b s) = locks s"
  "smp.more (cpu_upd i f s) = smp.more s" "smp.more (lock_upd l g s) = smp.more s" "smp.more (set_if a b s) = smp.more s"
  "eflags_if (set_if a b s) = (eflags_if s)(a := b)"
  "cpus (cpu_upd i f s) = (cpus s)[i := f (cpus s ! i)]"
  "locks (lock_upd l g s) = (locks s)[l := g (locks s ! l)]"
  by (simp_all add: cpu_upd_def lock_upd_def set_if_def)

lemma cpu_upd_id: "f (cpus s ! i) = cpus s ! i \<Longrightarrow> cpu_upd i f s = s"
  by (simp add: cpu_upd_def)

lemma cpu_of_upd:
  assumes "cpu_of a s = Some i" "\<And>c. c_apicid (f c) = c_apicid c"
  shows "cpu_of b (cpu_upd i f s) = cpu_of b s"
  by (rule find_idx_cong) (use assms(2) in \<open>auto simp: nth_list_update_if\<close>)

lemma mycpu_run: "cpu_of a s = Some i \<Longrightarrow> \<not> eflags_if s a \<Longrightarrow> mycpu a s = Inr (i, s)"
  by (simp add: mycpu_def run_simps)

lemma pushcli_run: "cpu_of a s = Some i \<Longrightarrow> pushcli a s = Inr ((), pushed a i s)"
  using find_idx_Some_less[of "\<lambda>c. c_apicid c = a" "cpus s" i]
  by (auto simp: pushcli_def bnd_def run_simps mycpu_run pushed_def cpu_upd_def set_if_def)

lemma pushed_sel [simp]:
  "locks (pushed a i s) = locks s" "smp.more (pushed a i s) = smp.more s" "eflags_if (pushed a i s) = (eflags_if s)(a := False)"
  by (simp_all add: pushed_def)

lemma pushed_cpus: "cpus (pushed a i s) = (cpus s)[i := (cpus s ! i)\<lparr>c_intena := (if c_ncli (cpus s ! i) = 0 then eflags_if s a else c_intena (cpus s ! i)),
     c_ncli := c_ncli (cpus s ! i) + 1\<rparr>]"
  by (simp add: pushed_def)

lemma pushed_cpu_of [simp]: "cpu_of a s = Some i \<Longrightarrow> cpu_of b (pushed a i s) = cpu_of b s"
  unfolding pushed_def by (subst cpu_of_upd[where a = a]) simp_all

text \<open>A matched pair leaves interrupts as they were.\<close>

lemma push_pop:
  assumes "nested_ok a i s"
  shows "popcli a (pushed a i s) = Inr ((), cpu_upd i (\<lambda>c. c\<lparr>c_intena := (if c_ncli c = 0 then eflags_if s a else c_intena c)\<rparr>) s)"
proof -
  have i: "cpu_of a s = Some i" "i < length (cpus s)" "0 \<le> c_ncli (cpus s ! i)"
    using assms find_idx_Some_less by (auto simp: nested_ok_def)
  have m: "mycpu a (pushed a i s) = Inr (i, pushed a i s)" using i by (intro mycpu_run) simp_all
  have f: "(eflags_if s)(a := False) = eflags_if s" if "\<not> eflags_if s a" using that by (simp add: fun_upd_idem)
  have t: "(eflags_if s)(a := True) = eflags_if s" if "eflags_if s a" using that by (simp add: fun_upd_idem)
  have "popcli a (pushed a i s) = (let s' = cpu_upd i (\<lambda>c. c\<lparr>c_ncli := c_ncli c - 1\<rparr>) (pushed a i s); c = cpus s' ! i
      in if c_ncli c < 0 then Inl (Panic ''popcli'') else if c_ncli c = 0 \<and> c_intena c then Inr ((), set_if a True s') else Inr ((), s'))"
    by (simp add: popcli_def bnd_def run_simps m Let_def)
  then show ?thesis
    using i assms f t by (auto simp: Let_def pushed_def cpu_upd_def set_if_def nested_ok_def)
qed

lemma holding_run:
  assumes "nested_ok a i s"
  shows "holding a l s = Inr (lk_locked (locks s ! l) \<noteq> 0 \<and> lk_cpu (locks s ! l) = Some i,
    cpu_upd i (\<lambda>c. c\<lparr>c_intena := (if c_ncli c = 0 then eflags_if s a else c_intena c)\<rparr>) s)"
proof -
  have i: "cpu_of a s = Some i" using assms by (simp add: nested_ok_def)
  have m: "mycpu a (pushed a i s) = Inr (i, pushed a i s)" using i by (intro mycpu_run) simp_all
  show ?thesis unfolding holding_def by (simp add: bnd_def run_simps pushcli_run[OF i] m push_pop[OF assms])
qed

lemma acquire_enter_run:
  assumes "nested_ok a i s"
  shows "acquire_enter a l s = (if lk_locked (locks s ! l) \<noteq> 0 \<and> lk_cpu (locks s ! l) = Some i then Inl (Panic ''acquire'')
     else Inr ((), pushed a i s))"
proof -
  have i: "cpu_of a s = Some i" "i < length (cpus s)" using assms find_idx_Some_less by (auto simp: nested_ok_def)
  have ok: "nested_ok a i (pushed a i s)" using assms i by (simp add: nested_ok_def) (simp add: pushed_cpus)
  have "cpu_upd i (\<lambda>c. c\<lparr>c_intena := (if c_ncli c = 0 then eflags_if (pushed a i s) a else c_intena c)\<rparr>) (pushed a i s) = pushed a i s"
    using assms i(2) by (intro cpu_upd_id) (simp add: pushed_cpus nested_ok_def)
  then show ?thesis
    unfolding acquire_enter_def by (simp add: bnd_def run_simps pushcli_run[OF i(1)] holding_run[OF ok])
qed

lemma popcli_run:
  assumes "cpu_of a s = Some i" "\<not> eflags_if s a" "0 < c_ncli (cpus s ! i)"
  shows "popcli a s = Inr ((), set_if a (c_ncli (cpus s ! i) = 1 \<and> c_intena (cpus s ! i))
    (cpu_upd i (\<lambda>c. c\<lparr>c_ncli := c_ncli c - 1\<rparr>) s))"
proof -
  have f: "(eflags_if s)(a := False) = eflags_if s" using assms(2) by (simp add: fun_upd_idem)
  have i: "i < length (cpus s)" using assms(1) by (rule find_idx_Some_less)
  show ?thesis
    using assms i f by (auto simp: popcli_def bnd_def run_simps mycpu_run cpu_upd_def set_if_def)
qed

subsection \<open>The invariant\<close>

text \<open>A processor has a lock from the successful exchange until the lock is cleared.\<close>

definition has :: "world \<Rightarrow> byte \<Rightarrow> nat \<Rightarrow> bool" where
  "has w a l \<longleftrightarrow> l \<in> set (owned w a) \<or> (\<exists>v. phase w a = Taken l v)"

fun busy :: "phase \<Rightarrow> nat" where
  "busy (Spinning l v) = 1"
| "busy (Taken l v) = 1"
| "busy p = 0"

fun phase_ok :: "nat \<Rightarrow> nat list \<Rightarrow> phase \<Rightarrow> bool" where
  "phase_ok n ls Out = True"
| "phase_ok n ls (Spinning l v) = (l < n \<and> l \<notin> set ls)"
| "phase_ok n ls (Taken l v) = (l < n \<and> l \<notin> set ls)"
| "phase_ok n ls (Leaving l) = (l \<in> set ls)"

definition cpu_inv :: "world \<Rightarrow> byte \<Rightarrow> bool" where
  "cpu_inv w a \<longleftrightarrow>
     (case cpu_of a w of
        None \<Rightarrow> phase w a = Out \<and> owned w a = []
      | Some i \<Rightarrow> c_ncli (cpus w ! i) = int (length (owned w a) + busy (phase w a)) \<and>
          (eflags_if w a \<longrightarrow> c_ncli (cpus w ! i) = 0)) \<and>
     distinct (owned w a) \<and> set (owned w a) \<subseteq> {..<length (locks w)} \<and> phase_ok (length (locks w)) (owned w a) (phase w a)"

definition lock_inv :: "world \<Rightarrow> nat \<Rightarrow> bool" where
  "lock_inv w l \<longleftrightarrow>
     (lk_locked (locks w ! l) \<noteq> 0 \<longleftrightarrow> (\<exists>a. has w a l)) \<and> (\<forall>a b. has w a l \<longrightarrow> has w b l \<longrightarrow> a = b) \<and>
     (\<forall>i. lk_cpu (locks w ! l) = Some i \<longleftrightarrow> (\<exists>a. cpu_of a w = Some i \<and> l \<in> set (owned w a) \<and> phase w a \<noteq> Leaving l))"

definition linv :: "world \<Rightarrow> bool" where
  "linv w \<longleftrightarrow> (\<forall>a. cpu_inv w a) \<and> (\<forall>l < length (locks w). lock_inv w l)"

lemma cpu_of_apicid: "cpu_of a s = Some i \<Longrightarrow> c_apicid (cpus s ! i) = a"
  by (drule find_idx_Some_sat) simp

text \<open>A step of one processor on one lock: what is left to show is about the two.\<close>

lemma linv_local:
  assumes "linv w" "cpu_of a w = Some i" "cpus w' = (cpus w)[i := c]" "c_apicid c = a"
    and "\<And>b. b \<noteq> a \<Longrightarrow> eflags_if w' b = eflags_if w b \<and> phase w' b = phase w b \<and> owned w' b = owned w b"
    and "length (locks w') = length (locks w)" "\<And>l. l \<noteq> m \<Longrightarrow> locks w' ! l = locks w ! l"
    and "\<And>l. l \<noteq> m \<Longrightarrow> has w' a l = has w a l \<and> (l \<in> set (owned w' a)) = (l \<in> set (owned w a)) \<and>
      (phase w' a = Leaving l) = (phase w a = Leaving l)"
    and "cpu_inv w' a" "lock_inv w' m"
  shows "linv w'"
proof -
  have i: "i < length (cpus w)" using assms(2) by (rule find_idx_Some_less)
  have cpu_of: "cpu_of b w' = cpu_of b w" for b
    by (rule find_idx_cong) (use assms(3,4) cpu_of_apicid[OF assms(2)] in \<open>auto simp: nth_list_update_if\<close>)
  have "cpu_inv w' b" for b
  proof (cases "b = a")
    case False
    then have "j \<noteq> i" if "cpu_of b w = Some j" for j using cpu_of_apicid[OF that] cpu_of_apicid[OF assms(2)] by auto
    moreover have "cpu_inv w b" using assms(1) by (simp add: linv_def)
    ultimately show ?thesis using assms(5)[OF False] assms(3,6)
      unfolding cpu_inv_def cpu_of by (auto split: option.splits)
  qed (use assms(9) in simp)
  moreover have "lock_inv w' l" if "l < length (locks w')" for l
  proof (cases "l = m")
    case False
    have h: "has w' b l = has w b l" for b
      using assms(5)[of b] assms(8)[OF False] by (cases "b = a") (auto simp: has_def)
    have o: "(l \<in> set (owned w' b) \<and> phase w' b \<noteq> Leaving l) = (l \<in> set (owned w b) \<and> phase w b \<noteq> Leaving l)" for b
      using assms(5)[of b] assms(8)[OF False] by (cases "b = a") auto
    have "lock_inv w l" using assms(1,6) that by (simp add: linv_def)
    then show ?thesis unfolding lock_inv_def h cpu_of o assms(7)[OF False] .
  qed (use assms(10) in simp)
  ultimately show ?thesis by (simp add: linv_def)
qed

lemma world_sel [simp]:
  "phase (cpu_upd i f w) = phase w" "phase (lock_upd l g w) = phase w" "phase (set_if a b w) = phase w" "phase (pushed a i w) = phase w"
  "owned (cpu_upd i f w) = owned w" "owned (lock_upd l g w) = owned w" "owned (set_if a b w) = owned w" "owned (pushed a i w) = owned w"
  by (simp_all add: cpu_upd_def lock_upd_def set_if_def pushed_def)

lemma pushcli_known: "pushcli a s = Inr x \<Longrightarrow> \<exists>i. cpu_of a s = Some i"
  by (auto simp: pushcli_def mycpu_def bnd_def run_simps split: option.splits)

lemma linv_cpu:
  assumes "linv w" "cpu_of a w = Some i"
  shows "c_ncli (cpus w ! i) = int (length (owned w a) + busy (phase w a))" "eflags_if w a \<Longrightarrow> c_ncli (cpus w ! i) = 0"
    "distinct (owned w a)" "set (owned w a) \<subseteq> {..<length (locks w)}" "phase_ok (length (locks w)) (owned w a) (phase w a)"
proof -
  have "cpu_inv w a" using assms(1) by (simp add: linv_def)
  then show "c_ncli (cpus w ! i) = int (length (owned w a) + busy (phase w a))" "eflags_if w a \<Longrightarrow> c_ncli (cpus w ! i) = 0"
    "distinct (owned w a)" "set (owned w a) \<subseteq> {..<length (locks w)}" "phase_ok (length (locks w)) (owned w a) (phase w a)"
    by (simp_all add: cpu_inv_def assms(2))
qed

lemma linv_nested: "linv w \<Longrightarrow> cpu_of a w = Some i \<Longrightarrow> nested_ok a i w"
  using linv_cpu(1,2)[of w a i] by (simp add: nested_ok_def)

lemma linv_known:
  assumes "linv w" "phase w a \<noteq> Out"
  shows "\<exists>i. cpu_of a w = Some i"
proof -
  have "cpu_inv w a" using assms(1) by (simp add: linv_def)
  then show ?thesis using assms(2) by (cases "cpu_of a w") (auto simp: cpu_inv_def)
qed

lemma linv_lock: "linv w \<Longrightarrow> l < length (locks w) \<Longrightarrow> lock_inv w l"
  by (simp add: linv_def)

text \<open>\<open>holding\<close> tells whether the processor owns the lock, which needs no look at the other processors.\<close>

lemma linv_holding:
  assumes "linv w" "cpu_of a w = Some i" "l < length (locks w)"
  shows "(lk_locked (locks w ! l) \<noteq> 0 \<and> lk_cpu (locks w ! l) = Some i) \<longleftrightarrow> l \<in> set (owned w a) \<and> phase w a \<noteq> Leaving l"
proof -
  have "b = a" if "cpu_of b w = Some i" for b using cpu_of_apicid[OF that] cpu_of_apicid[OF assms(2)] by simp
  then show ?thesis using linv_lock[OF assms(1,3)] assms(2) unfolding lock_inv_def has_def by blast
qed

lemma enter_linv:
  assumes "linv w" "phase w a = Out" "l < length (locks w)" "acquire_enter a l w = Inr ((), w')"
  shows "linv (w'\<lparr>phase := (phase w')(a := Spinning l v)\<rparr>)"
proof -
  obtain i where i: "cpu_of a w = Some i"
    using assms(4) pushcli_known[of a w] unfolding acquire_enter_def by (auto elim!: bnd_InrE)
  note n = linv_nested[OF assms(1) i] and h = linv_holding[OF assms(1) i assms(3)]
  have w': "w' = pushed a i w" "l \<notin> set (owned w a)"
    using assms(2,4) h unfolding acquire_enter_run[OF n] by (auto split: if_splits)
  let ?w = "w'\<lparr>phase := (phase w')(a := Spinning l v)\<rparr>"
  have il: "i < length (cpus w)" using i by (rule find_idx_Some_less)
  have hs: "has ?w b k = has w b k" for b k using assms(2) by (auto simp: has_def w')
  have c: "cpu_of b ?w = cpu_of b w" for b using i by (simp add: w')
  show ?thesis
  proof (rule linv_local[OF assms(1) i, where m = l and c = "cpus w' ! i"])
    show "cpu_inv ?w a" using linv_cpu[OF assms(1) i] il assms(2,3) w'(2) c[of a] i
      by (simp add: cpu_inv_def w'(1)) (simp add: pushed_cpus)
    have "(phase ?w b \<noteq> Leaving l) = (phase w b \<noteq> Leaving l)" for b using assms(2) by (simp add: w')
    then show "lock_inv ?w l" using linv_lock[OF assms(1,3)] unfolding lock_inv_def hs c by (simp add: w')
    show "has ?w a k = has w a k \<and> (k \<in> set (owned ?w a)) = (k \<in> set (owned w a)) \<and> (phase ?w a = Leaving k) = (phase w a = Leaving k)" for k
      unfolding hs using assms(2) by (simp add: w')
  qed (use assms(2) cpu_of_apicid[OF i] il in \<open>simp_all add: w' pushed_cpus\<close>)
qed

lemma spin_linv:
  assumes "linv w" "phase w a = Spinning l v" "xchg l 1 w = Inr (old, w')"
  shows "linv (w'\<lparr>phase := (phase w')(a := if old \<noteq> 0 then Spinning l v else Taken l v)\<rparr>)"
proof -
  obtain i where i: "cpu_of a w = Some i" using linv_known[OF assms(1), of a] assms(2) by auto
  note C = linv_cpu[OF assms(1) i]
  have l: "l < length (locks w)" "l \<notin> set (owned w a)" using C(5) assms(2) by simp_all
  have w': "w' = lock_upd l (\<lambda>k. k\<lparr>lk_locked := 1\<rparr>) w" "old = lk_locked (locks w ! l)"
    using assms(3) by (auto simp: xchg_def bnd_def run_simps)
  let ?w = "w'\<lparr>phase := (phase w')(a := if old \<noteq> 0 then Spinning l v else Taken l v)\<rparr>"
  have L: "lock_inv w l" using linv_lock[OF assms(1) l(1)] .
  have none: "\<not> has w b l" if "old = 0" for b using L that w'(2) by (auto simp: lock_inv_def)
  have hs: "has ?w b l = (has w b l \<or> (b = a \<and> old = 0))" for b
    using assms(2) by (auto simp: has_def w'(1))
  show ?thesis
  proof (rule linv_local[OF assms(1) i, where m = l and c = "cpus w ! i"])
    show "cpu_inv ?w a" using C assms(2) i l by (auto simp: cpu_inv_def w'(1))
    have "(phase ?w b \<noteq> Leaving l) = (phase w b \<noteq> Leaving l)" for b using assms(2) by (simp add: w'(1))
    then show "lock_inv ?w l" using L none w'(2) l(1) unfolding lock_inv_def hs by (simp add: w'(1)) blast
  qed (use assms(2) cpu_of_apicid[OF i] in \<open>auto simp: w'(1) has_def\<close>)
qed

lemma taken_linv:
  assumes "linv w" "phase w a = Taken l v" "acquire_record a l v w = Inr ((), w')"
  shows "linv (w'\<lparr>phase := (phase w')(a := Out), owned := (owned w')(a := l # owned w' a)\<rparr>)"
proof -
  obtain i where i: "cpu_of a w = Some i" using linv_known[OF assms(1), of a] assms(2) by auto
  note C = linv_cpu[OF assms(1) i]
  have l: "l < length (locks w)" "l \<notin> set (owned w a)" "\<not> eflags_if w a" using C(1,2,5) assms(2) by auto
  let ?p = "getcallerpcs (stack_mem w) v"
  have w': "w' = lock_upd l (\<lambda>k. k\<lparr>lk_pcs := ?p\<rparr>) (lock_upd l (\<lambda>k. k\<lparr>lk_cpu := Some i\<rparr>) w)"
    using assms(3) by (simp add: acquire_record_def bnd_def run_simps mycpu_run[OF i l(3)]) (simp add: lock_upd_def)
  let ?w = "w'\<lparr>phase := (phase w')(a := Out), owned := (owned w')(a := l # owned w' a)\<rparr>"
  have L: "lock_inv w l" using linv_lock[OF assms(1) l(1)] .
  have ha: "has w a l" using assms(2) by (simp add: has_def)
  then have only: "b = a" if "l \<in> set (owned w b)" for b using L that unfolding lock_inv_def has_def by blast
  have hs: "has ?w b l = has w b l" for b using ha by (auto simp: has_def w')
  show ?thesis
  proof (rule linv_local[OF assms(1) i, where m = l and c = "cpus w ! i"])
    show "cpu_inv ?w a" using C assms(2) i l by (simp add: cpu_inv_def w')
    have "(\<exists>b. cpu_of b ?w = Some j \<and> l \<in> set (owned ?w b) \<and> phase ?w b \<noteq> Leaving l) = (j = i)" for j
      using i only assms(2) by (auto simp: w')
    moreover have "lk_cpu (locks ?w ! l) = Some i" "lk_locked (locks ?w ! l) = lk_locked (locks w ! l)"
      using l(1) by (simp_all add: w')
    ultimately show "lock_inv ?w l" using L unfolding lock_inv_def hs by auto
  qed (use assms(2) cpu_of_apicid[OF i] in \<open>auto simp: w' has_def\<close>)
qed

lemma release_clear_run:
  assumes "linv w" "cpu_of a w = Some i" "l < length (locks w)"
  shows "release_clear a l w = (if l \<in> set (owned w a) \<and> phase w a \<noteq> Leaving l
    then Inr ((), lock_upd l (\<lambda>k. k\<lparr>lk_pcs := (lk_pcs k)[0 := 0], lk_cpu := None\<rparr>) w) else Inl (Panic ''release''))"
proof -
  note C = linv_cpu[OF assms(1,2)]
  have "c_ncli (cpus w ! i) \<noteq> 0" if "l \<in> set (owned w a)" using C(1) length_pos_if_in_set[OF that] by linarith
  then have "cpu_upd i (\<lambda>c. c\<lparr>c_intena := (if c_ncli c = 0 then eflags_if w a else c_intena c)\<rparr>) w = w" if "l \<in> set (owned w a)"
    using that by (intro cpu_upd_id) simp
  then show ?thesis
    using linv_holding[OF assms] unfolding release_clear_def
    by (auto simp: bnd_def run_simps holding_run[OF linv_nested[OF assms(1,2)]])
qed

lemma leave_linv:
  assumes "linv w" "phase w a = Out" "l < length (locks w)" "release_clear a l w = Inr ((), w')"
  shows "linv (w'\<lparr>phase := (phase w')(a := Leaving l)\<rparr>)"
proof -
  obtain i where i: "cpu_of a w = Some i"
    using assms(4) pushcli_known[of a w] unfolding release_clear_def holding_def by (auto elim!: bnd_InrE)
  note C = linv_cpu[OF assms(1) i]
  have w': "w' = lock_upd l (\<lambda>k. k\<lparr>lk_pcs := (lk_pcs k)[0 := 0], lk_cpu := None\<rparr>) w" "l \<in> set (owned w a)"
    using assms(4) unfolding release_clear_run[OF assms(1) i assms(3)] by (auto split: if_splits)
  let ?w = "w'\<lparr>phase := (phase w')(a := Leaving l)\<rparr>"
  have L: "lock_inv w l" using linv_lock[OF assms(1,3)] .
  then have only: "b = a" if "l \<in> set (owned w b)" for b using w'(2) that unfolding lock_inv_def has_def by blast
  have hs: "has ?w b k = has w b k" for b k using assms(2) by (auto simp: has_def w'(1))
  show ?thesis
  proof (rule linv_local[OF assms(1) i, where m = l and c = "cpus w ! i"])
    show "cpu_inv ?w a" using C assms(2) i w'(2) by (simp add: cpu_inv_def w'(1))
    have "\<not> (l \<in> set (owned ?w b) \<and> phase ?w b \<noteq> Leaving l)" for b using only[of b] by (auto simp: w'(1))
    moreover have "lk_cpu (locks ?w ! l) = None" "lk_locked (locks ?w ! l) = lk_locked (locks w ! l)"
      using assms(3) by (simp_all add: w'(1))
    ultimately show "lock_inv ?w l" using L unfolding lock_inv_def hs by auto
    show "has ?w a k = has w a k \<and> (k \<in> set (owned ?w a)) = (k \<in> set (owned w a)) \<and> (phase ?w a = Leaving k) = (phase w a = Leaving k)"
      if "k \<noteq> l" for k
      unfolding hs using assms(2) that by (simp add: w'(1))
  qed (use assms(2) cpu_of_apicid[OF i] in \<open>simp_all add: w'(1)\<close>)
qed

lemma free_linv:
  assumes "linv w" "phase w a = Leaving l" "release_free a l w = Inr ((), w')"
  shows "linv (w'\<lparr>phase := (phase w')(a := Out), owned := (owned w')(a := remove1 l (owned w' a))\<rparr>)"
proof -
  obtain i where i: "cpu_of a w = Some i" using linv_known[OF assms(1), of a] assms(2) by auto
  note C = linv_cpu[OF assms(1) i]
  have il: "i < length (cpus w)" using i by (rule find_idx_Some_less)
  have o: "l \<in> set (owned w a)" "l < length (locks w)" using C(4,5) assms(2) by auto
  then have n: "0 < c_ncli (cpus w ! i)" "\<not> eflags_if w a" using C(1,2) assms(2) by (cases "owned w a"; force)+
  let ?v = "lock_upd l (\<lambda>k. k\<lparr>lk_locked := 0\<rparr>) w"
  let ?b = "c_ncli (cpus w ! i) = 1 \<and> c_intena (cpus w ! i)"
  have w': "w' = set_if a ?b (cpu_upd i (\<lambda>c. c\<lparr>c_ncli := c_ncli c - 1\<rparr>) ?v)"
    using assms(3) popcli_run[of a ?v i] i n unfolding release_free_def by (simp add: bnd_def run_simps)
  let ?w = "w'\<lparr>phase := (phase w')(a := Out), owned := (owned w')(a := remove1 l (owned w' a))\<rparr>"
  have L: "lock_inv w l" using linv_lock[OF assms(1) o(2)] .
  have ha: "has w a l" using o(1) by (simp add: has_def)
  have none: "\<not> has ?w b l" for b
    using L ha C(3) unfolding lock_inv_def has_def by (cases "b = a") (auto simp: w')
  have lk: "lk_locked (locks ?w ! l) = 0" "lk_cpu (locks ?w ! l) = lk_cpu (locks w ! l)" using o(2) by (simp_all add: w')
  have "lk_cpu (locks w ! l) \<noteq> Some j" for j
    using L ha assms(2) unfolding lock_inv_def has_def by metis
  moreover have "l \<notin> set (owned ?w b)" for b using none[of b] by (simp add: has_def)
  ultimately have L': "lock_inv ?w l" using none lk unfolding lock_inv_def by metis
  have "cpu_of a ?w = Some i" using cpu_of_upd[OF i, of "\<lambda>c. c\<lparr>c_ncli := c_ncli c - 1\<rparr>" a] i by (simp add: w')
  then have "cpu_inv ?w a" using C assms(2) o il n set_remove1_subset[of l "owned w a"]
    by (auto simp: cpu_inv_def w' length_remove1 of_nat_diff Suc_leI length_pos_if_in_set)
  then show ?thesis
    by (rule linv_local[OF assms(1) i, where m = l and c = "(cpus w ! i)\<lparr>c_ncli := c_ncli (cpus w ! i) - 1\<rparr>", rotated -2])
      (use L' assms(2) cpu_of_apicid[OF i] C(3) in \<open>auto simp: w' has_def\<close>)
qed

lemma linv_step: "lstep w w' \<Longrightarrow> linv w \<Longrightarrow> linv w'"
  by (induction rule: lstep.induct) (rule enter_linv spin_linv taken_linv leave_linv free_linv; assumption)+

text \<open>The state after every lock has been through \<open>initlock\<close> and before any has been taken.\<close>

definition unlocked :: "world \<Rightarrow> bool" where
  "unlocked w \<longleftrightarrow> (\<forall>a. phase w a = Out \<and> owned w a = []) \<and> (\<forall>c \<in> set (cpus w). c_ncli c = 0) \<and>
     (\<forall>k \<in> set (locks w). lk_locked k = 0 \<and> lk_cpu k = None)"

lemma unlocked_linv: "unlocked w \<Longrightarrow> linv w"
  by (auto simp: unlocked_def linv_def cpu_inv_def lock_inv_def has_def find_idx_Some_iff split: option.split)

lemma lsteps_linv: "lstep\<^sup>*\<^sup>* w w' \<Longrightarrow> linv w \<Longrightarrow> linv w'"
  by (induction rule: rtranclp_induct) (auto intro: linv_step)

text \<open>C37. However the processors are interleaved, a lock is with at most one processor from the exchange that takes
  it to the store that frees it, and that processor's interrupts are off. The owner can release the lock; taking
  it again is caught by the panic of \<open>acquire\<close>, and releasing a lock of another processor by that of \<open>release\<close>.\<close>

theorem spinlock_exclusion:
  assumes "unlocked w0" "lstep\<^sup>*\<^sup>* w0 w" "has w a l" "l < length (locks w)"
  shows "(has w b l \<longrightarrow> b = a) \<and> \<not> eflags_if w a \<and>
    (phase w a = Out \<longrightarrow> wp (release a l) (\<lambda>_ w'. lk_locked (locks w' ! l) = 0) w \<and>
      acquire a l v w = Inl (Panic ''acquire'')) \<and>
    (b \<noteq> a \<longrightarrow> cpu_of b w \<noteq> None \<longrightarrow> release b l w = Inl (Panic ''release''))"
proof -
  have inv: "linv w" using lsteps_linv[OF assms(2) unlocked_linv[OF assms(1)]] .
  note L = linv_lock[OF inv assms(4)]
  have only: "b = a" if "has w b l" for b using L assms(3) that unfolding lock_inv_def by blast
  have cpu: "cpu_inv w a" using inv by (simp add: linv_def)
  obtain i where i: "cpu_of a w = Some i"
    using cpu assms(3) by (cases "cpu_of a w") (auto simp: cpu_inv_def has_def)
  note C = linv_cpu[OF inv i]
  have n: "0 < c_ncli (cpus w ! i)" using C(1) assms(3) by (cases "owned w a") (auto simp: has_def)
  have own: "wp (release a l) (\<lambda>_ w'. lk_locked (locks w' ! l) = 0) w \<and> acquire a l v w = Inl (Panic ''acquire'')"
    if "phase w a = Out"
  proof
    have l: "l \<in> set (owned w a)" using assms(3) that by (simp add: has_def)
    show "acquire a l v w = Inl (Panic ''acquire'')"
      using linv_holding[OF inv i assms(4)] l that
      by (simp add: acquire_def bnd_def acquire_enter_run[OF linv_nested[OF inv i]])
    let ?w = "lock_upd l (\<lambda>k. k\<lparr>lk_pcs := (lk_pcs k)[0 := 0], lk_cpu := None\<rparr>) w"
    have "popcli a (lock_upd l (\<lambda>k. k\<lparr>lk_locked := 0\<rparr>) ?w) = Inr ((), set_if a (c_ncli (cpus w ! i) = 1 \<and> c_intena (cpus w ! i))
      (cpu_upd i (\<lambda>c. c\<lparr>c_ncli := c_ncli c - 1\<rparr>) (lock_upd l (\<lambda>k. k\<lparr>lk_locked := 0\<rparr>) ?w)))"
      using popcli_run[of a "lock_upd l (\<lambda>k. k\<lparr>lk_locked := 0\<rparr>) ?w" i] i n C(2) by auto
    then show "wp (release a l) (\<lambda>_ w'. lk_locked (locks w' ! l) = 0) w"
      using l that assms(4) by (simp add: release_def release_free_def bnd_def run_simps wp_def release_clear_run[OF inv i assms(4)])
  qed
  have "release b l w = Inl (Panic ''release'')" if ne: "b \<noteq> a" and known: "cpu_of b w \<noteq> None"
  proof -
    obtain j where j: "cpu_of b w = Some j" using known by auto
    have "l \<notin> set (owned w b)" using only[of b] ne by (auto simp: has_def)
    then show ?thesis by (simp add: release_def bnd_def release_clear_run[OF inv j assms(4)])
  qed
  then show ?thesis using only own n C(2) by auto
qed

definition two_cpus :: world where
  "two_cpus = \<lparr>cpus = [\<lparr>c_apicid = 0, c_ncli = 0, c_intena = False\<rparr>, \<lparr>c_apicid = 3, c_ncli = 0, c_intena = False\<rparr>],
     locks = [\<lparr>lk_locked = 0, lk_name = ''ptable'', lk_cpu = None, lk_pcs = replicate 10 0\<rparr>],
     eflags_if = (\<lambda>_. True), stack_mem = (\<lambda>_. 0), phase = (\<lambda>_. Out), owned = (\<lambda>_. [])\<rparr>"

text \<open>The second processor takes the lock while interrupts are on everywhere.\<close>

theorem spinlock_exclusion_witness:
  "\<exists>w. lstep\<^sup>*\<^sup>* two_cpus w \<and> has w 3 0 \<and> \<not> has w 0 0 \<and> \<not> eflags_if w 3 \<and> release 0 0 w = Inl (Panic ''release'')"
proof -
  let ?w1 = "(pushed 3 1 two_cpus)\<lparr>phase := (\<lambda>_. Out)(3 := Spinning 0 0)\<rparr>"
  let ?w2 = "(lock_upd 0 (\<lambda>k. k\<lparr>lk_locked := 1\<rparr>) ?w1)\<lparr>phase := (\<lambda>_. Out)(3 := Taken 0 0)\<rparr>"
  have n: "nested_ok 3 1 two_cpus" by (simp add: nested_ok_def two_cpus_def)
  have "acquire_enter 3 0 two_cpus = Inr ((), pushed 3 1 two_cpus)"
    unfolding acquire_enter_run[OF n] by (simp add: two_cpus_def)
  then have "lstep two_cpus ?w1"
    using lstep.enter[of two_cpus 3 0 "pushed 3 1 two_cpus" 0] by (simp add: two_cpus_def)
  moreover have "xchg 0 1 ?w1 = Inr (0, lock_upd 0 (\<lambda>k. k\<lparr>lk_locked := 1\<rparr>) ?w1)"
    by (simp add: xchg_def bnd_def run_simps) (simp add: two_cpus_def)
  then have "lstep ?w1 ?w2"
    using lstep.spin[of ?w1 3 0 0 0 "lock_upd 0 (\<lambda>k. k\<lparr>lk_locked := 1\<rparr>) ?w1"] by simp
  ultimately have s: "lstep\<^sup>*\<^sup>* two_cpus ?w2" by (meson converse_rtranclp_into_rtranclp r_into_rtranclp)
  have h: "has ?w2 3 0" "0 < length (locks ?w2)" "cpu_of 0 ?w2 \<noteq> None" "unlocked two_cpus"
    by (simp_all add: has_def unlocked_def pushed_cpus) (simp_all add: two_cpus_def)
  from spinlock_exclusion[OF h(4) s h(1,2), of 0] h(3) h(1) s show ?thesis by (intro exI[of _ ?w2]) auto
qed

end
