(* ===== verification/Kbd.thy ===== *)
theory Kbd
  imports Prelude
begin

text \<open>
  The keyboard driver \<^verbatim>\<open>kbd.c\<close> with the tables of \<^verbatim>\<open>kbd.h\<close>. The controller is the list of the scan codes it has
  ready; the static \<open>shift\<close> of \<open>kbdgetc\<close> is a field. Each row below is one row of sixteen codes of the tables.
\<close>

definition SHIFT :: uint where "SHIFT = 1"
definition CTL :: uint where "CTL = 2"
definition ALT :: uint where "ALT = 4"
definition CAPSLOCK :: uint where "CAPSLOCK = 8"
definition NUMLOCK :: uint where "NUMLOCK = 16"
definition SCROLLLOCK :: uint where "SCROLLLOCK = 32"
definition E0ESC :: uint where "E0ESC = 64"

definition shiftcode :: "uint \<Rightarrow> uint" where
  "shiftcode d = (if d = 0x1D \<or> d = 0x9D then CTL else if d = 0x2A \<or> d = 0x36 then SHIFT
     else if d = 0x38 \<or> d = 0xB8 then ALT else 0)"

definition togglecode :: "uint \<Rightarrow> uint" where
  "togglecode d = (if d = 0x3A then CAPSLOCK else if d = 0x45 then NUMLOCK else if d = 0x46 then SCROLLLOCK else 0)"

text \<open>The entries the three tables share: the cursor keys.\<close>

definition special_key :: "uint \<Rightarrow> uint" where
  "special_key d =
     (if d = 0xC8 then 0xE2 else if d = 0xD0 then 0xE3 else if d = 0xC9 then 0xE6 else if d = 0xD1 then 0xE7
      else if d = 0xCB then 0xE4 else if d = 0xCD then 0xE5 else if d = 0x97 then 0xE0 else if d = 0xCF then 0xE1
      else if d = 0xD2 then 0xE8 else if d = 0xD3 then 0xE9 else 0)"

definition normal_keys :: "uint list" where
  "normal_keys =
    [0, 27, 49, 50, 51, 52, 53, 54, 55, 56, 57, 48, 45, 61, 8, 9,
     113, 119, 101, 114, 116, 121, 117, 105, 111, 112, 91, 93, 10, 0, 97, 115,
     100, 102, 103, 104, 106, 107, 108, 59, 39, 96, 0, 92, 122, 120, 99, 118,
     98, 110, 109, 44, 46, 47, 0, 42, 0, 32, 0, 0, 0, 0, 0, 0,
     0, 0, 0, 0, 0, 0, 0, 55, 56, 57, 45, 52, 53, 54, 43, 49,
     50, 51, 48, 46, 0, 0, 0, 0]"

definition normalmap :: "uint \<Rightarrow> uint" where
  "normalmap d = (if unat d < length normal_keys then normal_keys ! unat d
     else if d = 0x9C then 10 else if d = 0xB5 then 47 else special_key d)"

definition shift_keys :: "uint list" where
  "shift_keys =
    [0, 27, 33, 64, 35, 36, 37, 94, 38, 42, 40, 41, 95, 43, 8, 9,
     81, 87, 69, 82, 84, 89, 85, 73, 79, 80, 123, 125, 10, 0, 65, 83,
     68, 70, 71, 72, 74, 75, 76, 58, 34, 126, 0, 124, 90, 88, 67, 86,
     66, 78, 77, 60, 62, 63, 0, 42, 0, 32, 0, 0, 0, 0, 0, 0,
     0, 0, 0, 0, 0, 0, 0, 55, 56, 57, 45, 52, 53, 54, 43, 49,
     50, 51, 48, 46, 0, 0, 0, 0]"

definition shiftmap :: "uint \<Rightarrow> uint" where
  "shiftmap d = (if unat d < length shift_keys then shift_keys ! unat d
     else if d = 0x9C then 10 else if d = 0xB5 then 47 else special_key d)"

definition ctl_keys :: "uint list" where
  "ctl_keys =
    [0, 0, 0, 0, 0, 0, 0, 0, 0, 0, 0, 0, 0, 0, 0, 0,
     17, 23, 5, 18, 20, 25, 21, 9, 15, 16, 0, 0, 13, 0, 1, 19,
     4, 6, 7, 8, 10, 11, 12, 0, 0, 0, 0, 28, 26, 24, 3, 22,
     2, 14, 13, 0, 0, 239, 0, 0]"

definition ctlmap :: "uint \<Rightarrow> uint" where
  "ctlmap d = (if unat d < length ctl_keys then ctl_keys ! unat d
     else if d = 0x9C then 13 else if d = 0xB5 then 239 else special_key d)"

definition charcode :: "uint \<Rightarrow> uint \<Rightarrow> uint" where
  "charcode k = (if k = 0 then normalmap else if k = 1 then shiftmap else ctlmap)"

record kbd =
  kbd_shift :: uint
  kbd_data :: "byte list"

definition capslock_case :: "uint \<Rightarrow> uint" where
  "capslock_case c = (if 97 \<le> c \<and> c \<le> 122 then c - 32 else if 65 \<le> c \<and> c \<le> 90 then c + 32 else c)"

definition kbdgetc :: "kbd \<Rightarrow> int \<times> kbd" where
  "kbdgetc k =
     (case kbd_data k of
        [] \<Rightarrow> (-1, k)
      | b # rest \<Rightarrow>
          let data = ucast b; shift = kbd_shift k; k = k\<lparr>kbd_data := rest\<rparr>
          in if data = 0xE0 then (0, k\<lparr>kbd_shift := shift OR E0ESC\<rparr>)
             else if data AND 0x80 \<noteq> 0 then
               let data = (if shift AND E0ESC \<noteq> 0 then data else data AND 0x7F)
               in (0, k\<lparr>kbd_shift := shift AND NOT (shiftcode data OR E0ESC)\<rparr>)
             else
               let esc = (shift AND E0ESC \<noteq> 0);
                   data = (if esc then data OR 0x80 else data);
                   shift = (if esc then shift AND NOT E0ESC else shift);
                   shift = (shift OR shiftcode data) XOR togglecode data;
                   c = charcode (shift AND (CTL OR SHIFT)) data;
                   c = (if shift AND CAPSLOCK \<noteq> 0 then capslock_case c else c)
               in (int (unat c), k\<lparr>kbd_shift := shift\<rparr>))"

text \<open>The characters \<open>consoleintr\<close> gets from the keyboard, until there is none left.\<close>

primrec kbd_drain :: "byte list \<Rightarrow> uint \<Rightarrow> int list \<times> uint" where
  "kbd_drain [] shift = ([], shift)"
| "kbd_drain (b # bs) shift =
     (case kbdgetc \<lparr>kbd_shift = shift, kbd_data = b # bs\<rparr> of (c, k) \<Rightarrow>
      case kbd_drain bs (kbd_shift k) of (cs, shift') \<Rightarrow> (c # cs, shift'))"

end
