(* ===== verification/Console.thy ===== *)
theory Console
  imports Sysfile Format Spinlock Kbd
begin

text \<open>
  The console driver \<^verbatim>\<open>console.c\<close>, with the character routines of the serial port (\<^verbatim>\<open>uart.c\<close>) and the process
  listing of \<^verbatim>\<open>proc.c\<close> it can print. The state extends that of the system calls, so that \<open>consoleread\<close> and
  \<open>consolewrite\<close> are the functions the device switch holds for the console. The screen is its memory
  and its cursor register; the serial port is the bytes sent. The loop of \<open>consoleintr\<close> runs on the characters its
  argument \<open>getc\<close> delivers before it reports that there is none.
\<close>

subsection \<open>State\<close>

definition INPUT_BUF :: nat where "INPUT_BUF = 128"
definition BACKSPACE :: int where "BACKSPACE = 256"
definition CONSOLE :: nat where "CONSOLE = 1"

record input =
  in_buf :: "byte list"
  in_r :: uint
  in_w :: uint
  in_e :: uint

record console = sys +
  panicked :: bool
  uart :: bool
  serial_out :: "byte list"
  serial_in :: "byte list"
  crt :: "nat \<Rightarrow> ushort"
  crt_pos :: nat
  input :: input
  keyboard :: kbd

subsection \<open>Output\<close>

definition uartputc :: "int \<Rightarrow> ('a console_scheme, unit) kernel" where
  "uartputc c = modify (\<lambda>s. if uart s then s\<lparr>serial_out := serial_out s @ [of_int c]\<rparr> else s)"

definition crt_put :: "nat \<Rightarrow> ushort \<Rightarrow> 'a console_scheme \<Rightarrow> 'a console_scheme" where
  "crt_put pos c s = s\<lparr>crt := (crt s)(pos := c OR 0x0700)\<rparr>"

definition crt_scroll :: "nat \<Rightarrow> 'a console_scheme \<Rightarrow> 'a console_scheme" where
  "crt_scroll pos s = s\<lparr>crt := (\<lambda>k. if pos \<le> k \<and> k < 24 * 80 then 0 else if k < 23 * 80 then crt s (k + 80) else crt s k)\<rparr>"

definition cgaputc :: "int \<Rightarrow> ('a console_scheme, unit) kernel" where
  "cgaputc c =
     bnd (fetch crt_pos) (\<lambda>pos.
     bnd (if c = 10 then ret (pos + (80 - pos mod 80))
          else if c = BACKSPACE then ret (if pos > 0 then pos - 1 else pos)
          else bnd (modify (crt_put pos (of_int c AND 0xFF))) (\<lambda>_. ret (pos + 1))) (\<lambda>pos.
     if pos > 25 * 80 then panic ''pos under/overflow''
     else bnd (if pos div 80 \<ge> 24
               then bnd (modify (crt_scroll (pos - 80))) (\<lambda>_. ret (pos - 80))
               else ret pos) (\<lambda>pos.
       modify (\<lambda>s. crt_put pos 32 (s\<lparr>crt_pos := pos\<rparr>)))))"

definition consputc :: "int \<Rightarrow> ('a console_scheme, unit) kernel" where
  "consputc c =
     bnd (fetch panicked) (\<lambda>p.
     if p then stuck Diverges
     else bnd (if c = BACKSPACE then bnd (uartputc 8) (\<lambda>_. bnd (uartputc 32) (\<lambda>_. uartputc 8)) else uartputc c) (\<lambda>_.
       cgaputc c))"

definition cprintf :: "byte list \<Rightarrow> arg list \<Rightarrow> ('a console_scheme, unit) kernel" where
  "cprintf fmt args =
     (case cprintf_loop fmt args of
        None \<Rightarrow> stuck OutOfBounds
      | Some out \<Rightarrow> for_each (\<lambda>b. consputc (int (unat b))) out)"

subsection \<open>The process listing\<close>

definition state_name :: "procstate \<Rightarrow> byte list" where
  "state_name st = cbytes (case st of UNUSED \<Rightarrow> ''unused'' | EMBRYO \<Rightarrow> ''embryo'' | SLEEPING \<Rightarrow> ''sleep ''
     | RUNNABLE \<Rightarrow> ''runble'' | RUNNING \<Rightarrow> ''run   '' | ZOMBIE \<Rightarrow> ''zombie'')"

text \<open>A string argument: the address of a static string is not null.\<close>

definition str_arg :: "byte list \<Rightarrow> arg" where
  "str_arg s = (KERNBASE, s)"

definition CONTEXT_EBP :: uint where "CONTEXT_EBP = 12"

definition procdump_one :: "proc \<Rightarrow> ('a console_scheme, unit) kernel" where
  "procdump_one p =
     whenk (p_state p \<noteq> UNUSED)
      (bnd (cprintf (cbytes ''%d %s %s'') [(of_int (p_pid p), []), str_arg (state_name (p_state p)), str_arg (p_name p)]) (\<lambda>_.
       bnd (whenk (p_state p = SLEEPING)
             (bnd (fetch (\<lambda>s. getcallerpcs (mem s) (ld32 (mem s) (p_context p + CONTEXT_EBP) + 8))) (\<lambda>pc.
              for_each (\<lambda>w. cprintf (cbytes '' %p'') [(w, [])]) (takeWhile (\<lambda>w. w \<noteq> 0) pc)))) (\<lambda>_.
       cprintf [10] [])))"

definition procdump :: "('a console_scheme, unit) kernel" where
  "procdump = bnd (fetch procs) (for_each procdump_one)"

subsection \<open>The listing of users\<close>

text \<open>\<open>str_at\<close> gives the bytes at an address: \<open>cprintf\<close> does not know the width in \<^verbatim>\<open>%-4d\<close>, takes no argument for it, and
  then takes the uid for the address of the string to print.\<close>

definition users_list_one :: "(uint \<Rightarrow> byte list) \<Rightarrow> user \<Rightarrow> ('a console_scheme, unit) kernel" where
  "users_list_one str_at u =
     cprintf (cbytes ''%-4d %-4d %s'' @ [10])
       [(of_int (u_uid u), str_at (of_int (u_uid u))), (of_int (u_gid u), str_at (of_int (u_gid u))), str_arg (u_username u)]"

definition users_list :: "(uint \<Rightarrow> byte list) \<Rightarrow> ('a console_scheme, unit) kernel" where
  "users_list str_at =
     bnd (cprintf (cbytes ''UID  GID  USERNAME'' @ [10]) []) (\<lambda>_.
     bnd (cprintf (cbytes ''---  ---  --------'' @ [10]) []) (\<lambda>_.
     bnd (fetch (\<lambda>s. filter u_active (ut_users (ut s)))) (for_each (users_list_one str_at))))"

text \<open>A line of the listing shows neither the ids nor the name.\<close>

lemma users_list_line:
  "users_list_one str_at u = for_each (\<lambda>b. consputc (int (unat b)))
     (cbytes ''%-4d %-4d '' @ arg_str (of_int (u_uid u), str_at (of_int (u_uid u))) @ [10])"
  by (simp add: users_list_one_def cprintf_def cbytes_def PERCENT_def)

subsection \<open>Input\<close>

definition in_slot :: "uint \<Rightarrow> nat" where
  "in_slot w = unat (w mod of_nat INPUT_BUF)"

definition set_input :: "(input \<Rightarrow> input) \<Rightarrow> 'a console_scheme \<Rightarrow> 'a console_scheme" where
  "set_input f s = s\<lparr>input := f (input s)\<rparr>"

text \<open>The loop that kills a line; \<open>n\<close> is the distance of \<open>e\<close> from \<open>w\<close>, which every round reduces by one.\<close>

primrec kill_line :: "nat \<Rightarrow> ('a console_scheme, unit) kernel" where
  "kill_line 0 = ret ()"
| "kill_line (Suc n) =
     bnd (fetch input) (\<lambda>i.
     whenk (in_e i \<noteq> in_w i \<and> in_buf i ! in_slot (in_e i - 1) \<noteq> 10)
       (bnd (modify (set_input (\<lambda>i. i\<lparr>in_e := in_e i - 1\<rparr>))) (\<lambda>_.
        bnd (consputc BACKSPACE) (\<lambda>_. kill_line n))))"

text \<open>One round of the loop of \<open>consoleintr\<close>.\<close>

definition consoleintr_char :: "int \<Rightarrow> ('a console_scheme, unit) kernel" where
  "consoleintr_char c =
     bnd (fetch input) (\<lambda>i.
     if c = 16 then ret ()
     else if c = 21 then kill_line (unat (in_e i - in_w i))
     else if c = 8 \<or> c = 127 then
       whenk (in_e i \<noteq> in_w i)
         (bnd (modify (set_input (\<lambda>i. i\<lparr>in_e := in_e i - 1\<rparr>))) (\<lambda>_. consputc BACKSPACE))
     else
       whenk (c \<noteq> 0 \<and> in_e i - in_r i < of_nat INPUT_BUF)
         (let c = (if c = 13 then 10 else c) in
          bnd (modify (set_input (\<lambda>i. i\<lparr>in_buf := (in_buf i)[in_slot (in_e i) := of_int c], in_e := in_e i + 1\<rparr>))) (\<lambda>_.
          bnd (consputc c) (\<lambda>_.
          bnd (fetch input) (\<lambda>i.
          whenk (c = 10 \<or> c = 4 \<or> in_e i = in_r i + of_nat INPUT_BUF)
            (bnd (modify (set_input (\<lambda>i. i\<lparr>in_w := in_e i\<rparr>))) (\<lambda>_. wakeup ChanInput)))))))"

definition consoleintr :: "int list \<Rightarrow> ('a console_scheme, unit) kernel" where
  "consoleintr cs =
     bnd (for_each consoleintr_char cs) (\<lambda>_. whenk (16 \<in> set cs) procdump)"

definition kbdintr :: "('a console_scheme, unit) kernel" where
  "kbdintr =
     bnd (fetch (\<lambda>s. kbd_drain (kbd_data (keyboard s)) (kbd_shift (keyboard s)))) (\<lambda>(cs, shift).
     bnd (modify (\<lambda>s. s\<lparr>keyboard := \<lparr>kbd_shift = shift, kbd_data = []\<rparr>\<rparr>)) (\<lambda>_. consoleintr cs))"

definition uartintr :: "('a console_scheme, unit) kernel" where
  "uartintr =
     bnd (fetch (\<lambda>s. if uart s then map (int \<circ> unat) (serial_in s) else [])) (\<lambda>cs.
     bnd (modify (\<lambda>s. if uart s then s\<lparr>serial_in := []\<rparr> else s)) (\<lambda>_. consoleintr cs))"

subsection \<open>The device functions\<close>

text \<open>Where a run of \<open>consoleread\<close> stops, with the number of bytes still wanted.\<close>

datatype cons_stop = ConsDone nat | ConsKilled | ConsBlocked nat

primrec consoleread_loop :: "nat \<Rightarrow> nat \<Rightarrow> ('a console_scheme, cons_stop \<times> byte list) kernel" where
  "consoleread_loop target 0 = ret (ConsDone 0, [])"
| "consoleread_loop target (Suc n) =
     bnd (fetch input) (\<lambda>i.
     if in_r i = in_w i then
       bnd myproc (\<lambda>p.
       bnd (fetch (\<lambda>s. p_killed (procs s ! p))) (\<lambda>killed.
       if killed then ret (ConsKilled, [])
       else bnd (sleep_enter ChanInput) (\<lambda>_. ret (ConsBlocked (Suc n), []))))
     else
       let c = in_buf i ! in_slot (in_r i) in
       bnd (modify (set_input (\<lambda>i. i\<lparr>in_r := in_r i + 1\<rparr>))) (\<lambda>_.
       if c = 4 then
         bnd (whenk (Suc n < target) (modify (set_input (\<lambda>i. i\<lparr>in_r := in_r i - 1\<rparr>)))) (\<lambda>_. ret (ConsDone (Suc n), []))
       else if c = 10 then ret (ConsDone n, [c])
       else bnd (consoleread_loop target n) (\<lambda>(r, cs). ret (r, c # cs))))"

definition consoleread :: "nat \<Rightarrow> int \<Rightarrow> ('a console_scheme, int \<times> byte list) kernel" where
  "consoleread i n =
     bnd (iunlock i) (\<lambda>_.
     bnd (consoleread_loop (nat n) (nat n)) (\<lambda>(r, cs).
     case r of
       ConsDone m \<Rightarrow> bnd (ilock i) (\<lambda>_. ret (int (nat n) - int m, cs))
     | ConsKilled \<Rightarrow> bnd (ilock i) (\<lambda>_. ret (-1, cs))
     | ConsBlocked _ \<Rightarrow> sleeps ChanInput))"

definition consolewrite :: "nat \<Rightarrow> byte list \<Rightarrow> int \<Rightarrow> ('a console_scheme, int) kernel" where
  "consolewrite i buf n =
     bnd (iunlock i) (\<lambda>_.
     bnd (for_each (\<lambda>b. consputc (int (unat b))) (take (nat n) buf)) (\<lambda>_.
     bnd (ilock i) (\<lambda>_. ret n)))"

text \<open>The device switch after \<open>consoleinit\<close>.\<close>

definition console_devsw :: "'a console_scheme devsw" where
  "console_devsw = \<lparr>dev_read = (\<lambda>major. if major = CONSOLE then Some consoleread else None),
     dev_write = (\<lambda>major. if major = CONSOLE then Some consolewrite else None)\<rparr>"

end
