(* ===== verification/Console_Spec.thy ===== *)
theory Console_Spec
  imports Console Users_Spec
begin

text \<open>
  The line discipline of the console. What the code keeps in a ring with three counters is two sequences: the
  characters of finished lines, which a reader may take, and the line being edited. The interrupt handler and
  \<open>consoleread\<close> refine editing and taking on these, and a reader sleeps only while there is no finished line.
\<close>

subsection \<open>The ring\<close>

definition ring_part :: "byte list \<Rightarrow> uint \<Rightarrow> nat \<Rightarrow> byte list" where
  "ring_part buf lo n = map (\<lambda>k. buf ! in_slot (lo + of_nat k)) [0..<n]"

definition committed :: "input \<Rightarrow> byte list" where
  "committed i = ring_part (in_buf i) (in_r i) (unat (in_w i - in_r i))"

definition pending :: "input \<Rightarrow> byte list" where
  "pending i = ring_part (in_buf i) (in_w i) (unat (in_e i - in_w i))"

definition input_inv :: "input \<Rightarrow> bool" where
  "input_inv i \<longleftrightarrow> length (in_buf i) = INPUT_BUF \<and> unat (in_w i - in_r i) + unat (in_e i - in_w i) \<le> INPUT_BUF \<and>
     10 \<notin> set (pending i)"

lemma in_slot_less: "in_slot w < INPUT_BUF"
  by (simp add: in_slot_def INPUT_BUF_def unat_mod)

lemma in_slot_add: "in_slot (w + of_nat k) = (unat w + k) mod INPUT_BUF"
proof -
  have "unat (w + of_nat k) = (unat w + k) mod 2 ^ 32"
    by (simp add: unat_word_ariths unat_of_nat mod_add_right_eq)
  moreover have "INPUT_BUF dvd 2 ^ 32" "in_slot v = unat v mod INPUT_BUF" for v
    by (simp_all add: in_slot_def INPUT_BUF_def unat_mod)
  ultimately show ?thesis by (simp add: mod_mod_cancel)
qed

lemma in_slot_inj:
  assumes "i < INPUT_BUF" "j < INPUT_BUF" "in_slot (w + of_nat i) = in_slot (w + of_nat j)"
  shows "i = j"
  using mod_shift_inj[of i INPUT_BUF j "unat w"] mod_shift_inj[of j INPUT_BUF i "unat w"] assms
  by (cases "i \<le> j") (auto simp: in_slot_add)

lemma ring_part_length [simp]: "length (ring_part buf lo n) = n"
  by (simp add: ring_part_def)

lemma ring_part_add: "ring_part buf lo (m + n) = ring_part buf lo m @ ring_part buf (lo + of_nat m) n"
  unfolding ring_part_def by (rule nth_equalityI) (auto simp: nth_append add.assoc of_nat_diff)

lemma ring_part_Suc: "ring_part buf lo (Suc n) = ring_part buf lo n @ [buf ! in_slot (lo + of_nat n)]"
  by (simp add: ring_part_def)

lemma ring_part_Cons: "ring_part buf lo (Suc n) = buf ! in_slot lo # ring_part buf (lo + 1) n"
  using ring_part_add[of buf lo 1 n] by (simp add: ring_part_def)

lemma ring_part_put:
  assumes "n < INPUT_BUF" "k \<le> n"
  shows "ring_part (buf[in_slot (lo + of_nat n) := c]) lo k = ring_part buf lo k"
  unfolding ring_part_def
proof (rule map_cong)
  fix j assume "j \<in> set [0..<k]"
  then have "in_slot (lo + of_nat j) \<noteq> in_slot (lo + of_nat n)"
    using in_slot_inj[of j n lo] assms by auto
  then show "buf[in_slot (lo + of_nat n) := c] ! in_slot (lo + of_nat j) = buf ! in_slot (lo + of_nat j)" by simp
qed simp

lemma unat_add_le: "unat (a :: uint) + unat b \<le> n \<Longrightarrow> n < 2 ^ 32 \<Longrightarrow> unat (a + b) = unat a + unat b"
  by (simp add: unat_word_ariths)

lemma input_invI:
  assumes "length (in_buf i) = INPUT_BUF" "length (committed i) + length (pending i) \<le> INPUT_BUF" "10 \<notin> set (pending i)"
  shows "input_inv i"
  using assms by (simp add: input_inv_def committed_def pending_def)

lemma input_invD:
  assumes "input_inv i"
  shows "length (in_buf i) = INPUT_BUF" "length (committed i) + length (pending i) \<le> INPUT_BUF" "10 \<notin> set (pending i)"
  using assms by (simp_all add: input_inv_def committed_def pending_def)

lemma input_span:
  assumes "length (committed i) + length (pending i) \<le> INPUT_BUF"
  shows "unat (in_e i - in_r i) = length (committed i) + length (pending i)"
    "in_w i = in_r i + of_nat (length (committed i))" "in_e i = in_r i + of_nat (length (committed i) + length (pending i))"
proof -
  have "in_e i - in_r i = (in_w i - in_r i) + (in_e i - in_w i)" by simp
  then show l: "unat (in_e i - in_r i) = length (committed i) + length (pending i)"
    using assms unat_add_le[of "in_w i - in_r i" "in_e i - in_w i" INPUT_BUF]
    by (simp add: committed_def pending_def INPUT_BUF_def)
  show "in_w i = in_r i + of_nat (length (committed i))" by (simp add: committed_def)
  show "in_e i = in_r i + of_nat (length (committed i) + length (pending i))"
    unfolding l[symmetric] by simp
qed

lemmas input_inv_span = input_span[OF input_invD(2)]

lemma ring_full: "input_inv i \<Longrightarrow> in_e i - in_r i < of_nat INPUT_BUF \<longleftrightarrow> length (committed i) + length (pending i) < INPUT_BUF"
  using input_inv_span(1)[of i] by (simp add: word_less_nat_alt INPUT_BUF_def)

lemma nothing_pending: "in_e i = in_w i \<longleftrightarrow> pending i = []"
proof -
  have "pending i = [] \<longleftrightarrow> unat (in_e i - in_w i) = 0" by (metis length_0_conv pending_def ring_part_length)
  then show ?thesis by (simp add: unat_eq_0)
qed

lemma nothing_committed: "in_r i = in_w i \<longleftrightarrow> committed i = []"
proof -
  have "committed i = [] \<longleftrightarrow> unat (in_w i - in_r i) = 0" by (metis length_0_conv committed_def ring_part_length)
  then show ?thesis by (auto simp: unat_eq_0)
qed

text \<open>The four changes of the counters.\<close>

lemma input_put:
  fixes c :: byte
  assumes "input_inv i" "length (committed i) + length (pending i) < INPUT_BUF"
  defines "j \<equiv> i\<lparr>in_buf := (in_buf i)[in_slot (in_e i) := c], in_e := in_e i + 1\<rparr>"
  shows "committed j = committed i" "pending j = pending i @ [c]"
proof -
  let ?l = "length (committed i)" and ?p = "length (pending i)"
  note sp = input_inv_span[OF assms(1)]
  have e: "in_e i = in_w i + of_nat ?p" unfolding sp(2) by (subst sp(3)) simp
  have p: "unat (in_e i + 1 - in_w i) = Suc ?p"
    using assms(2) unat_diff_Suc[of "in_e i" "in_w i"] by (simp add: pending_def INPUT_BUF_def)
  have sl: "in_slot (in_e i) < length (in_buf i)" using in_slot_less assms(1) by (simp add: input_inv_def)
  have "ring_part ((in_buf i)[in_slot (in_r i + of_nat (?l + ?p)) := c]) (in_r i) ?l = ring_part (in_buf i) (in_r i) ?l"
    by (rule ring_part_put) (use assms(2) in simp_all)
  then show "committed j = committed i" unfolding sp(3)[symmetric] by (simp add: committed_def j_def)
  have "ring_part ((in_buf i)[in_slot (in_w i + of_nat ?p) := c]) (in_w i) ?p = ring_part (in_buf i) (in_w i) ?p"
    by (rule ring_part_put) (use assms(2) in simp_all)
  then have "ring_part ((in_buf i)[in_slot (in_e i) := c]) (in_w i) (Suc ?p) = pending i @ [c]"
    unfolding e[symmetric] ring_part_Suc using sl by (simp add: pending_def)
  then show "pending j = pending i @ [c]" using p unfolding pending_def[of j] by (simp add: j_def)
qed

lemma input_erase:
  assumes "input_inv i" "pending i \<noteq> []"
  defines "j \<equiv> i\<lparr>in_e := in_e i - 1\<rparr>"
  shows "committed j = committed i" "pending j = butlast (pending i)" "in_buf i ! in_slot (in_e i - 1) = last (pending i)"
proof -
  let ?n = "unat (in_e i - 1 - in_w i)"
  have "in_e i - in_w i \<noteq> 0" using assms(2) nothing_pending[of i] by simp
  then have n: "unat (in_e i - in_w i) = Suc ?n"
    using unat_pred[of "in_e i - in_w i"] by (simp add: algebra_simps unat_gt_0)
  have p: "pending i = ring_part (in_buf i) (in_w i) ?n @ [in_buf i ! in_slot (in_e i - 1)]"
    unfolding pending_def n ring_part_Suc by simp
  then show "in_buf i ! in_slot (in_e i - 1) = last (pending i)" by simp
  show "pending j = butlast (pending i)" using p unfolding pending_def[of j] by (simp add: j_def)
  show "committed j = committed i" by (simp add: committed_def j_def)
qed

lemma input_commit:
  assumes "length (committed i) + length (pending i) \<le> INPUT_BUF"
  defines "j \<equiv> i\<lparr>in_w := in_e i\<rparr>"
  shows "committed j = committed i @ pending i" "pending j = []"
proof -
  let ?l = "length (committed i)" and ?p = "length (pending i)"
  have "committed j = ring_part (in_buf i) (in_r i) (?l + ?p)"
    using input_span(1)[OF assms(1)] unfolding committed_def[of j] by (simp add: j_def)
  also have "\<dots> = committed i @ pending i"
    unfolding ring_part_add input_span(2)[OF assms(1), symmetric] by (simp add: committed_def pending_def)
  finally show "committed j = committed i @ pending i" .
  show "pending j = []" using nothing_pending[of j] by (simp add: j_def)
qed

lemma input_take:
  assumes "committed i \<noteq> []"
  defines "j \<equiv> i\<lparr>in_r := in_r i + 1\<rparr>"
  shows "committed i = in_buf i ! in_slot (in_r i) # committed j" "pending j = pending i"
proof -
  let ?n = "unat (in_w i - (in_r i + 1))"
  have "in_w i - in_r i \<noteq> 0" using assms(1) nothing_committed[of i] by auto
  then have n: "unat (in_w i - in_r i) = Suc ?n"
    using unat_pred[of "in_w i - in_r i"] by (simp add: algebra_simps unat_gt_0)
  show "committed i = in_buf i ! in_slot (in_r i) # committed j"
    unfolding committed_def n ring_part_Cons by (simp add: j_def)
  show "pending j = pending i" by (simp add: pending_def j_def)
qed

subsection \<open>The screen\<close>

text \<open>The cursor is never in the last row, so \<open>cgaputc\<close> does not panic.\<close>

definition screen_ok :: "'a console_scheme \<Rightarrow> bool" where
  "screen_ok s \<longleftrightarrow> \<not> panicked s \<and> crt_pos s < 24 * 80"

definition output_frame :: "'a console_scheme \<Rightarrow> 'a console_scheme \<Rightarrow> bool" where
  "output_frame s s' \<longleftrightarrow> screen_ok s' \<and> input s' = input s \<and> procs s' = procs s \<and> cur_proc s' = cur_proc s"

lemma output_frame_trans: "output_frame s t \<Longrightarrow> output_frame t u \<Longrightarrow> output_frame s u"
  by (simp add: output_frame_def)

lemma crt_sel [simp]:
  "panicked (crt_put k c s) = panicked s" "input (crt_put k c s) = input s" "procs (crt_put k c s) = procs s"
  "cur_proc (crt_put k c s) = cur_proc s" "crt_pos (crt_put k c s) = crt_pos s"
  "panicked (crt_scroll k s) = panicked s" "input (crt_scroll k s) = input s" "procs (crt_scroll k s) = procs s"
  "cur_proc (crt_scroll k s) = cur_proc s"
  by (simp_all add: crt_put_def crt_scroll_def)

lemma newline_pos: "pos < 24 * 80 \<Longrightarrow> pos + (80 - pos mod 80) \<le> 24 * (80 :: nat)"
proof -
  assume "pos < 24 * 80"
  then have "pos div 80 < 24" by (simp add: less_mult_imp_div_less)
  moreover have "pos = 80 * (pos div 80) + pos mod 80" "pos mod 80 < 80" by simp_all
  ultimately show ?thesis by linarith
qed

lemma cgaputc_rule:
  assumes "screen_ok s"
  shows "wp (cgaputc c) (\<lambda>_. output_frame s) s"
proof -
  have p: "crt_pos s + (80 - crt_pos s mod 80) \<le> 24 * 80" "crt_pos s + 1 \<le> 24 * 80" "(if crt_pos s > 0 then crt_pos s - 1 else crt_pos s) \<le> 24 * 80"
    using assms newline_pos[of "crt_pos s"] by (auto simp: screen_ok_def)
  have d: "pos div 80 < 24 \<Longrightarrow> pos < 1920" for pos :: nat by linarith
  show ?thesis
    using p assms unfolding cgaputc_def wp_bnd_fetch
    by (intro wp_bndI[where P = "\<lambda>pos t. pos \<le> 24 * 80 \<and> \<not> panicked t \<and> input t = input s \<and> procs t = procs s \<and> cur_proc t = cur_proc s"])
      (auto simp: wp_simps screen_ok_def output_frame_def not_le intro: d)
qed

lemma uartputc_rule:
  assumes "screen_ok s"
  shows "wp (uartputc c) (\<lambda>_. output_frame s) s"
  using assms by (simp add: uartputc_def wp_simps output_frame_def screen_ok_def)

lemma output_bnd:
  assumes "wp f (\<lambda>_. output_frame s) s" "\<And>t. screen_ok t \<Longrightarrow> wp g (\<lambda>_. output_frame t) t"
  shows "wp (bnd f (\<lambda>_. g)) (\<lambda>_. output_frame s) s"
proof (rule wp_bndI[OF assms(1)])
  fix t assume t: "output_frame s t"
  then have "screen_ok t" by (simp add: output_frame_def)
  then show "wp g (\<lambda>_. output_frame s) t"
    by (rule wp_mono[OF assms(2)]) (rule output_frame_trans[OF t])
qed

lemma consputc_rule:
  assumes "screen_ok s"
  shows "wp (consputc c) (\<lambda>_. output_frame s) s"
proof -
  have "\<not> panicked s" using assms by (simp add: screen_ok_def)
  then show ?thesis
    unfolding consputc_def wp_bnd_fetch using assms
    by (auto intro!: output_bnd cgaputc_rule uartputc_rule)
qed

lemma output_for_each:
  assumes "\<And>x t. x \<in> set xs \<Longrightarrow> screen_ok t \<Longrightarrow> wp (f x) (\<lambda>_. output_frame t) t" "screen_ok s"
  shows "wp (for_each f xs) (\<lambda>_. output_frame s) s"
  using assms
proof (induction xs arbitrary: s)
  case Nil
  then show ?case by (simp add: wp_simps output_frame_def)
next
  case (Cons x xs)
  then show ?case by (simp) (rule output_bnd, simp_all)
qed

lemma cprintf_rule: "screen_ok s \<Longrightarrow> cprintf_loop fmt args = Some out \<Longrightarrow> wp (cprintf fmt args) (\<lambda>_. output_frame s) s"
  unfolding cprintf_def by (simp add: output_for_each consputc_rule)

lemma output_whenk: "(b \<Longrightarrow> wp f (\<lambda>_. output_frame s) s) \<Longrightarrow> screen_ok s \<Longrightarrow> wp (whenk b f) (\<lambda>_. output_frame s) s"
  by (simp add: wp_simps output_frame_def)

lemma procdump_one_rule:
  assumes "screen_ok s"
  shows "wp (procdump_one p) (\<lambda>_. output_frame s) s"
proof -
  have f: "cprintf_loop (cbytes ''%d %s %s'') [a, b, c] = Some (printint (fst a) 10 True @ 32 # arg_str b @ 32 # arg_str c)" for a b c
    by (simp add: cbytes_def PERCENT_def)
  have g: "cprintf_loop (cbytes '' %p'') [a] = Some (32 # printint (fst a) 16 False)" for a
    by (simp add: cbytes_def PERCENT_def)
  have h: "cprintf_loop [10] [] = Some [10]" by (simp add: PERCENT_def)
  have "wp (bnd (fetch (\<lambda>s. getcallerpcs (mem s) (ld32 (mem s) (p_context p + CONTEXT_EBP) + 8))) (\<lambda>pc.
      for_each (\<lambda>w. cprintf (cbytes '' %p'') [(w, [])]) (takeWhile (\<lambda>w. w \<noteq> 0) pc))) (\<lambda>_. output_frame t) t"
    if "screen_ok t" for t :: "'a console_scheme"
    unfolding wp_bnd_fetch by (rule output_for_each) (auto intro!: cprintf_rule g that)
  then show ?thesis
    unfolding procdump_one_def using assms by (intro output_whenk output_bnd cprintf_rule[OF _ f] cprintf_rule[OF _ h])
qed

lemma procdump_rule: "screen_ok s \<Longrightarrow> wp procdump (\<lambda>_. output_frame s) s"
  unfolding procdump_def wp_bnd_fetch by (rule output_for_each) (auto intro: procdump_one_rule)

subsection \<open>Editing a line\<close>

text \<open>The two sequences, and what a character does to them.\<close>

definition lines :: "input \<Rightarrow> byte list \<times> byte list" where
  "lines i = (committed i, pending i)"

definition edit :: "int \<Rightarrow> byte list \<times> byte list \<Rightarrow> byte list \<times> byte list" where
  "edit c = (\<lambda>(done, line).
     if c = 16 \<or> c = 0 then (done, line)
     else if c = 21 then (done, [])
     else if c = 8 \<or> c = 127 then (done, butlast line)
     else if length done + length line < INPUT_BUF then
       let b = (if c = 13 then 10 else of_int c) :: byte
       in if b = 10 \<or> b = 4 \<or> Suc (length done + length line) = INPUT_BUF then (done @ line @ [b], []) else (done, line @ [b])
     else (done, line))"

definition console_ok :: "'a console_scheme \<Rightarrow> bool" where
  "console_ok s \<longleftrightarrow> screen_ok s \<and> input_inv (input s) \<and> (waiting ChanInput s \<longrightarrow> committed (input s) = [])"

lemma set_input_sel [simp]:
  "input (set_input f s) = f (input s)" "procs (set_input f s) = procs s" "cur_proc (set_input f s) = cur_proc s"
  "screen_ok (set_input f s) = screen_ok s" "waiting c (set_input f s) = waiting c s"
  by (simp_all add: set_input_def screen_ok_def waiting_def)

lemma console_ok_output: "output_frame s s' \<Longrightarrow> console_ok s \<Longrightarrow> console_ok s' \<and> input s' = input s"
  by (simp add: output_frame_def console_ok_def waiting_def)

lemma console_ok_erase:
  assumes "console_ok s" "pending (input s) \<noteq> []"
  defines "t \<equiv> set_input (\<lambda>i. i\<lparr>in_e := in_e i - 1\<rparr>) s"
  shows "console_ok t" "committed (input t) = committed (input s)" "pending (input t) = butlast (pending (input s))"
proof -
  have inv: "input_inv (input s)" using assms(1) by (simp add: console_ok_def)
  note E = input_erase[OF inv assms(2)] and D = input_invD[OF inv]
  show l: "committed (input t) = committed (input s)" "pending (input t) = butlast (pending (input s))"
    using E by (simp_all add: t_def)
  have "10 \<notin> set (pending (input t))" using D(3) l(2) by (auto dest: in_set_butlastD)
  moreover have "length (in_buf (input t)) = INPUT_BUF" using D(1) by (simp add: t_def)
  ultimately have "input_inv (input t)" using D(2) l by (intro input_invI) simp_all
  then show "console_ok t" using assms(1) l(1) by (simp add: console_ok_def t_def)
qed

lemma kill_line_rule:
  assumes "console_ok s" "length (pending (input s)) = n"
  shows "wp (kill_line n) (\<lambda>_ s'. console_ok s' \<and> lines (input s') = (committed (input s), [])) s"
  using assms
proof (induction n arbitrary: s)
  case 0
  then show ?case by (simp add: wp_simps lines_def)
next
  case (Suc n)
  let ?t = "set_input (\<lambda>i. i\<lparr>in_e := in_e i - 1\<rparr>) s"
  have ne: "pending (input s) \<noteq> []" using Suc.prems(2) by auto
  have inv: "input_inv (input s)" using Suc.prems(1) by (simp add: console_ok_def)
  note T = console_ok_erase[OF Suc.prems(1) ne]
  have "last (pending (input s)) \<noteq> 10" using input_invD(3)[OF inv] last_in_set[OF ne] by auto
  then have g: "in_e (input s) \<noteq> in_w (input s) \<and> in_buf (input s) ! in_slot (in_e (input s) - 1) \<noteq> 10"
    using ne nothing_pending[of "input s"] input_erase(3)[OF inv ne] by simp
  have "screen_ok ?t" using T(1) by (simp add: console_ok_def)
  then have "wp (bnd (consputc BACKSPACE) (\<lambda>_. kill_line n)) (\<lambda>_ s'. console_ok s' \<and> lines (input s') = (committed (input s), [])) ?t"
  proof (rule wp_bndI[OF consputc_rule])
    fix u assume "output_frame ?t u"
    then have u: "console_ok u" "input u = input ?t" using console_ok_output T(1) by blast+
    show "wp (kill_line n) (\<lambda>_ s'. console_ok s' \<and> lines (input s') = (committed (input s), [])) u"
      using Suc.IH[OF u(1)] Suc.prems(2) T(2,3) unfolding u(2) by simp
  qed
  then show ?case using g by (simp add: wp_simps)
qed

lemma console_ok_put:
  assumes "console_ok s" "length (committed (input s)) + length (pending (input s)) < INPUT_BUF" "b \<noteq> 10"
  defines "t \<equiv> set_input (\<lambda>i. i\<lparr>in_buf := (in_buf i)[in_slot (in_e i) := b], in_e := in_e i + 1\<rparr>) s"
  shows "console_ok t"
proof -
  have inv: "input_inv (input s)" using assms(1) by (simp add: console_ok_def)
  note P = input_put[OF inv assms(2), of b] and D = input_invD[OF inv]
  have "input_inv (input t)" by (rule input_invI) (use P D assms(2,3) in \<open>simp_all add: t_def\<close>)
  then show ?thesis using assms(1) P by (simp add: console_ok_def t_def)
qed

text \<open>The end of a line hands all its characters to the readers and wakes them.\<close>

lemma console_ok_commit:
  assumes "screen_ok s" "length (in_buf (input s)) = INPUT_BUF" "length (committed (input s)) + length (pending (input s)) \<le> INPUT_BUF"
  defines "t \<equiv> wakeup1 ChanInput (set_input (\<lambda>i. i\<lparr>in_w := in_e i\<rparr>) s)"
  shows "console_ok t" "lines (input t) = (committed (input s) @ pending (input s), [])"
proof -
  note C = input_commit[OF assms(3)]
  have i: "input t = (input s)\<lparr>in_w := in_e (input s)\<rparr>" by (simp add: t_def wakeup1_def)
  show "lines (input t) = (committed (input s) @ pending (input s), [])" unfolding lines_def i using C by simp
  have "input_inv (input t)" unfolding i by (rule input_invI) (use C assms(2,3) in simp_all)
  moreover have "screen_ok t" using assms(1) by (simp add: t_def wakeup1_def screen_ok_def set_input_def)
  ultimately show "console_ok t" by (simp add: console_ok_def t_def waiting_wakeup1)
qed

lemma consoleintr_store:
  assumes "console_ok s" "length (committed (input s)) + length (pending (input s)) < INPUT_BUF"
    "c = 10 \<longleftrightarrow> (of_int c :: byte) = 10" "c = 4 \<longleftrightarrow> (of_int c :: byte) = 4"
  defines "b \<equiv> of_int c :: byte"
  defines "put \<equiv> set_input (\<lambda>i. i\<lparr>in_buf := (in_buf i)[in_slot (in_e i) := of_int c], in_e := in_e i + 1\<rparr>)"
  shows "wp (bnd (modify put) (\<lambda>_. bnd (consputc c) (\<lambda>_. bnd (fetch input) (\<lambda>i.
      whenk (c = 10 \<or> c = 4 \<or> in_e i = in_r i + of_nat INPUT_BUF)
        (bnd (modify (set_input (\<lambda>i. i\<lparr>in_w := in_e i\<rparr>))) (\<lambda>_. wakeup ChanInput))))))
    (\<lambda>_ s'. console_ok s' \<and> lines (input s') =
      (if b = 10 \<or> b = 4 \<or> Suc (length (committed (input s)) + length (pending (input s))) = INPUT_BUF
       then (committed (input s) @ pending (input s) @ [b], []) else (committed (input s), pending (input s) @ [b]))) s"
    (is "wp (bnd _ (\<lambda>_. bnd _ (\<lambda>_. ?g))) ?Q s")
proof -
  let ?t = "put s" and ?l = "committed (input s)" and ?p = "pending (input s)"
  have inv: "input_inv (input s)" "screen_ok ?t" using assms(1) by (simp_all add: console_ok_def put_def)
  have P: "committed (input ?t) = ?l" "pending (input ?t) = ?p @ [b]"
    using input_put[OF inv(1) assms(2), of b] by (simp_all add: put_def b_def)
  have len: "length (in_buf (input ?t)) = INPUT_BUF" "length (committed (input ?t)) + length (pending (input ?t)) \<le> INPUT_BUF"
    using input_invD(1)[OF inv(1)] P assms(2) by (simp_all add: put_def)
  have full: "in_e (input ?t) = in_r (input ?t) + of_nat INPUT_BUF \<longleftrightarrow> Suc (length ?l + length ?p) = INPUT_BUF"
  proof -
    have "in_e (input ?t) = in_r (input ?t) + of_nat INPUT_BUF \<longleftrightarrow> in_e (input ?t) - in_r (input ?t) = of_nat INPUT_BUF"
      by (auto simp: diff_eq_eq add.commute)
    also have "\<dots> \<longleftrightarrow> unat (in_e (input ?t) - in_r (input ?t)) = INPUT_BUF"
      by (subst word_unat_eq_iff) (simp add: INPUT_BUF_def)
    finally show ?thesis unfolding input_span(1)[OF len(2)] P by simp
  qed
  have "wp (bnd (consputc c) (\<lambda>_. ?g)) ?Q ?t"
  proof (rule wp_bndI[OF consputc_rule[OF inv(2)]])
    fix u assume u: "output_frame ?t u"
    then have ui: "input u = input ?t" "screen_ok u" by (simp_all add: output_frame_def)
    have ok: "console_ok u" if "b \<noteq> 10"
      using console_ok_output[OF u] console_ok_put[OF assms(1,2) that] by (simp add: put_def b_def)
    have commit: "console_ok (wakeup1 ChanInput (set_input (\<lambda>i. i\<lparr>in_w := in_e i\<rparr>) u)) \<and>
      lines (input (wakeup1 ChanInput (set_input (\<lambda>i. i\<lparr>in_w := in_e i\<rparr>) u))) = (?l @ ?p @ [b], [])"
      using console_ok_commit[of u] len P ui by simp
    show "wp ?g ?Q u"
      using commit ok full P assms(3,4) by (auto simp: wp_simps ui(1) lines_def b_def[symmetric])
  qed
  then show ?thesis by (simp add: wp_simps)
qed

lemma of_int_byte_eq: "0 \<le> c \<Longrightarrow> c < 256 \<Longrightarrow> 0 \<le> d \<Longrightarrow> d < 256 \<Longrightarrow> (of_int c :: byte) = of_int d \<longleftrightarrow> c = d"
  by (simp add: word_of_int_eq_iff take_bit_int_eq_self)

lemma consoleintr_char_rule:
  assumes "console_ok s" "0 \<le> c" "c < 256"
  shows "wp (consoleintr_char c) (\<lambda>_ s'. console_ok s' \<and> lines (input s') = edit c (lines (input s))) s"
proof -
  have inv: "input_inv (input s)" using assms(1) by (simp add: console_ok_def)
  consider "c = 16" | "c = 21" | "c = 8 \<or> c = 127" | "c = 0" | "c \<notin> {16, 21, 8, 127, 0}" by auto
  then show ?thesis
  proof cases
    case 2
    have "length (pending (input s)) = unat (in_e (input s) - in_w (input s))" by (simp add: pending_def)
    then show ?thesis using kill_line_rule[OF assms(1)] 2
      unfolding consoleintr_char_def wp_bnd_fetch by (simp add: edit_def lines_def)
  next
    case 3
    show ?thesis
    proof (cases "pending (input s) = []")
      case True
      then show ?thesis using 3 assms(1) nothing_pending[of "input s"]
        unfolding consoleintr_char_def wp_bnd_fetch by (auto simp: edit_def lines_def wp_simps)
    next
      case False
      let ?t = "set_input (\<lambda>i. i\<lparr>in_e := in_e i - 1\<rparr>) s"
      note T = console_ok_erase[OF assms(1) False]
      have "screen_ok ?t" using T(1) by (simp add: console_ok_def)
      then have "wp (consputc BACKSPACE) (\<lambda>_ s'. console_ok s' \<and> lines (input s') = edit c (lines (input s))) ?t"
      proof (rule wp_mono[OF consputc_rule])
        fix u assume "output_frame ?t u"
        then have "console_ok u" "input u = input ?t" using console_ok_output T(1) by blast+
        moreover have "edit c (lines (input s)) = (committed (input s), butlast (pending (input s)))"
          using 3 by (auto simp: edit_def lines_def)
        ultimately show "console_ok u \<and> lines (input u) = edit c (lines (input s))" using T(2,3) by (simp only: lines_def)
      qed
      moreover have "in_e (input s) \<noteq> in_w (input s)" using False nothing_pending[of "input s"] by simp
      moreover have "c \<noteq> 16" "c \<noteq> 21" using 3 by auto
      ultimately show ?thesis using 3 by (simp add: consoleintr_char_def wp_simps)
    qed
  next
    case 5
    let ?c = "if c = 13 then 10 else c"
    have b: "?c = 10 \<longleftrightarrow> (of_int ?c :: byte) = 10" "?c = 4 \<longleftrightarrow> (of_int ?c :: byte) = 4"
      using assms(2,3) of_int_byte_eq[of ?c 10] of_int_byte_eq[of ?c 4] by auto
    have g: "c \<noteq> 16" "c \<noteq> 21" "\<not> (c = 8 \<or> c = 127)" "c \<noteq> 0" using 5 by auto
    show ?thesis
    proof (cases "length (committed (input s)) + length (pending (input s)) < INPUT_BUF")
      case True
      then have t: "c \<noteq> 0 \<and> in_e (input s) - in_r (input s) < of_nat INPUT_BUF" using g ring_full[OF inv] by simp
      have e: "edit c (lines (input s)) = (let b = of_int ?c :: byte in
        if b = 10 \<or> b = 4 \<or> Suc (length (committed (input s)) + length (pending (input s))) = INPUT_BUF
        then (committed (input s) @ pending (input s) @ [b], []) else (committed (input s), pending (input s) @ [b]))"
        using g True by (simp add: edit_def lines_def Let_def)
      show ?thesis
        unfolding consoleintr_char_def wp_bnd_fetch if_not_P[OF g(1)] if_not_P[OF g(2)] if_not_P[OF g(3)] wp_whenk if_P[OF t] Let_def e
        by (rule consoleintr_store[OF assms(1) True b])
    next
      case False
      then have t: "\<not> (c \<noteq> 0 \<and> in_e (input s) - in_r (input s) < of_nat INPUT_BUF)" using ring_full[OF inv] by simp
      show ?thesis
        unfolding consoleintr_char_def wp_bnd_fetch if_not_P[OF g(1)] if_not_P[OF g(2)] if_not_P[OF g(3)] wp_whenk if_not_P[OF t]
        using g False assms(1) by (simp add: edit_def lines_def)
    qed
  qed (use assms(1) in \<open>simp_all add: consoleintr_char_def wp_simps edit_def lines_def\<close>)
qed

lemma consoleintr_chars_rule:
  fixes s :: "'a console_scheme"
  assumes "console_ok s" "\<And>c. c \<in> set cs \<Longrightarrow> 0 \<le> c \<and> c < 256"
  shows "wp (for_each consoleintr_char cs) (\<lambda>_ s'. console_ok s' \<and> lines (input s') = fold edit cs (lines (input s))) s"
  using assms
proof (induction cs arbitrary: s)
  case Nil
  then show ?case by (simp add: wp_simps)
next
  case (Cons c cs)
  have "0 \<le> c" "c < 256" using Cons.prems(2)[of c] by simp_all
  then show ?case unfolding for_each.simps
  proof (rule wp_bndI[OF consoleintr_char_rule[OF Cons.prems(1)]], elim conjE)
    fix t :: "'a console_scheme" assume t: "console_ok t" "lines (input t) = edit c (lines (input s))"
    show "wp (for_each consoleintr_char cs) (\<lambda>_ s'. console_ok s' \<and> lines (input s') = fold edit (c # cs) (lines (input s))) t"
      using Cons.IH[OF t(1)] Cons.prems(2) t(2) by simp
  qed
qed

lemma consoleintr_rule:
  fixes s :: "'a console_scheme"
  assumes "console_ok s" "\<And>c. c \<in> set cs \<Longrightarrow> 0 \<le> c \<and> c < 256"
  shows "wp (consoleintr cs) (\<lambda>_ s'. console_ok s' \<and> lines (input s') = fold edit cs (lines (input s))) s"
  unfolding consoleintr_def
proof (rule wp_bndI[OF consoleintr_chars_rule[OF assms]], simp, elim conjE)
  fix t :: "'a console_scheme" assume t: "console_ok t" "lines (input t) = fold edit cs (lines (input s))"
  then have sc: "screen_ok t" by (simp add: console_ok_def)
  have "wp (whenk (16 \<in> set cs) procdump) (\<lambda>_. output_frame t) t" by (intro output_whenk procdump_rule sc)
  then show "wp (whenk (16 \<in> set cs) procdump) (\<lambda>_ s'. console_ok s' \<and> lines (input s') = fold edit cs (lines (input s))) t"
    by (rule wp_mono) (use console_ok_output[OF _ t(1)] t(2) in simp)
qed

subsection \<open>Reading a line\<close>

text \<open>What a reader of \<open>n\<close> bytes takes: up to the end of a line, or up to an end-of-file character, which is left for
  the next reader unless nothing precedes it. \<open>None\<close> when there is not enough.\<close>

fun take_line :: "bool \<Rightarrow> nat \<Rightarrow> byte list \<Rightarrow> (byte list \<times> byte list) option" where
  "take_line some 0 l = Some ([], l)"
| "take_line some (Suc n) [] = None"
| "take_line some (Suc n) (c # l) =
     (if c = 4 then Some ([], if some then c # l else l)
      else if c = 10 then Some ([c], l)
      else map_option (\<lambda>(bs, r). (c # bs, r)) (take_line True n l))"

lemma console_ok_take:
  assumes "console_ok s" "committed (input s) = c # l"
  defines "t \<equiv> set_input (\<lambda>i. i\<lparr>in_r := in_r i + 1\<rparr>) s"
  shows "console_ok t" "committed (input t) = l" "pending (input t) = pending (input s)"
    "in_buf (input s) ! in_slot (in_r (input s)) = c" "in_r (input s) \<noteq> in_w (input s)"
proof -
  have inv: "input_inv (input s)" using assms(1) by (simp add: console_ok_def)
  note D = input_invD[OF inv]
  have ne: "committed (input s) \<noteq> []" using assms(2) by simp
  show "in_r (input s) \<noteq> in_w (input s)" using ne nothing_committed by blast
  show l: "committed (input t) = l" "pending (input t) = pending (input s)" "in_buf (input s) ! in_slot (in_r (input s)) = c"
    using input_take[OF ne] assms(2) by (simp_all add: t_def)
  have "input_inv (input t)" by (rule input_invI) (use D l assms(2) in \<open>simp_all add: t_def\<close>)
  then show "console_ok t" using assms(1,2) by (simp add: console_ok_def t_def)
qed

lemma consoleread_rule:
  assumes "console_ok s" "n \<le> target" "take_line (n < target) n (committed (input s)) = Some (bs, l)"
  shows "wp (consoleread_loop target n) (\<lambda>r s'. r = (ConsDone (n - length bs), bs) \<and> console_ok s' \<and>
    lines (input s') = (l, pending (input s))) s"
  using assms
proof (induction n arbitrary: s bs)
  case 0
  then show ?case by (simp add: wp_simps lines_def)
next
  case (Suc n)
  then obtain c k where ck: "committed (input s) = c # k" by (cases "committed (input s)") auto
  let ?t = "set_input (\<lambda>i. i\<lparr>in_r := in_r i + 1\<rparr>) s"
  note T = console_ok_take[OF Suc.prems(1) ck]
  show ?case
  proof (cases "c = 4 \<or> c = 10")
    case True
    have "set_input (\<lambda>i. i\<lparr>in_r := in_r i - 1\<rparr>) ?t = s" by (simp add: set_input_def)
    then show ?thesis using True Suc.prems T ck by (auto simp: wp_simps Let_def lines_def split: if_splits)
  next
    case False
    obtain bs' where b: "bs = c # bs'" "take_line True n k = Some (bs', l)"
      using Suc.prems(3) False ck by auto
    have "wp (consoleread_loop target n) (\<lambda>r s'. r = (ConsDone (n - length bs'), bs') \<and> console_ok s' \<and>
      lines (input s') = (l, pending (input ?t))) ?t"
      using Suc.prems(2) b(2) T(2) by (intro Suc.IH[OF T(1)]) simp_all
    then have "wp (bnd (consoleread_loop target n) (\<lambda>(r, cs). ret (r, c # cs))) (\<lambda>r s'. r = (ConsDone (Suc n - length bs), bs) \<and> console_ok s' \<and>
      lines (input s') = (l, pending (input s))) ?t"
      by (rule wp_bndI) (use b(1) T(3) in \<open>auto simp: wp_simps\<close>)
    then show ?thesis using False T(4,5) by (simp add: wp_simps Let_def)
  qed
qed


text \<open>The characters \<open>h i, backspace, o\<close> and a carriage return, on a console whose counters are about to wrap.\<close>

definition console_example :: "console" where
  "console_example = sys.extend (sys_example 0)
     (console.fields False True [] [] (\<lambda>_. 0) 0
       \<lparr>in_buf = replicate INPUT_BUF 0, in_r = - 2, in_w = - 2, in_e = - 2\<rparr> \<lparr>kbd_shift = 0, kbd_data = []\<rparr>)"


end
