(* ===== verification/Sh.thy ===== *)
theory Sh
  imports Format Sysfile
begin

text \<open>
  The parser of the shell \<^verbatim>\<open>sh.c\<close>. The command line is a buffer with its terminating NUL at the index \<open>es\<close>, a pointer
  into it an index, and a string of the parse tree a pair of indices, as in the code, where \<open>nulterminate\<close> later writes
  a NUL at each end. The parsing functions return the tree and the index reached, or stop with the message of a
  \<open>panic\<close>. The functions that call each other recursively take fuel; \<open>parsecmd\<close> gives them enough for every line.
\<close>

subsection \<open>Characters and tokens\<close>

definition MAXARGS :: nat where "MAXARGS = 10"

definition whitespace :: "byte list" where
  "whitespace = [32, 9, 13, 10, 11]"

definition symbols :: "byte list" where
  "symbols = cbytes ''<|>&;()''"

definition in_str :: "byte list \<Rightarrow> byte \<Rightarrow> bool" where
  "in_str toks c \<longleftrightarrow> strchr toks c \<noteq> None"

definition at :: "byte list \<Rightarrow> nat \<Rightarrow> byte" where
  "at buf s = (if s < length buf then buf ! s else 0)"

function skip_while :: "(byte \<Rightarrow> bool) \<Rightarrow> byte list \<Rightarrow> nat \<Rightarrow> nat \<Rightarrow> nat" where
  "skip_while P buf es s = (if s < es \<and> P (at buf s) then skip_while P buf es (s + 1) else s)"
  by pat_completeness auto
termination
  by (relation "measure (\<lambda>(P, buf, es, s). es - s)") auto

declare skip_while.simps [simp del]

definition skip_space :: "byte list \<Rightarrow> nat \<Rightarrow> nat \<Rightarrow> nat" where
  "skip_space = skip_while (in_str whitespace)"

definition is_word_char :: "byte \<Rightarrow> bool" where
  "is_word_char c \<longleftrightarrow> \<not> in_str whitespace c \<and> \<not> in_str symbols c"

text \<open>The token, its bounds, and the index after it and the following white space.\<close>

definition gettoken :: "byte list \<Rightarrow> nat \<Rightarrow> nat \<Rightarrow> byte \<times> nat \<times> nat \<times> nat" where
  "gettoken buf es s0 =
     (let q = skip_space buf es s0;
          c = at buf q;
          r = (if c = 0 then (c, q)
               else if c \<in> set (cbytes ''|();&<'') then (c, q + 1)
               else if c = of_char (CHR ''>'') then
                 (if at buf (q + 1) = of_char (CHR ''>'') then (of_char (CHR ''+''), q + 2) else (c, q + 1))
               else (of_char (CHR ''a''), skip_while is_word_char buf es q))
      in (fst r, q, snd r, skip_space buf es (snd r)))"

definition peek :: "byte list \<Rightarrow> nat \<Rightarrow> nat \<Rightarrow> byte list \<Rightarrow> bool \<times> nat" where
  "peek buf es s toks =
     (let s = skip_space buf es s in (at buf s \<noteq> 0 \<and> in_str toks (at buf s), s))"

subsection \<open>Commands\<close>

type_synonym word_at = "nat \<times> nat"

datatype cmd =
    ExecCmd "word_at list"
  | RedirCmd cmd word_at int int
  | PipeCmd cmd cmd
  | ListCmd cmd cmd
  | BackCmd cmd

datatype 'a parse = Parsed 'a nat | Panics string | NoFuel

definition token_redir :: "byte \<Rightarrow> int \<times> int" where
  "token_redir tok = (if tok = of_char (CHR ''<'') then (O_RDONLY, 0) else (O_WRONLY OR O_CREATE, 1))"

lemma skip_while_ge: "s \<le> skip_while P buf es s"
  by (induction P buf es s rule: skip_while.induct) (subst skip_while.simps, auto)

lemma skip_while_le: "s \<le> es \<Longrightarrow> skip_while P buf es s \<le> es"
  by (induction P buf es s rule: skip_while.induct) (subst skip_while.simps, auto)

lemma skip_while_sat: "s \<le> k \<Longrightarrow> k < skip_while P buf es s \<Longrightarrow> P (at buf k)"
proof (induction P buf es s rule: skip_while.induct)
  case (1 P buf es s)
  then show ?case by (cases "s = k") (subst (asm) (2) skip_while.simps, auto split: if_splits)+
qed

lemma skip_while_stop: "skip_while P buf es s < es \<Longrightarrow> \<not> P (at buf (skip_while P buf es s))"
  by (induction P buf es s rule: skip_while.induct) (metis skip_while.simps)

lemma skip_space_ge: "s \<le> skip_space buf es s"
  by (simp add: skip_space_def skip_while_ge)

lemma gettoken_ge: "gettoken buf es s = (c, q, eq, t) \<Longrightarrow> s \<le> q \<and> q \<le> eq \<and> eq \<le> t"
  using skip_space_ge[of s buf es] skip_space_ge[of eq buf es] skip_while_ge[of q _ buf es]
  by (auto simp: gettoken_def Let_def split: if_splits)

lemma in_str_iff: "0 \<notin> set toks \<Longrightarrow> in_str toks c \<longleftrightarrow> c \<in> set toks"
  unfolding in_str_def by (induction toks) auto

lemma in_symbols: "in_str symbols c \<longleftrightarrow> c \<in> set (cbytes ''|();&<'') \<or> c = of_char (CHR ''>'')"
  by (subst in_str_iff) (auto simp: symbols_def cbytes_def)

lemma gettoken_word:
  assumes "\<not> in_str symbols (at buf (skip_space buf es s))" "at buf (skip_space buf es s) \<noteq> 0"
  shows "gettoken buf es s = (let q = skip_space buf es s; eq = skip_while is_word_char buf es q
    in (of_char (CHR ''a''), q, eq, skip_space buf es eq))"
  using assms unfolding gettoken_def in_symbols Let_def by auto

lemma gettoken_symbol:
  assumes "in_str symbols (at buf (skip_space buf es s))" "gettoken buf es s = (c, q, eq, t)"
  shows "eq = q + 1 \<or> eq = q + 2" "c \<noteq> of_char (CHR ''a'')"
  using assms unfolding gettoken_def in_symbols Let_def by (auto simp: cbytes_def split: if_splits)

text \<open>A token that is not the end of the line takes at least one character.\<close>

lemma gettoken_less:
  assumes "gettoken buf es s = (c, q, eq, t)" "c \<noteq> 0" "at buf es = 0" "s \<le> es"
  shows "s < t" "q < eq" "q < es"
proof -
  have q: "q = skip_space buf es s" using assms(1) by (simp add: gettoken_def Let_def)
  have n: "at buf q \<noteq> 0" using assms(1,2) by (auto simp: gettoken_def Let_def split: if_splits)
  have "q \<le> es" using assms(4) by (simp add: q skip_space_def skip_while_le)
  then show qe: "q < es" using n assms(3) by (cases "q = es") auto
  then have w: "\<not> in_str whitespace (at buf q)" unfolding q skip_space_def by (rule skip_while_stop)
  show "q < eq"
  proof (cases "in_str symbols (at buf q)")
    case False
    then have "eq = skip_while is_word_char buf es q" using gettoken_word[of buf es s] n assms(1) q by (simp add: Let_def)
    also have "\<dots> = skip_while is_word_char buf es (q + 1)"
      using qe w False by (subst skip_while.simps) (simp add: is_word_char_def)
    finally show ?thesis using skip_while_ge[of "q + 1"] by (metis Suc_eq_plus1 Suc_le_eq)
  next
    case True
    then show ?thesis using gettoken_symbol[of buf es s] assms(1) q by auto
  qed
  then show "s < t" using gettoken_ge[OF assms(1)] by simp
qed

lemma peek_True:
  assumes "peek buf es s toks = (True, t)"
  shows "s \<le> t" "t < length buf" "at buf t \<noteq> 0" "in_str toks (at buf t)" "skip_space buf es t = t"
proof -
  have t: "t = skip_space buf es s" using assms by (simp add: peek_def Let_def)
  show "s \<le> t" "at buf t \<noteq> 0" "in_str toks (at buf t)" using assms skip_space_ge[of s buf es] by (auto simp: peek_def Let_def)
  then show "t < length buf" by (simp add: at_def split: if_splits)
  have "\<not> (t < es \<and> in_str whitespace (at buf t))"
    using skip_while_stop[of "in_str whitespace" buf es s] by (auto simp: t skip_space_def)
  then show "skip_space buf es t = t" unfolding skip_space_def by (subst skip_while.simps) auto
qed

lemma peek_token:
  assumes "peek buf es s toks = (True, t)" "gettoken buf es t = (c, q, eq, u)" "in_str toks (at buf t) \<Longrightarrow> in_str symbols (at buf t)"
  shows "t < u" "q = t"
proof -
  note P = peek_True[OF assms(1)]
  show "q = t" using assms(2) P(5) by (simp add: gettoken_def Let_def)
  moreover have "eq = q + 1 \<or> eq = q + 2" using gettoken_symbol(1)[OF _ assms(2)] P(4,5) assms(3) by simp
  ultimately show "t < u" using gettoken_ge[OF assms(2)] by auto
qed

subsection \<open>The parser\<close>

definition pbind :: "'a parse \<Rightarrow> ('a \<Rightarrow> nat \<Rightarrow> 'b parse) \<Rightarrow> 'b parse" where
  "pbind p f = (case p of Parsed x s \<Rightarrow> f x s | Panics m \<Rightarrow> Panics m | NoFuel \<Rightarrow> NoFuel)"

lemma angle_symbols: "in_str (cbytes ''<>'') c \<Longrightarrow> in_str symbols c" "in_str (cbytes ''&'') c \<Longrightarrow> in_str symbols c"
  by (simp_all add: in_str_def cbytes_def symbols_def split: if_splits)

lemma parseredirs_less:
  assumes "(True, s1) = peek buf es s (cbytes ''<>'')" "(tok, q1, e1, s2) = gettoken buf es s1" "(tok2, q, eq, s3) = gettoken buf es s2"
  shows "length buf - s3 < length buf - s"
proof -
  have "s1 < s2" by (rule peek_token(1)[OF assms(1)[symmetric] assms(2)[symmetric]]) (rule angle_symbols)
  then show ?thesis using peek_True(1,2)[OF assms(1)[symmetric]] gettoken_ge[OF assms(3)[symmetric]] by auto
qed

lemma back_less:
  assumes "(True, s1) = peek buf es s (cbytes ''&'')" "(tok, q1, e1, s2) = gettoken buf es s1"
  shows "length buf - s2 < length buf - s"
proof -
  have "s1 < s2" by (rule peek_token(1)[OF assms(1)[symmetric] assms(2)[symmetric]]) (rule angle_symbols)
  then show ?thesis using peek_True(1,2)[OF assms(1)[symmetric]] by auto
qed

text \<open>\<open>parseredirs\<close>: the redirections it wraps around its command, the first innermost.\<close>

function parseredirs :: "byte list \<Rightarrow> nat \<Rightarrow> nat \<Rightarrow> (word_at \<times> int \<times> int) list parse" where
  "parseredirs buf es s =
     (case peek buf es s (cbytes ''<>'') of
        (False, s1) \<Rightarrow> Parsed [] s1
      | (True, s1) \<Rightarrow>
          (case gettoken buf es s1 of (tok, _, _, s2) \<Rightarrow>
           case gettoken buf es s2 of (tok2, q, eq, s3) \<Rightarrow>
           if tok2 \<noteq> of_char (CHR ''a'') then Panics ''missing file for redirection''
           else pbind (parseredirs buf es s3) (\<lambda>rs. Parsed (((q, eq), token_redir tok) # rs))))"
  by pat_completeness auto
termination
  by (relation "measure (\<lambda>(buf, es, s). length buf - s)") (auto dest!: parseredirs_less)

declare parseredirs.simps [simp del]

definition redircmd :: "cmd \<Rightarrow> word_at \<times> int \<times> int \<Rightarrow> cmd" where
  "redircmd c r = (case r of (file, mode, fd) \<Rightarrow> RedirCmd c file mode fd)"

text \<open>The loop of \<open>parseexec\<close>: the arguments, and the redirections among them.\<close>

function exec_loop :: "byte list \<Rightarrow> nat \<Rightarrow> nat \<Rightarrow> nat \<Rightarrow> (word_at list \<times> (word_at \<times> int \<times> int) list) parse" where
  "exec_loop buf es s argc =
     (case peek buf es s (cbytes ''|)&;'') of
        (True, s1) \<Rightarrow> Parsed ([], []) s1
      | (False, s1) \<Rightarrow>
          (case gettoken buf es s1 of (tok, q, eq, s2) \<Rightarrow>
           if tok = 0 then Parsed ([], []) s2
           else if tok \<noteq> of_char (CHR ''a'') then Panics ''syntax''
           else if argc + 1 \<ge> MAXARGS then Panics ''too many args''
           else pbind (parseredirs buf es s2) (\<lambda>rs s3.
                pbind (exec_loop buf es s3 (argc + 1)) (\<lambda>(args, rs').
                Parsed ((q, eq) # args, rs @ rs')))))"
  by pat_completeness auto
termination
  by (relation "measure (\<lambda>(buf, es, s, argc). MAXARGS - argc)") auto

declare exec_loop.simps [simp del]

text \<open>The loop of \<open>parseline\<close> over the ampersands.\<close>

function back_loop :: "byte list \<Rightarrow> nat \<Rightarrow> cmd \<Rightarrow> nat \<Rightarrow> cmd \<times> nat" where
  "back_loop buf es c s =
     (case peek buf es s (cbytes ''&'') of
        (False, s1) \<Rightarrow> (c, s1)
      | (True, s1) \<Rightarrow> (case gettoken buf es s1 of (_, _, _, s2) \<Rightarrow> back_loop buf es (BackCmd c) s2))"
  by pat_completeness auto
termination
  by (relation "measure (\<lambda>(buf, es, c, s). length buf - s)") (auto dest!: back_less)

declare back_loop.simps [simp del]

definition after_token :: "byte list \<Rightarrow> nat \<Rightarrow> nat \<Rightarrow> nat" where
  "after_token buf es s = snd (snd (snd (gettoken buf es s)))"

text \<open>The functions that call each other; \<open>rec\<close> stands for the calls.\<close>

datatype nonterm = Line | Pipeline | Simple | Block

type_synonym parser = "byte list \<Rightarrow> nat \<Rightarrow> nat \<Rightarrow> cmd parse"

definition parseline :: "(nonterm \<Rightarrow> parser) \<Rightarrow> parser" where
  "parseline rec buf es s =
     pbind (rec Pipeline buf es s) (\<lambda>c s1.
     case back_loop buf es c s1 of (c, s2) \<Rightarrow>
     case peek buf es s2 (cbytes '';'') of
       (False, s3) \<Rightarrow> Parsed c s3
     | (True, s3) \<Rightarrow> pbind (rec Line buf es (after_token buf es s3)) (\<lambda>d. Parsed (ListCmd c d)))"

definition parsepipe :: "(nonterm \<Rightarrow> parser) \<Rightarrow> parser" where
  "parsepipe rec buf es s =
     pbind (rec Simple buf es s) (\<lambda>c s1.
     case peek buf es s1 (cbytes ''|'') of
       (False, s2) \<Rightarrow> Parsed c s2
     | (True, s2) \<Rightarrow> pbind (rec Pipeline buf es (after_token buf es s2)) (\<lambda>d. Parsed (PipeCmd c d)))"

definition parseexec :: "(nonterm \<Rightarrow> parser) \<Rightarrow> parser" where
  "parseexec rec buf es s =
     (case peek buf es s (cbytes ''('') of
        (True, s1) \<Rightarrow> rec Block buf es s1
      | (False, s1) \<Rightarrow>
          pbind (parseredirs buf es s1) (\<lambda>rs s2.
          pbind (exec_loop buf es s2 0) (\<lambda>(args, rs').
          Parsed (foldl redircmd (ExecCmd args) (rs @ rs')))))"

definition parseblock :: "(nonterm \<Rightarrow> parser) \<Rightarrow> parser" where
  "parseblock rec buf es s =
     (case peek buf es s (cbytes ''('') of
        (False, s1) \<Rightarrow> Panics ''parseblock''
      | (True, s1) \<Rightarrow>
          pbind (rec Line buf es (after_token buf es s1)) (\<lambda>c s2.
          case peek buf es s2 (cbytes '')'') of
            (False, s3) \<Rightarrow> Panics ''syntax - missing )''
          | (True, s3) \<Rightarrow>
              pbind (parseredirs buf es (after_token buf es s3)) (\<lambda>rs.
              Parsed (foldl redircmd c rs))))"

primrec parse_nt :: "nat \<Rightarrow> nonterm \<Rightarrow> parser" where
  "parse_nt 0 k buf es s = NoFuel"
| "parse_nt (Suc n) k buf es s =
     (case k of
        Line \<Rightarrow> parseline (parse_nt n) buf es s
      | Pipeline \<Rightarrow> parsepipe (parse_nt n) buf es s
      | Simple \<Rightarrow> parseexec (parse_nt n) buf es s
      | Block \<Rightarrow> parseblock (parse_nt n) buf es s)"

primrec nulterminate :: "cmd \<Rightarrow> byte list \<Rightarrow> byte list" where
  "nulterminate (ExecCmd args) buf = fold (\<lambda>w b. b[snd w := 0]) args buf"
| "nulterminate (RedirCmd c file mode fd) buf = (nulterminate c buf)[snd file := 0]"
| "nulterminate (PipeCmd c d) buf = nulterminate d (nulterminate c buf)"
| "nulterminate (ListCmd c d) buf = nulterminate d (nulterminate c buf)"
| "nulterminate (BackCmd c) buf = nulterminate c buf"

definition parsecmd :: "byte list \<Rightarrow> (cmd \<times> byte list) parse" where
  "parsecmd buf =
     (let es = ulib_strlen buf in
      pbind (parse_nt (4 * es + 4) Line buf es 0) (\<lambda>c s.
      case peek buf es s [] of (_, s) \<Rightarrow>
      if s \<noteq> es then Panics ''syntax'' else Parsed (c, nulterminate c buf) s))"

subsection \<open>What the parser builds\<close>

text \<open>A word of the line: word characters only, up to a character that is none or the end.\<close>

definition word_ok :: "byte list \<Rightarrow> nat \<Rightarrow> word_at \<Rightarrow> bool" where
  "word_ok buf es w \<longleftrightarrow> fst w < snd w \<and> snd w \<le> es \<and> (\<forall>k. fst w \<le> k \<and> k < snd w \<longrightarrow> is_word_char (at buf k)) \<and>
     (snd w < es \<longrightarrow> \<not> is_word_char (at buf (snd w)))"

definition redir_ok :: "byte list \<Rightarrow> nat \<Rightarrow> word_at \<times> int \<times> int \<Rightarrow> bool" where
  "redir_ok buf es r \<longleftrightarrow> word_ok buf es (fst r) \<and> snd r \<in> {(O_RDONLY, 0), (O_WRONLY OR O_CREATE, 1)}"

primrec wf_cmd :: "byte list \<Rightarrow> nat \<Rightarrow> cmd \<Rightarrow> bool" where
  "wf_cmd buf es (ExecCmd args) = (length args < MAXARGS \<and> list_all (word_ok buf es) args)"
| "wf_cmd buf es (RedirCmd c file mode fd) = (wf_cmd buf es c \<and> redir_ok buf es (file, mode, fd))"
| "wf_cmd buf es (PipeCmd c d) = (wf_cmd buf es c \<and> wf_cmd buf es d)"
| "wf_cmd buf es (ListCmd c d) = (wf_cmd buf es c \<and> wf_cmd buf es d)"
| "wf_cmd buf es (BackCmd c) = wf_cmd buf es c"

definition parse_ok :: "('a \<Rightarrow> bool) \<Rightarrow> nat \<Rightarrow> nat \<Rightarrow> 'a parse \<Rightarrow> bool" where
  "parse_ok P es s p \<longleftrightarrow> (case p of Parsed x t \<Rightarrow> P x \<and> s \<le> t \<and> t \<le> es | Panics m \<Rightarrow> True | NoFuel \<Rightarrow> False)"

lemma parse_ok_simps [simp]:
  "parse_ok P es s (Parsed x t) \<longleftrightarrow> P x \<and> s \<le> t \<and> t \<le> es" "parse_ok P es s (Panics m)" "\<not> parse_ok P es s NoFuel"
  by (simp_all add: parse_ok_def)

lemma parse_ok_pbind:
  assumes "parse_ok P es s p" "\<And>x t. P x \<Longrightarrow> s \<le> t \<Longrightarrow> t \<le> es \<Longrightarrow> parse_ok Q es r (f x t)"
  shows "parse_ok Q es r (pbind p f)"
  using assms by (cases p) (auto simp: pbind_def)

lemma parse_ok_le: "parse_ok P es t p \<Longrightarrow> s \<le> t \<Longrightarrow> parse_ok P es s p"
  by (cases p) auto

lemma skip_space_le: "s \<le> es \<Longrightarrow> skip_space buf es s \<le> es"
  by (simp add: skip_space_def skip_while_le)

lemma peek_le:
  assumes "peek buf es s toks = (b, t)" "s \<le> es"
  shows "s \<le> t" "t \<le> es"
  using assms skip_space_ge[of s buf es] skip_space_le[OF assms(2), of buf] by (auto simp: peek_def Let_def)

lemma gettoken_ok:
  assumes "gettoken buf es s = (c, q, eq, t)" "at buf es = 0" "s \<le> es"
  shows "s \<le> t" "t \<le> es" "c = of_char (CHR ''a'') \<Longrightarrow> word_ok buf es (q, eq)"
proof -
  note G = gettoken_ge[OF assms(1)]
  show "s \<le> t" using G by simp
  have q: "q = skip_space buf es s" "q \<le> es" using assms(1,3) skip_space_le by (auto simp: gettoken_def Let_def)
  have t: "t = skip_space buf es eq" using assms(1) by (auto simp: gettoken_def Let_def)
  consider "at buf q = 0" | "at buf q \<noteq> 0" "in_str symbols (at buf q)" | "at buf q \<noteq> 0" "\<not> in_str symbols (at buf q)" by blast
  then have "eq \<le> es \<and> (c = of_char (CHR ''a'') \<longrightarrow> word_ok buf es (q, eq))"
  proof cases
    case 1
    then show ?thesis using assms(1) q by (auto simp: gettoken_def Let_def)
  next
    case 2
    then have "q < es" using q(2) assms(2) by (cases "q = es") auto
    moreover have "q + 1 < es" if "eq = q + 2"
      using assms(1,2) 2 that calculation unfolding gettoken_def Let_def q(1)[symmetric]
      by (cases "q + 1 = es") (auto simp: in_symbols split: if_splits)
    ultimately show ?thesis using gettoken_symbol[of buf es s c q eq t] 2 assms(1) q(1) by auto
  next
    case 3
    have e: "eq = skip_while is_word_char buf es q" using gettoken_word[of buf es s] 3 assms(1) q(1) by (simp add: Let_def)
    have "c \<noteq> 0" using assms(1) 3 unfolding gettoken_def Let_def q(1)[symmetric] by (auto split: if_splits)
    then have "q < eq" using gettoken_less(2)[OF assms(1) _ assms(2,3)] by simp
    then show ?thesis unfolding word_ok_def e
      using skip_while_le[OF q(2)] skip_while_sat[of q _ is_word_char buf es] skip_while_stop[of is_word_char buf es q] by auto
  qed
  then show "t \<le> es" "c = of_char (CHR ''a'') \<Longrightarrow> word_ok buf es (q, eq)" using skip_space_le t by auto
qed

lemma parseredirs_ok:
  assumes "at buf es = 0" "s \<le> es"
  shows "parse_ok (list_all (redir_ok buf es)) es s (parseredirs buf es s)"
  using assms
proof (induction "length buf - s" arbitrary: s rule: less_induct)
  case less
  obtain b s1 where p: "peek buf es s (cbytes ''<>'') = (b, s1)" by (metis surj_pair)
  obtain tok q1 e1 s2 where t: "gettoken buf es s1 = (tok, q1, e1, s2)" by (metis surj_pair)
  obtain tok2 q eq s3 where u: "gettoken buf es s2 = (tok2, q, eq, s3)" by (metis surj_pair)
  note P = peek_le[OF p less.prems(2)]
  note T = gettoken_ok[OF t assms(1) P(2)]
  note U = gettoken_ok[OF u assms(1) T(2)]
  show ?case
  proof (cases "b \<and> tok2 = of_char (CHR ''a'')")
    case False
    then show ?thesis using P by (cases b) (subst parseredirs.simps, simp add: p t u)+
  next
    case True
    have "parse_ok (list_all (redir_ok buf es)) es s3 (parseredirs buf es s3)"
      using parseredirs_less[of s1 buf es s tok q1 e1 s2 tok2 q eq s3] True p t u U(2) by (intro less.hyps assms(1)) simp_all
    then have "parse_ok (list_all (redir_ok buf es)) es s (pbind (parseredirs buf es s3) (\<lambda>rs. Parsed (((q, eq), token_redir tok) # rs)))"
      by (rule parse_ok_pbind) (use U True P(1) T(1) in \<open>auto simp: redir_ok_def token_redir_def\<close>)
    then show ?thesis using True by (subst parseredirs.simps) (simp add: p t u)
  qed
qed

lemma exec_loop_ok:
  assumes "at buf es = 0" "s \<le> es" "argc < MAXARGS"
  shows "parse_ok (\<lambda>(args, rs). argc + length args < MAXARGS \<and> list_all (word_ok buf es) args \<and> list_all (redir_ok buf es) rs)
    es s (exec_loop buf es s argc)" (is "parse_ok (?P argc) _ _ _")
  using assms
proof (induction "MAXARGS - argc" arbitrary: s argc rule: less_induct)
  case less
  obtain b s1 where p: "peek buf es s (cbytes ''|)&;'') = (b, s1)" by (metis surj_pair)
  obtain tok q eq s2 where t: "gettoken buf es s1 = (tok, q, eq, s2)" by (metis surj_pair)
  note P = peek_le[OF p less.prems(2)]
  note T = gettoken_ok[OF t assms(1) P(2)]
  show ?case
  proof (cases "\<not> b \<and> tok = of_char (CHR ''a'') \<and> argc + 1 < MAXARGS")
    case False
    then show ?thesis using P T less.prems(3) by (cases b) (subst exec_loop.simps, auto simp: p t)+
  next
    case True
    have "parse_ok (?P argc) es s (pbind (exec_loop buf es s3 (argc + 1)) (\<lambda>(args, rs'). Parsed ((q, eq) # args, rs @ rs')))"
      if "list_all (redir_ok buf es) rs" "s2 \<le> s3" "s3 \<le> es" for rs s3
      by (rule parse_ok_pbind[OF less.hyps[of "argc + 1" s3]]) (use that True assms(1) T P in auto)
    then have "parse_ok (?P argc) es s (pbind (parseredirs buf es s2) (\<lambda>rs s3.
      pbind (exec_loop buf es s3 (argc + 1)) (\<lambda>(args, rs'). Parsed ((q, eq) # args, rs @ rs'))))"
      by (rule parse_ok_pbind[OF parseredirs_ok[OF assms(1) T(2)]])
    then show ?thesis using True by (subst exec_loop.simps) (simp add: p t)
  qed
qed

lemma back_loop_ok:
  assumes "at buf es = 0" "s \<le> es" "wf_cmd buf es c"
  shows "wf_cmd buf es (fst (back_loop buf es c s)) \<and> s \<le> snd (back_loop buf es c s) \<and> snd (back_loop buf es c s) \<le> es"
  using assms
proof (induction "length buf - s" arbitrary: s c rule: less_induct)
  case less
  obtain b s1 where p: "peek buf es s (cbytes ''&'') = (b, s1)" by (metis surj_pair)
  obtain tok q eq s2 where t: "gettoken buf es s1 = (tok, q, eq, s2)" by (metis surj_pair)
  note P = peek_le[OF p less.prems(2)]
  note T = gettoken_ok[OF t assms(1) P(2)]
  show ?case
  proof (cases b)
    case False
    then show ?thesis using P less.prems(3) by (subst (1 2 3) back_loop.simps) (simp add: p)
  next
    case True
    have "wf_cmd buf es (fst (back_loop buf es (BackCmd c) s2)) \<and> s2 \<le> snd (back_loop buf es (BackCmd c) s2) \<and>
      snd (back_loop buf es (BackCmd c) s2) \<le> es"
      using back_less[of s1 buf es s tok q eq s2] True p t T(2) less.prems(3) by (intro less.hyps assms(1)) simp_all
    moreover have "back_loop buf es c s = back_loop buf es (BackCmd c) s2"
      using True by (subst back_loop.simps) (simp add: p t)
    ultimately show ?thesis using P(1) T(1) by simp
  qed
qed

lemma wf_redircmd: "wf_cmd buf es c \<Longrightarrow> list_all (redir_ok buf es) rs \<Longrightarrow> wf_cmd buf es (foldl redircmd c rs)"
  by (induction rs arbitrary: c) (auto simp: redircmd_def split: prod.split)

lemma after_token_ok:
  assumes "peek buf es s toks = (True, t)" "at buf es = 0" "s \<le> es"
  shows "after_token buf es t \<le> es" "s < after_token buf es t"
proof -
  obtain c q eq u where g: "gettoken buf es t = (c, q, eq, u)" by (metis surj_pair)
  note P = peek_le[OF assms(1,3)] and Q = peek_True[OF assms(1)]
  have q: "q = t" using g Q(5) by (simp add: gettoken_def Let_def)
  have "c \<noteq> 0" using g Q(3,5) by (auto simp: gettoken_def Let_def cbytes_def split: if_splits)
  then have "t < u" using gettoken_less(1)[OF g _ assms(2) P(2)] by simp
  then show "after_token buf es t \<le> es" "s < after_token buf es t"
    using gettoken_ok(2)[OF g assms(2) P(2)] P(1) by (simp_all add: after_token_def g)
qed

primrec rank :: "nonterm \<Rightarrow> nat" where
  "rank Line = 4"
| "rank Pipeline = 3"
| "rank Simple = 2"
| "rank Block = 1"

text \<open>Fuel \<open>n\<close> is enough for every call that still fits it.\<close>

definition rec_ok :: "nat \<Rightarrow> (nonterm \<Rightarrow> parser) \<Rightarrow> byte list \<Rightarrow> nat \<Rightarrow> bool" where
  "rec_ok n rec buf es \<longleftrightarrow> at buf es = 0 \<and>
     (\<forall>k s. s \<le> es \<longrightarrow> 4 * (es - s) + rank k \<le> n \<longrightarrow> parse_ok (wf_cmd buf es) es s (rec k buf es s))"

lemma rec_okD: "rec_ok n rec buf es \<Longrightarrow> s \<le> es \<Longrightarrow> 4 * (es - s) + rank k \<le> n \<Longrightarrow> parse_ok (wf_cmd buf es) es s (rec k buf es s)"
  by (simp add: rec_ok_def)

lemma rec_ok_next:
  assumes "rec_ok n rec buf es" "peek buf es s' toks = (True, t)" "s \<le> s'" "s' \<le> es" "4 * (es - s) \<le> n"
  shows "parse_ok (wf_cmd buf es) es s (rec j buf es (after_token buf es t))"
proof -
  have z: "at buf es = 0" using assms(1) by (simp add: rec_ok_def)
  note A = after_token_ok[OF assms(2) z assms(4)]
  have "rank j \<le> 4" by (cases j) simp_all
  then have "4 * (es - after_token buf es t) + rank j \<le> n" using A assms(3,5) by linarith
  then show ?thesis using A assms(3) by (intro parse_ok_le[OF rec_okD[OF assms(1)]]) simp_all
qed

lemma parseredirs_wf:
  assumes "at buf es = 0" "wf_cmd buf es c" "r \<le> t" "t \<le> es"
  shows "parse_ok (wf_cmd buf es) es r (pbind (parseredirs buf es t) (\<lambda>rs. Parsed (foldl redircmd c rs)))"
  by (rule parse_ok_pbind[OF parseredirs_ok[OF assms(1,4)]]) (use assms wf_redircmd in auto)

lemma parseline_ok:
  assumes "rec_ok n rec buf es" "s \<le> es" "4 * (es - s) + 3 \<le> n"
  shows "parse_ok (wf_cmd buf es) es s (parseline rec buf es s)"
  unfolding parseline_def
proof (rule parse_ok_pbind[OF rec_okD[OF assms(1,2)]])
  fix c s1 assume c: "wf_cmd buf es c" "s \<le> s1" "s1 \<le> es"
  have z: "at buf es = 0" using assms(1) by (simp add: rec_ok_def)
  obtain c' s2 where b: "back_loop buf es c s1 = (c', s2)" by (metis surj_pair)
  then have c': "wf_cmd buf es c'" "s1 \<le> s2" "s2 \<le> es" using back_loop_ok[OF z c(3,1)] by auto
  obtain d s3 where p: "peek buf es s2 (cbytes '';'') = (d, s3)" by (metis surj_pair)
  have "parse_ok (wf_cmd buf es) es s (pbind (rec Line buf es (after_token buf es s3)) (\<lambda>d. Parsed (ListCmd c' d)))" if d
    using rec_ok_next[OF assms(1), of s2 _ s3 s Line] p that c c' assms(3) by (auto intro!: parse_ok_pbind)
  then show "parse_ok (wf_cmd buf es) es s (case back_loop buf es c s1 of (c, s2) \<Rightarrow> case peek buf es s2 (cbytes '';'') of
      (False, s3) \<Rightarrow> Parsed c s3
    | (True, s3) \<Rightarrow> pbind (rec Line buf es (after_token buf es s3)) (\<lambda>d. Parsed (ListCmd c d)))"
    using peek_le[OF p c'(3)] c c' by (cases d) (simp_all add: b p)
qed (use assms(3) in simp)

lemma parsepipe_ok:
  assumes "rec_ok n rec buf es" "s \<le> es" "4 * (es - s) + 2 \<le> n"
  shows "parse_ok (wf_cmd buf es) es s (parsepipe rec buf es s)"
  unfolding parsepipe_def
proof (rule parse_ok_pbind[OF rec_okD[OF assms(1,2)]])
  fix c s1 assume c: "wf_cmd buf es c" "s \<le> s1" "s1 \<le> es"
  obtain d s2 where p: "peek buf es s1 (cbytes ''|'') = (d, s2)" by (metis surj_pair)
  have "parse_ok (wf_cmd buf es) es s (pbind (rec Pipeline buf es (after_token buf es s2)) (\<lambda>d. Parsed (PipeCmd c d)))" if d
    using rec_ok_next[OF assms(1), of s1 _ s2 s Pipeline] p that c assms(3) by (auto intro!: parse_ok_pbind)
  then show "parse_ok (wf_cmd buf es) es s (case peek buf es s1 (cbytes ''|'') of
      (False, s2) \<Rightarrow> Parsed c s2
    | (True, s2) \<Rightarrow> pbind (rec Pipeline buf es (after_token buf es s2)) (\<lambda>d. Parsed (PipeCmd c d)))"
    using peek_le[OF p c(3)] c by (cases d) (simp_all add: p)
qed (use assms(3) in simp)

lemma parseexec_ok:
  assumes "rec_ok n rec buf es" "s \<le> es" "4 * (es - s) + 1 \<le> n"
  shows "parse_ok (wf_cmd buf es) es s (parseexec rec buf es s)"
proof -
  have z: "at buf es = 0" using assms(1) by (simp add: rec_ok_def)
  obtain d s1 where p: "peek buf es s (cbytes ''('') = (d, s1)" by (metis surj_pair)
  note P = peek_le[OF p assms(2)]
  have "parse_ok (wf_cmd buf es) es s (rec Block buf es s1)"
    using assms(3) P by (intro parse_ok_le[OF rec_okD[OF assms(1)]]) simp_all
  moreover have "parse_ok (wf_cmd buf es) es s (pbind (parseredirs buf es s1) (\<lambda>rs s2. pbind (exec_loop buf es s2 0) (\<lambda>(args, rs').
      Parsed (foldl redircmd (ExecCmd args) (rs @ rs')))))"
    using exec_loop_ok[OF z, of _ 0] P(1)
    by (intro parse_ok_pbind[OF parseredirs_ok[OF z P(2)]]) (auto simp: MAXARGS_def intro!: parse_ok_pbind wf_redircmd)
  ultimately show ?thesis by (cases d) (simp_all add: parseexec_def p)
qed

lemma parseblock_ok:
  assumes "rec_ok n rec buf es" "s \<le> es" "4 * (es - s) \<le> n"
  shows "parse_ok (wf_cmd buf es) es s (parseblock rec buf es s)"
proof -
  have z: "at buf es = 0" using assms(1) by (simp add: rec_ok_def)
  obtain d s1 where p: "peek buf es s (cbytes ''('') = (d, s1)" by (metis surj_pair)
  have "parse_ok (wf_cmd buf es) es s (pbind (rec Line buf es (after_token buf es s1)) (\<lambda>c s2.
        case peek buf es s2 (cbytes '')'') of (False, s3) \<Rightarrow> Panics ''syntax - missing )''
        | (True, s3) \<Rightarrow> pbind (parseredirs buf es (after_token buf es s3)) (\<lambda>rs. Parsed (foldl redircmd c rs))))" if d
  proof (rule parse_ok_pbind)
    show "parse_ok (wf_cmd buf es) es s (rec Line buf es (after_token buf es s1))"
      using p that by (intro rec_ok_next[OF assms(1) _ order_refl assms(2,3)]) simp
    fix c s2 assume c: "wf_cmd buf es c" "s \<le> s2" "s2 \<le> es"
    obtain e s3 where q: "peek buf es s2 (cbytes '')'') = (e, s3)" by (metis surj_pair)
    have "parse_ok (wf_cmd buf es) es s (pbind (parseredirs buf es (after_token buf es s3)) (\<lambda>rs. Parsed (foldl redircmd c rs)))" if e
    proof -
      note A = after_token_ok[OF q[unfolded eqTrueI[OF that]] z c(3)]
      show ?thesis by (rule parseredirs_wf[OF z c(1)]) (use A c(2) in simp_all)
    qed
    then show "parse_ok (wf_cmd buf es) es s (case peek buf es s2 (cbytes '')'') of (False, s3) \<Rightarrow> Panics ''syntax - missing )''
        | (True, s3) \<Rightarrow> pbind (parseredirs buf es (after_token buf es s3)) (\<lambda>rs. Parsed (foldl redircmd c rs)))"
      by (cases e) (simp_all add: q)
  qed
  then show ?thesis by (cases d) (simp_all add: parseblock_def p)
qed

lemma parse_nt_ok: "at buf es = 0 \<Longrightarrow> rec_ok n (parse_nt n) buf es"
proof (induction n)
  case 0
  have "0 < rank k" for k by (cases k) simp_all
  then show ?case using 0 by (auto simp: rec_ok_def)
next
  case (Suc n)
  note R = Suc.IH[OF Suc.prems]
  show ?case unfolding rec_ok_def
  proof (intro conjI allI impI)
    fix k s assume s: "s \<le> es" "4 * (es - s) + rank k \<le> Suc n"
    show "parse_ok (wf_cmd buf es) es s (parse_nt (Suc n) k buf es s)"
      using s(2) parseline_ok[OF R s(1)] parsepipe_ok[OF R s(1)] parseexec_ok[OF R s(1)] parseblock_ok[OF R s(1)]
      by (cases k) simp_all
  qed (rule Suc.prems)
qed

lemma at_Cons [simp]: "at (c # buf) 0 = c" "at (c # buf) (Suc k) = at buf k"
  by (simp_all add: at_def)

lemma at_strlen: "at buf (ulib_strlen buf) = 0"
  by (induction buf) (simp add: at_def, simp)

lemma at_before_strlen: "k < ulib_strlen buf \<Longrightarrow> at buf k \<noteq> 0"
proof (induction buf arbitrary: k)
  case (Cons c buf)
  then show ?case by (cases k) (auto split: if_splits)
qed simp

subsection \<open>The strings of the commands\<close>

primrec words :: "cmd \<Rightarrow> word_at list" where
  "words (ExecCmd args) = args"
| "words (RedirCmd c file mode fd) = file # words c"
| "words (PipeCmd c d) = words c @ words d"
| "words (ListCmd c d) = words c @ words d"
| "words (BackCmd c) = words c"

lemma at_update: "at (buf[i := 0]) k = (if k = i then 0 else at buf k)"
  by (simp add: at_def)

lemma at_fold_nul: "at (fold (\<lambda>w b. b[snd w := 0]) ws buf) k = (if k \<in> snd ` set ws then 0 else at buf k)"
  by (induction ws arbitrary: buf) (auto simp: at_update)

lemma at_nulterminate: "at (nulterminate c buf) k = (if k \<in> snd ` set (words c) then 0 else at buf k)"
  by (induction c arbitrary: buf) (auto simp: at_fold_nul at_update)

lemma wf_words: "wf_cmd buf es c \<Longrightarrow> w \<in> set (words c) \<Longrightarrow> word_ok buf es w"
  by (induction c) (auto simp: list_all_iff redir_ok_def)

lemma cstr_at:
  assumes "\<And>k. q \<le> k \<Longrightarrow> k < eq \<Longrightarrow> at b k \<noteq> 0" "at b eq = 0" "q \<le> eq"
  shows "cstr (drop q b) = map (at b) [q..<eq]"
  using assms
proof (induction "eq - q" arbitrary: q)
  case 0
  then show ?case by (cases "drop q b") (auto simp: cstr_def at_def drop_eq_Nil2 hd_drop_conv_nth Cons_nth_drop_Suc[symmetric] split: if_splits)
next
  case (Suc n)
  then have q: "q < eq" "at b q \<noteq> 0" by simp_all
  then have l: "q < length b" by (simp add: at_def split: if_splits)
  have "cstr (drop (Suc q) b) = map (at b) [Suc q..<eq]" using Suc.hyps(2) Suc.prems q by (intro Suc.hyps(1)) simp_all
  then show ?case using q l by (simp add: Cons_nth_drop_Suc[symmetric, of q] cstr_def at_def upt_conv_Cons)
qed

text \<open>C39. The parser of the shell returns for every line. It either rejects the line or builds a command in which every
  argument and file name is a word of the line, no program has more than the nine arguments that fit its
  array, and every redirection opens a file for one of the first two descriptors; and after the strings have been terminated in
  place, each of them is still exactly its word.\<close>

theorem parsecmd_well_formed:
  "case parsecmd buf of
     Parsed (c, buf') s \<Rightarrow> wf_cmd buf (ulib_strlen buf) c \<and> s = ulib_strlen buf \<and>
       (\<forall>w \<in> set (words c). cstr (drop (fst w) buf') = map (at buf) [fst w..<snd w])
   | Panics m \<Rightarrow> True
   | NoFuel \<Rightarrow> False"
proof -
  let ?es = "ulib_strlen buf"
  have "parse_ok (wf_cmd buf ?es) ?es 0 (parse_nt (4 * ?es + 4) Line buf ?es 0)"
    by (rule rec_okD[OF parse_nt_ok[OF at_strlen]]) simp_all
  moreover have "cstr (drop (fst w) (nulterminate c buf)) = map (at buf) [fst w..<snd w]"
    if c: "wf_cmd buf ?es c" and w: "w \<in> set (words c)" for c w
  proof -
    have ok: "word_ok buf ?es w" using wf_words[OF c w] .
    have k: "k \<notin> snd ` set (words c)" "at buf k \<noteq> 0" if "fst w \<le> k" "k < snd w" for k
    proof -
      have ke: "k < ?es" "is_word_char (at buf k)" using ok that by (auto simp: word_ok_def)
      then show "at buf k \<noteq> 0" by (simp add: at_before_strlen)
      show "k \<notin> snd ` set (words c)" using wf_words[OF c] ke by (auto simp: word_ok_def)
    qed
    have "cstr (drop (fst w) (nulterminate c buf)) = map (at (nulterminate c buf)) [fst w..<snd w]"
      by (rule cstr_at) (use k w ok in \<open>auto simp: at_nulterminate word_ok_def\<close>)
    then show ?thesis using k by (auto simp: at_nulterminate)
  qed
  ultimately show ?thesis
    unfolding parsecmd_def Let_def
    by (cases "parse_nt (4 * ?es + 4) Line buf ?es 0") (auto simp: pbind_def split: prod.splits)
qed

text \<open>A pipeline with a redirection and a command in the background.\<close>

theorem parsecmd_well_formed_witness:
  "\<exists>c buf' s. parsecmd (cbytes ''cat <in|wc &'') = Parsed (c, buf') s \<and>
     c = BackCmd (PipeCmd (RedirCmd (ExecCmd [(0, 3)]) (5, 7) O_RDONLY 0) (ExecCmd [(8, 10)])) \<and>
     cstr (drop 5 buf') = cbytes ''in''"
proof -
  let ?b = "cbytes ''cat <in|wc &''"
  have p: "parsecmd ?b = Parsed (BackCmd (PipeCmd (RedirCmd (ExecCmd [(0, 3)]) (5, 7) O_RDONLY 0) (ExecCmd [(8, 10)])),
      [99, 97, 116, 0, 60, 105, 110, 0, 119, 99, 0, 38]) 12"
    by code_simp
  have "map (at ?b) [5..<7] = cbytes ''in''" by (simp add: cbytes_def at_def upt_rec)
  then show ?thesis using parsecmd_well_formed[of ?b] p by auto
qed

end
