(* ===== verification/Mp.thy ===== *)
theory Mp
  imports Kalloc
begin

text \<open>
  The search for the other processors at start-up, \<^verbatim>\<open>mp.c\<close>: the floating pointer structure in the memory of the
  firmware, the checksums, and the table of processors. Structures are read from byte memory at the offsets of \<^verbatim>\<open>mp.h\<close>.
  The loop over the table yields \<open>Diverges\<close> on an entry of an unknown type: the \<open>break\<close> there leaves the \<open>switch\<close>
  only, and the loop looks at the same entry again.
\<close>

subsection \<open>Searching\<close>

definition NCPU :: nat where "NCPU = 8"
definition MP_SIZE :: nat where "MP_SIZE = 16"
definition MPCONF_SIZE :: nat where "MPCONF_SIZE = 44"

definition mem_bytes :: "memory \<Rightarrow> uint \<Rightarrow> nat \<Rightarrow> byte list" where
  "mem_bytes m a n = map (\<lambda>k. m (a + of_nat k)) [0..<n]"

definition mp_sum :: "memory \<Rightarrow> uint \<Rightarrow> nat \<Rightarrow> byte" where
  "mp_sum m a n = sum_list (mem_bytes m a n)"

definition is_mp :: "memory \<Rightarrow> uint \<Rightarrow> bool" where
  "is_mp m p \<longleftrightarrow> memcmp (mem_bytes m p 4) (cbytes ''_MP_'') 4 = 0 \<and> mp_sum m p MP_SIZE = 0"

text \<open>The addresses the loop of \<open>mpsearch1\<close> looks at, and the first that holds the structure.\<close>

definition mpsearch1 :: "memory \<Rightarrow> uint \<Rightarrow> nat \<Rightarrow> uint option" where
  "mpsearch1 m a len =
     find (is_mp m) (map (\<lambda>k. P2V a + of_nat (MP_SIZE * k)) [0..<(len + MP_SIZE - 1) div MP_SIZE])"

definition word16 :: "memory \<Rightarrow> uint \<Rightarrow> uint" where
  "word16 m a = (push_bit 8 (ucast (m (a + 1)))) OR ucast (m a)"

definition mpsearch :: "memory \<Rightarrow> uint option" where
  "mpsearch m =
     (let bda = P2V 0x400;
          p = push_bit 4 (word16 m (bda + 0x0E));
          first = (if p \<noteq> 0 then mpsearch1 m p 1024
                   else mpsearch1 m (word16 m (bda + 0x13) * 1024 - 1024) 1024)
      in case first of Some mp \<Rightarrow> Some mp | None \<Rightarrow> mpsearch1 m 0xF0000 0x10000)"

definition conf_length :: "memory \<Rightarrow> uint \<Rightarrow> nat" where
  "conf_length m conf = unat (word16 m (conf + 4))"

definition mpconfig :: "memory \<Rightarrow> (uint \<times> uint) option" where
  "mpconfig m =
     (case mpsearch m of
        None \<Rightarrow> None
      | Some mp \<Rightarrow>
          let physaddr = ld32 m (mp + 4); conf = P2V physaddr; version = m (conf + 6)
          in if physaddr = 0 then None
             else if memcmp (mem_bytes m conf 4) (cbytes ''PCMP'') 4 \<noteq> 0 then None
             else if version \<noteq> 1 \<and> version \<noteq> 4 then None
             else if mp_sum m conf (conf_length m conf) \<noteq> 0 then None
             else Some (mp, conf))"

subsection \<open>The table\<close>

text \<open>\<open>m_apicids\<close> holds \<open>cpus[i].apicid\<close> for \<open>i\<close> below \<open>ncpu\<close>; \<open>m_imcr\<close> tells whether external interrupts have been masked.\<close>

record machine =
  m_mem :: memory
  m_apicids :: "byte list"
  m_ioapicid :: byte
  m_lapic :: uint
  m_imcr :: bool

definition add_cpu :: "byte \<Rightarrow> machine \<Rightarrow> machine" where
  "add_cpu a s = (if length (m_apicids s) < NCPU then s\<lparr>m_apicids := m_apicids s @ [a]\<rparr> else s)"

text \<open>The loop from offset \<open>k\<close> of a table of \<open>len\<close> bytes.\<close>

function mp_entries :: "uint \<Rightarrow> nat \<Rightarrow> nat \<Rightarrow> (machine, unit) kernel" where
  "mp_entries conf len k s =
     (if k < len then
        let p = conf + of_nat k; typ = m_mem s p in
        if typ = 0 then mp_entries conf len (k + 20) (add_cpu (m_mem s (p + 1)) s)
        else if typ = 2 then mp_entries conf len (k + 8) (s\<lparr>m_ioapicid := m_mem s (p + 1)\<rparr>)
        else if typ = 1 \<or> typ = 3 \<or> typ = 4 then mp_entries conf len (k + 8) s
        else Inl Diverges
      else Inr ((), s))"
  by pat_completeness auto
termination
  by (relation "measure (\<lambda>(conf, len, k, s). len - k)") auto

declare mp_entries.simps [simp del]

definition mpinit :: "(machine, unit) kernel" where
  "mpinit =
     bnd (fetch (\<lambda>s. mpconfig (m_mem s))) (\<lambda>r.
     case r of
       None \<Rightarrow> panic ''Expect to run on an SMP''
     | Some (mp, conf) \<Rightarrow>
         bnd (modify (\<lambda>s. s\<lparr>m_lapic := ld32 (m_mem s) (conf + 36)\<rparr>)) (\<lambda>_.
         bnd (fetch (\<lambda>s. conf_length (m_mem s) conf)) (\<lambda>len.
         bnd (mp_entries conf len MPCONF_SIZE) (\<lambda>_.
         bnd (fetch (\<lambda>s. m_mem s (mp + 12))) (\<lambda>imcrp.
         whenk (imcrp \<noteq> 0) (modify (\<lambda>s. s\<lparr>m_imcr := True\<rparr>)))))))"

subsection \<open>Properties\<close>

lemma add_cpu_sel [simp]: "m_mem (add_cpu a s) = m_mem s"
  by (simp add: add_cpu_def)

lemma mp_entries_cases:
  "(\<exists>s'. mp_entries conf len k s = Inr ((), s') \<and> m_mem s' = m_mem s \<and>
      (length (m_apicids s) \<le> NCPU \<longrightarrow> length (m_apicids s') \<le> NCPU)) \<or> mp_entries conf len k s = Inl Diverges"
proof (induction conf len k s rule: mp_entries.induct)
  case (1 conf len k s)
  let ?p = "conf + of_nat k"
  have "length (m_apicids (add_cpu a s)) \<le> NCPU" if "length (m_apicids s) \<le> NCPU" for a
    using that by (simp add: add_cpu_def)
  then show ?case
    using 1(1)[OF _ refl refl] 1(2)[OF _ refl refl] 1(3)[OF _ refl refl]
    by (subst (1 2) mp_entries.simps) (auto simp: Let_def)
qed

text \<open>An unknown entry stops the loop for good.\<close>

lemma mp_entries_unknown: "k < len \<Longrightarrow> m_mem s (conf + of_nat k) > 4 \<Longrightarrow> mp_entries conf len k s = Inl Diverges"
  by (subst mp_entries.simps) (auto simp: Let_def word_less_nat_alt)

text \<open>The panic after the loop for a table with an unknown entry is never reached: \<open>mpinit\<close> either finds no configuration, or
  returns with at most as many processors as there is room for, or hangs.\<close>

lemma mpinit_outcomes:
  assumes "length (m_apicids s) \<le> NCPU"
  shows "mpinit s = Inl (Panic ''Expect to run on an SMP'') \<or> mpinit s = Inl Diverges \<or>
    (\<exists>s'. mpinit s = Inr ((), s') \<and> length (m_apicids s') \<le> NCPU)"
proof (cases "mpconfig (m_mem s)")
  case None
  then show ?thesis by (simp add: mpinit_def run_simps)
next
  case (Some mc)
  then obtain mp conf where c: "mpconfig (m_mem s) = Some (mp, conf)" by (cases mc) simp
  let ?s = "s\<lparr>m_lapic := ld32 (m_mem s) (conf + 36)\<rparr>"
  have "mpinit s = (case mp_entries conf (conf_length (m_mem s) conf) MPCONF_SIZE ?s of
      Inl h \<Rightarrow> Inl h | Inr (x, t) \<Rightarrow> Inr ((), if m_mem t (mp + 12) \<noteq> 0 then t\<lparr>m_imcr := True\<rparr> else t))"
    by (simp add: mpinit_def c bnd_def run_simps split: sum.split)
  then show ?thesis
    using mp_entries_cases[of conf "conf_length (m_mem s) conf" MPCONF_SIZE ?s] assms by auto
qed

end
