(* ===== verification/Trap.thy ===== *)
theory Trap
  imports Console_Spec
begin

text \<open>
  The entry points of the kernel: the dispatch of system calls (\<^verbatim>\<open>syscall.c\<close>) and of traps and interrupts
  (\<^verbatim>\<open>trap.c\<close>), over the operations of the other theories and with the console as the only device. The trap frame is in
  kernel memory at the address \<open>tf\<close>. The disk is the memory disk, whose interrupt handler does nothing; acknowledging an
  interrupt has no effect on the state. A run ends by returning to the interrupted code, by the exit of the process, or where the
  process gives up the processor at the end of its time slice; \<open>trap_resume\<close> is what follows when it gets it back.
\<close>

subsection \<open>System calls\<close>

text \<open>\<open>exit\<close> does not return to its caller.\<close>

datatype call_end = Returns int | Gone

definition returns :: "('a console_scheme, int) kernel \<Rightarrow> ('a console_scheme, call_end) kernel" where
  "returns f = bnd f (\<lambda>r. ret (Returns r))"

definition syscalls :: "int \<Rightarrow> ('a console_scheme, call_end) kernel option" where
  "syscalls num =
     (if num = 1 then Some (returns sys_fork)
      else if num = 2 then Some (bnd sys_exit (\<lambda>_. ret Gone))
      else if num = 3 then Some (returns sys_wait)
      else if num = 4 then Some (returns sys_pipe)
      else if num = 5 then Some (returns (sys_read console_devsw))
      else if num = 6 then Some (returns sys_kill)
      else if num = 7 then Some (returns (sys_exec console_devsw))
      else if num = 8 then Some (returns sys_fstat)
      else if num = 9 then Some (returns (sys_chdir console_devsw))
      else if num = 10 then Some (returns sys_dup)
      else if num = 11 then Some (returns sys_getpid)
      else if num = 12 then Some (returns sys_sbrk)
      else if num = 13 then Some (returns sys_sleep)
      else if num = 14 then Some (returns sys_uptime)
      else if num = 15 then Some (returns (sys_open console_devsw))
      else if num = 16 then Some (returns (sys_write console_devsw))
      else if num = 17 then Some (returns (sys_mknod console_devsw))
      else if num = 18 then Some (returns (sys_unlink console_devsw))
      else if num = 19 then Some (returns (sys_link console_devsw))
      else if num = 20 then Some (returns (sys_mkdir console_devsw))
      else if num = 21 then Some (returns sys_close)
      else if num = 22 then Some (returns sys_getuid)
      else if num = 23 then Some (returns sys_getgid)
      else if num = 24 then Some (returns sys_setuid)
      else if num = 25 then Some (returns sys_login)
      else if num = 26 then Some (returns sys_whoami)
      else if num = 27 then Some (returns (sys_chmod console_devsw))
      else if num = 28 then Some (returns (sys_chown console_devsw))
      else if num = 29 then Some (returns sys_cansudo)
      else if num = 30 then Some (returns sys_addsudoer)
      else if num = 31 then Some (returns sys_removesudoer)
      else if num = 32 then Some (returns sys_setsuid)
      else None)"

definition set_eax :: "nat \<Rightarrow> int \<Rightarrow> ('a console_scheme, unit) kernel" where
  "set_eax p r = modify (\<lambda>s. set_word (p_tf (procs s ! p) + TF_EAX) (of_int r) s)"

text \<open>\<open>False\<close> when the process is gone.\<close>

definition syscall :: "('a console_scheme, bool) kernel" where
  "syscall =
     bnd myproc (\<lambda>p.
     bnd (fetch (\<lambda>s. sint (ld32 (mem s) (p_tf (procs s ! p) + TF_EAX)))) (\<lambda>num.
     case syscalls num of
       Some f \<Rightarrow>
         bnd f (\<lambda>r. case r of
           Gone \<Rightarrow> ret False
         | Returns v \<Rightarrow> bnd (set_eax p v) (\<lambda>_. ret True))
     | None \<Rightarrow>
         bnd (fetch (\<lambda>s. procs s ! p)) (\<lambda>pr.
         bnd (cprintf (cbytes ''%d %s: unknown sys call %d'' @ [10]) [(of_int (p_pid pr), []), str_arg (p_name pr), (of_int num, [])]) (\<lambda>_.
         bnd (set_eax p (-1)) (\<lambda>_. ret True)))))"

subsection \<open>Traps\<close>

definition T_SYSCALL :: uint where "T_SYSCALL = 64"
definition T_IRQ0 :: uint where "T_IRQ0 = 32"
definition IRQ_TIMER :: uint where "IRQ_TIMER = 0"
definition IRQ_KBD :: uint where "IRQ_KBD = 1"
definition IRQ_COM1 :: uint where "IRQ_COM1 = 4"
definition IRQ_IDE :: uint where "IRQ_IDE = 14"
definition IRQ_SPURIOUS :: uint where "IRQ_SPURIOUS = 31"
definition TF_TRAPNO :: uint where "TF_TRAPNO = 48"
definition TF_ERR :: uint where "TF_ERR = 52"

datatype trap_end = Back | Exited | Yields

definition killed :: "('a console_scheme, bool) kernel" where
  "killed = bnd myproc (\<lambda>p. fetch (\<lambda>s. p_killed (procs s ! p)))"

definition ld16 :: "memory \<Rightarrow> uint \<Rightarrow> ushort" where
  "ld16 m a = join16 (m a) (m (a + 1))"

definition from_user :: "uint \<Rightarrow> 'a console_scheme \<Rightarrow> bool" where
  "from_user tf s \<longleftrightarrow> ld16 (mem s) (tf + TF_CS) AND 3 = DPL_USER"

text \<open>\<^verbatim>\<open>if(myproc() && myproc()->killed && (tf->cs&3) == DPL_USER) exit();\<close>\<close>

definition killed_in_user :: "uint \<Rightarrow> 'a console_scheme \<Rightarrow> bool" where
  "killed_in_user tf s \<longleftrightarrow>
     (case cur_proc s of None \<Rightarrow> False | Some p \<Rightarrow> p_killed (procs s ! p) \<and> from_user tf s)"

definition trap_resume :: "uint \<Rightarrow> ('a console_scheme, trap_end) kernel" where
  "trap_resume tf =
     bnd (fetch (killed_in_user tf)) (\<lambda>k.
     if k then bnd exit (\<lambda>_. ret Exited) else ret Back)"

definition trap_syscall :: "uint \<Rightarrow> ('a console_scheme, trap_end) kernel" where
  "trap_syscall tf =
     bnd killed (\<lambda>k.
     if k then bnd exit (\<lambda>_. ret Exited)
     else bnd myproc (\<lambda>p.
       bnd (modify (proc_upd p (\<lambda>pr. pr\<lparr>p_tf := tf\<rparr>))) (\<lambda>_.
       bnd syscall (\<lambda>alive.
       if \<not> alive then ret Exited
       else bnd killed (\<lambda>k. if k then bnd exit (\<lambda>_. ret Exited) else ret Back)))))"

text \<open>\<open>cpu\<close> is the number of the processor and \<open>cr2\<close> its fault address register, which the code only prints.\<close>

definition trap_default :: "nat \<Rightarrow> uint \<Rightarrow> uint \<Rightarrow> ('a console_scheme, unit) kernel" where
  "trap_default cpu cr2 tf =
     bnd (fetch (\<lambda>s. (cur_proc s, ld16 (mem s) (tf + TF_CS) AND 3, ld32 (mem s) (tf + TF_TRAPNO), ld32 (mem s) (tf + TF_ERR),
            ld32 (mem s) (tf + TF_EIP)))) (\<lambda>(cp, cs, trapno, err, eip).
     case (if cs = 0 then None else cp) of
       None \<Rightarrow>
         bnd (cprintf (cbytes ''unexpected trap %d from cpu %d eip %x (cr2=0x%x)'' @ [10])
                [(trapno, []), (of_nat cpu, []), (eip, []), (cr2, [])]) (\<lambda>_. panic ''trap'')
     | Some p \<Rightarrow>
         bnd (fetch (\<lambda>s. procs s ! p)) (\<lambda>pr.
         bnd (cprintf (cbytes ''pid %d %s: trap %d err %d on cpu %d eip 0x%x addr 0x%x--kill proc'' @ [10])
                [(of_int (p_pid pr), []), str_arg (p_name pr), (trapno, []), (err, []), (of_nat cpu, []), (eip, []), (cr2, [])]) (\<lambda>_.
         modify (proc_upd p (\<lambda>pr. pr\<lparr>p_killed := True\<rparr>)))))"

definition trap_irq :: "nat \<Rightarrow> uint \<Rightarrow> uint \<Rightarrow> uint \<Rightarrow> ('a console_scheme, unit) kernel" where
  "trap_irq cpu cr2 tf trapno =
     (if trapno = T_IRQ0 + IRQ_TIMER then
        whenk (cpu = 0) (bnd (modify (\<lambda>s. s\<lparr>ticks := ticks s + 1\<rparr>)) (\<lambda>_. wakeup ChanTicks))
      else if trapno = T_IRQ0 + IRQ_IDE \<or> trapno = T_IRQ0 + IRQ_IDE + 1 then ret ()
      else if trapno = T_IRQ0 + IRQ_KBD then kbdintr
      else if trapno = T_IRQ0 + IRQ_COM1 then uartintr
      else if trapno = T_IRQ0 + 7 \<or> trapno = T_IRQ0 + IRQ_SPURIOUS then
        bnd (fetch (\<lambda>s. (ucast (ld16 (mem s) (tf + TF_CS)), ld32 (mem s) (tf + TF_EIP)))) (\<lambda>(cs, eip).
        cprintf (cbytes ''cpu%d: spurious interrupt at %x:%x'' @ [10]) [(of_nat cpu, []), (cs, []), (eip, [])])
      else trap_default cpu cr2 tf)"

definition trap :: "nat \<Rightarrow> uint \<Rightarrow> uint \<Rightarrow> ('a console_scheme, trap_end) kernel" where
  "trap cpu cr2 tf =
     bnd (fetch (\<lambda>s. ld32 (mem s) (tf + TF_TRAPNO))) (\<lambda>trapno.
     if trapno = T_SYSCALL then trap_syscall tf
     else
       bnd (trap_irq cpu cr2 tf trapno) (\<lambda>_.
       bnd (fetch (killed_in_user tf)) (\<lambda>k.
       if k then bnd exit (\<lambda>_. ret Exited)
       else
         bnd (fetch (\<lambda>s. case cur_proc s of None \<Rightarrow> False | Some p \<Rightarrow> p_state (procs s ! p) = RUNNING)) (\<lambda>running.
         if running \<and> trapno = T_IRQ0 + IRQ_TIMER then bnd yield_enter (\<lambda>_. ret Yields)
         else trap_resume tf))))"

subsection \<open>Properties\<close>

lemma killed_run: "killed s = Inr (k, s') \<Longrightarrow> s' = s \<and> (\<exists>p. cur_proc s = Some p \<and> k = p_killed (procs s ! p))"
  by (auto simp: killed_def myproc_def bnd_def run_simps split: option.splits)

lemma trap_resume_Back:
  assumes "trap_resume tf s = Inr (Back, s')"
  shows "s' = s" "\<not> killed_in_user tf s"
  using assms by (auto simp: trap_resume_def run_simps bnd_def split: if_splits sum.splits)

lemma trap_syscall_Back:
  assumes "trap_syscall tf s = Inr (Back, s')"
  shows "\<exists>p. cur_proc s' = Some p \<and> \<not> p_killed (procs s' ! p)"
  using assms unfolding trap_syscall_def
  by (auto elim!: bnd_InrE split: if_splits simp: run_simps dest!: killed_run)

text \<open>C28. A killed process does not return to user mode: a trap that goes back to user code, be it from a system call, an interrupt
  or a fault, goes back to a process that is not killed; and a process whose time slice ends is checked again when it
  is resumed.\<close>

theorem trap_never_returns_killed:
  assumes "trap cpu cr2 tf s = Inr (Back, s') \<and> (ld32 (mem s) (tf + TF_TRAPNO) = T_SYSCALL \<or> from_user tf s') \<or>
      trap_resume tf s = Inr (Back, s') \<and> from_user tf s'"
    and "cur_proc s' = Some p"
  shows "\<not> p_killed (procs s' ! p)"
proof -
  have resume: ?thesis if "trap_resume tf t = Inr (Back, s')" "from_user tf s'" for t
    using trap_resume_Back[OF that(1)] that(2) assms(2) by (simp add: killed_in_user_def)
  have syscall: ?thesis if "trap_syscall tf s = Inr (Back, s')"
    using trap_syscall_Back[OF that] assms(2) by auto
  show ?thesis
  proof (cases "ld32 (mem s) (tf + TF_TRAPNO) = T_SYSCALL")
    case True
    then have "trap cpu cr2 tf s = trap_syscall tf s" by (simp add: trap_def run_simps)
    then show ?thesis using assms(1) syscall resume by auto
  next
    case False
    then have "\<exists>t. trap_resume tf t = Inr (Back, s')" if "trap cpu cr2 tf s = Inr (Back, s')"
      using that unfolding trap_def by (auto elim!: bnd_InrE simp: run_simps split: if_splits)
    then show ?thesis using assms(1) False resume by auto
  qed
qed

definition trap_example :: console where
  "trap_example = console_example\<lparr>mem := (mem console_example)(0x80400030 := 46, 0x8040003C := 0x1B)\<rparr>"

text \<open>A disk interrupt in user code.\<close>

theorem trap_never_returns_killed_witness:
  "trap 0 0 0x80400000 trap_example = Inr (Back, trap_example) \<and> \<not> p_killed (procs trap_example ! 0)"
proof -
  let ?s = trap_example
  have m: "mem ?s = (mem (sys_example 0))(0x80400030 := 46, 0x8040003C := 0x1B)"
    "procs ?s = procs (sys_example 0)" "cur_proc ?s = Some 0"
    by (simp_all add: trap_example_def console_example_def sys.extend_def console.fields_def)
  have t: "ld32 (mem ?s) (0x80400000 + TF_TRAPNO) = 46" by (simp add: m ld32_def join32_def TF_TRAPNO_def)
  have u: "from_user 0x80400000 ?s"
    by (simp add: from_user_def m ld16_def join16_def TF_CS_def DPL_USER_def)
  have k: "\<not> killed_in_user 0x80400000 ?s" by (simp add: killed_in_user_def m)
  have r: "trap 0 0 0x80400000 ?s = Inr (Back, ?s)"
    by (simp add: trap_def t bnd_def run_simps T_SYSCALL_def trap_irq_def T_IRQ0_def IRQ_TIMER_def IRQ_IDE_def trap_resume_def k)
  have "\<not> p_killed (procs ?s ! 0)" by (rule trap_never_returns_killed[of 0 0 "0x80400000" ?s ?s]) (use r u m(3) in simp_all)
  then show ?thesis using r by simp
qed

end
