(* ===== verification/Mkfs.thy ===== *)
theory Mkfs
  imports Fs_Data Dir
begin

text \<open>
  The image builder \<^verbatim>\<open>mkfs.c\<close>, which runs on the host: the file system the kernel starts from. The image is the disk it
  writes; a file is its name and the pieces its contents are read in. A run that ends with an error gives \<open>None\<close>: an assertion
  that fails, or a block read beyond the end of the image, which is how the builder finds that the image is full. Other
  errors of the host's file operations, and what the builder prints, are not modelled. The main theorem is that the kernel finds
  what it relies on: the geometry of the superblock, an empty log, and a free map in which exactly the blocks the builder has
  given out are marked.
\<close>

subsection \<open>The image\<close>

definition FSSIZE :: nat where "FSSIZE = 1000"
definition NINODES :: nat where "NINODES = 200"
definition nbitmap :: nat where "nbitmap = FSSIZE div (BSIZE * 8) + 1"
definition ninodeblocks :: nat where "ninodeblocks = NINODES div IPB + 1"
definition nmeta :: nat where "nmeta = 2 + LOGSIZE + ninodeblocks + nbitmap"

record image =
  im_disk :: "uint \<Rightarrow> block"
  im_freeinode :: nat
  im_freeblock :: nat

text \<open>The two counters are natural numbers: they stay far below the range of \<open>uint\<close>.\<close>

text \<open>\<open>xshort\<close> and \<open>xint\<close>: the value whose bytes in memory are those of the argument in Intel order.\<close>

definition xshort :: "ushort \<Rightarrow> ushort" where
  "xshort x = join16 (ucast x) (ucast (drop_bit 8 x))"

definition xint :: "uint \<Rightarrow> uint" where
  "xint x = join32 (ucast x) (ucast (drop_bit 8 x)) (ucast (drop_bit 16 x)) (ucast (drop_bit 24 x))"

definition mkfs_sb :: superblock where
  "mkfs_sb = \<lparr>sb_size = xint (of_nat FSSIZE), sb_nblocks = xint (of_nat (FSSIZE - nmeta)), sb_ninodes = xint (of_nat NINODES),
     sb_nlog = xint (of_nat LOGSIZE), sb_logstart = xint 2, sb_inodestart = xint (of_nat (2 + LOGSIZE)),
     sb_bmapstart = xint (of_nat (2 + LOGSIZE + ninodeblocks))\<rparr>"

definition wsect :: "uint \<Rightarrow> block \<Rightarrow> image \<Rightarrow> image" where
  "wsect sec buf st = st\<lparr>im_disk := (im_disk st)(sec := buf)\<rparr>"

text \<open>The image has \<open>FSSIZE\<close> blocks from the start, and a block is read before it is first written after that.\<close>

definition rsect :: "uint \<Rightarrow> image \<Rightarrow> block option" where
  "rsect sec st = (if unat sec < FSSIZE then Some (im_disk st sec) else None)"

definition winode :: "uint \<Rightarrow> dinode \<Rightarrow> image \<Rightarrow> image option" where
  "winode inum di st =
     (let bn = IBLOCK inum mkfs_sb in
      case rsect bn st of None \<Rightarrow> None | Some buf \<Rightarrow> Some (wsect bn (put_dinode (dip_off inum) di buf) st))"

definition rinode :: "uint \<Rightarrow> image \<Rightarrow> dinode option" where
  "rinode inum st =
     (case rsect (IBLOCK inum mkfs_sb) st of None \<Rightarrow> None | Some buf \<Rightarrow> Some (get_dinode buf (dip_off inum)))"

definition mkfs_ialloc :: "ushort \<Rightarrow> image \<Rightarrow> (uint \<times> image) option" where
  "mkfs_ialloc type st =
     (let inum = of_nat (im_freeinode st);
          din = \<lparr>d_type = xshort type, d_major = 0, d_minor = 0, d_nlink = xshort 1, d_size = xint 0,
                 d_uid = 0, d_gid = 0, d_mode = 0, d_addrs = replicate (NDIRECT + 1) 0\<rparr>
      in case winode inum din (st\<lparr>im_freeinode := im_freeinode st + 1\<rparr>) of None \<Rightarrow> None | Some st \<Rightarrow> Some (inum, st))"

definition bitmap_block :: "nat \<Rightarrow> block" where
  "bitmap_block n = fold set_bit_used [0..<n] (\<lambda>_. 0)"

definition mkfs_balloc :: "nat \<Rightarrow> image \<Rightarrow> image option" where
  "mkfs_balloc n st =
     (if n < BSIZE * 8 then Some (wsect (sb_bmapstart mkfs_sb) (bitmap_block n) st) else None)"

subsection \<open>Appending to a file\<close>

definition take_block :: "image \<Rightarrow> uint \<times> image" where
  "take_block st = (of_nat (im_freeblock st), st\<lparr>im_freeblock := im_freeblock st + 1\<rparr>)"

text \<open>The block for the part \<open>fbn\<close> of the file, which is allocated if there is none yet.\<close>

definition append_block :: "nat \<Rightarrow> dinode \<Rightarrow> image \<Rightarrow> (uint \<times> dinode \<times> image) option" where
  "append_block fbn din st =
     (if fbn < NDIRECT then
        let (din, st) = (if xint (d_addrs din ! fbn) = 0
                         then case take_block st of (b, st) \<Rightarrow> (din\<lparr>d_addrs := (d_addrs din)[fbn := xint b]\<rparr>, st)
                         else (din, st))
        in Some (xint (d_addrs din ! fbn), din, st)
      else
        let (din, st) = (if xint (d_addrs din ! NDIRECT) = 0
                         then case take_block st of (b, st) \<Rightarrow> (din\<lparr>d_addrs := (d_addrs din)[NDIRECT := xint b]\<rparr>, st)
                         else (din, st));
            k = 4 * (fbn - NDIRECT)
        in case rsect (xint (d_addrs din ! NDIRECT)) st of
             None \<Rightarrow> None
           | Some indirect \<Rightarrow>
               let (indirect, st) = (if bld32 indirect k = 0
                                     then case take_block st of (b, st) \<Rightarrow>
                                       let indirect = bst32 indirect k (xint b)
                                       in (indirect, wsect (xint (d_addrs din ! NDIRECT)) indirect st)
                                     else (indirect, st))
               in Some (xint (bld32 indirect k), din, st))"

definition copy_in :: "nat \<Rightarrow> byte list \<Rightarrow> block \<Rightarrow> block" where
  "copy_in pos bs b = (\<lambda>k. if pos \<le> k \<and> k < pos + length bs then bs ! (k - pos) else b k)"

lemma append_room: "0 < (off div BSIZE + 1) * BSIZE - (off :: nat)"
  using dividend_less_times_div[OF BSIZE_pos, of off] by (simp add: algebra_simps)

function iappend_loop :: "dinode \<Rightarrow> nat \<Rightarrow> byte list \<Rightarrow> image \<Rightarrow> (dinode \<times> nat \<times> image) option" where
  "iappend_loop din off bs st =
     (if bs = [] then Some (din, off, st)
      else let fbn = off div BSIZE in
        if \<not> fbn < MAXFILE then None
        else case append_block fbn din st of None \<Rightarrow> None | Some (x, din, st) \<Rightarrow>
          let n1 = min (length bs) ((fbn + 1) * BSIZE - off) in
          case rsect x st of None \<Rightarrow> None | Some buf \<Rightarrow>
            iappend_loop din (off + n1) (drop n1 bs) (wsect x (copy_in (off - fbn * BSIZE) (take n1 bs) buf) st))"
  by pat_completeness auto
termination
  by (relation "measure (\<lambda>(din, off, bs, st). length bs)")
    (use append_room in \<open>auto simp: min_def\<close>)

declare iappend_loop.simps [simp del]

definition iappend :: "uint \<Rightarrow> byte list \<Rightarrow> image \<Rightarrow> image option" where
  "iappend inum bs st =
     (case rinode inum st of None \<Rightarrow> None | Some din \<Rightarrow>
      case iappend_loop din (unat (xint (d_size din))) bs st of
        None \<Rightarrow> None
      | Some (din, off, st) \<Rightarrow> winode inum (din\<lparr>d_size := xint (of_nat off)\<rparr>) st)"

subsection \<open>The program\<close>

definition dirent_bytes :: "uint \<Rightarrow> byte list \<Rightarrow> byte list" where
  "dirent_bytes inum name = mk_dirent (xshort (ucast inum)) name"

primrec append_pieces :: "uint \<Rightarrow> byte list list \<Rightarrow> image \<Rightarrow> image option" where
  "append_pieces inum [] st = Some st"
| "append_pieces inum (p # ps) st =
     (case iappend inum p st of None \<Rightarrow> None | Some st \<Rightarrow> append_pieces inum ps st)"

definition add_file :: "uint \<Rightarrow> byte list \<times> byte list list \<Rightarrow> image \<Rightarrow> image option" where
  "add_file rootino f st =
     (case f of (arg, pieces) \<Rightarrow>
      if of_char (CHR ''/'') \<in> set arg then None
      else let name = (if rd arg = of_char (CHR ''_'') then tl arg else arg) in
        case mkfs_ialloc T_FILE st of None \<Rightarrow> None | Some (inum, st) \<Rightarrow>
        (case iappend rootino (dirent_bytes inum (strncpy (replicate DIRSIZ 0) name DIRSIZ)) st of
           None \<Rightarrow> None
         | Some st \<Rightarrow> append_pieces inum pieces st))"

primrec add_files :: "uint \<Rightarrow> (byte list \<times> byte list list) list \<Rightarrow> image \<Rightarrow> image option" where
  "add_files rootino [] st = Some st"
| "add_files rootino (f # fs) st =
     (case add_file rootino f st of None \<Rightarrow> None | Some st \<Rightarrow> add_files rootino fs st)"

definition empty_image :: image where
  "empty_image = \<lparr>im_disk = \<lambda>_ _. 0, im_freeinode = 1, im_freeblock = nmeta\<rparr>"

definition sb_block :: block where
  "sb_block = fold (\<lambda>(k, w) b. bst32 b k w)
     [(0, sb_size mkfs_sb), (4, sb_nblocks mkfs_sb), (8, sb_ninodes mkfs_sb), (12, sb_nlog mkfs_sb),
      (16, sb_logstart mkfs_sb), (20, sb_inodestart mkfs_sb), (24, sb_bmapstart mkfs_sb)] (\<lambda>_. 0)"

definition fix_root_size :: "uint \<Rightarrow> image \<Rightarrow> image option" where
  "fix_root_size rootino st =
     (case rinode rootino st of None \<Rightarrow> None | Some din \<Rightarrow>
      let off = xint (d_size din);
          off = (off div of_nat BSIZE + 1) * of_nat BSIZE
      in winode rootino (din\<lparr>d_size := xint off\<rparr>) st)"

definition mkfs :: "(byte list \<times> byte list list) list \<Rightarrow> image option" where
  "mkfs files =
     (case mkfs_ialloc T_DIR (wsect 1 sb_block empty_image) of None \<Rightarrow> None | Some (rootino, st) \<Rightarrow>
      if rootino \<noteq> ROOTINO then None
      else case iappend rootino (dirent_bytes rootino (cbytes ''.'' @ replicate 13 0)) st of
        None \<Rightarrow> None
      | Some st \<Rightarrow>
        case iappend rootino (dirent_bytes rootino (cbytes ''..'' @ replicate 12 0)) st of
          None \<Rightarrow> None
        | Some st \<Rightarrow>
          case add_files rootino files st of
            None \<Rightarrow> None
          | Some st \<Rightarrow>
            case fix_root_size rootino st of None \<Rightarrow> None | Some st \<Rightarrow> mkfs_balloc (im_freeblock st) st)"

subsection \<open>Where the blocks of the files are\<close>

lemma xint_id [simp]: "xint x = x"
  by (simp add: xint_def)

text \<open>The places of an inode that hold a block: the parts of the file, and the block of indirect addresses.\<close>

datatype slot = Part nat | Ind

definition part :: "(uint \<Rightarrow> block) \<Rightarrow> dinode \<Rightarrow> nat \<Rightarrow> uint" where
  "part v di b = (if b < NDIRECT then d_addrs di ! b else if d_addrs di ! NDIRECT = 0 then 0
     else bld32 (v (d_addrs di ! NDIRECT)) (4 * (b - NDIRECT)))"

primrec addr :: "(uint \<Rightarrow> block) \<Rightarrow> dinode \<Rightarrow> slot \<Rightarrow> uint" where
  "addr v di (Part b) = (if b < MAXFILE then part v di b else 0)"
| "addr v di Ind = d_addrs di ! NDIRECT"

text \<open>The inodes below \<open>n\<close> share no block, their blocks have been given out, and the rest of the disk is empty.\<close>

definition layout :: "nat \<Rightarrow> (nat \<Rightarrow> dinode) \<Rightarrow> (uint \<Rightarrow> block) \<Rightarrow> nat \<Rightarrow> bool" where
  "layout n D v free \<longleftrightarrow>
     (\<forall>i < n. length (d_addrs (D i)) = NDIRECT + 1 \<and>
        (\<forall>s. addr v (D i) s \<noteq> 0 \<longrightarrow> nmeta \<le> unat (addr v (D i) s) \<and> unat (addr v (D i) s) < free)) \<and>
     (\<forall>i < n. \<forall>j < n. \<forall>s t. addr v (D i) s \<noteq> 0 \<longrightarrow> addr v (D i) s = addr v (D j) t \<longrightarrow> i = j \<and> s = t) \<and>
     (\<forall>b. free \<le> unat b \<longrightarrow> v b = (\<lambda>_. 0)) \<and> nmeta \<le> free"

text \<open>Contents that only grow: every part keeps its block, and the block what it held.\<close>

definition grows :: "nat \<Rightarrow> (nat \<Rightarrow> dinode) \<Rightarrow> (uint \<Rightarrow> block) \<Rightarrow> (nat \<Rightarrow> dinode) \<Rightarrow> (uint \<Rightarrow> block) \<Rightarrow> bool" where
  "grows n D v D' v' \<longleftrightarrow> (\<forall>i < n. \<forall>b < MAXFILE. part v (D i) b \<noteq> 0 \<longrightarrow>
     part v' (D' i) b = part v (D i) b \<and> v' (part v (D i) b) = v (part v (D i) b)) \<and>
     (\<forall>b. unat b < nmeta \<longrightarrow> v' b = v b)"

lemma grows_trans: "grows n D v D' v' \<Longrightarrow> grows n D' v' D'' v'' \<Longrightarrow> grows n D v D'' v''"
  unfolding grows_def by (metis (no_types, lifting))

lemma layoutD:
  assumes "layout n D v free" "i < n"
  shows "length (d_addrs (D i)) = NDIRECT + 1"
    "addr v (D i) s \<noteq> 0 \<Longrightarrow> nmeta \<le> unat (addr v (D i) s)" "addr v (D i) s \<noteq> 0 \<Longrightarrow> unat (addr v (D i) s) < free"
  using assms by (auto simp: layout_def)

lemma layout_apart: "layout n D v free \<Longrightarrow> i < n \<Longrightarrow> j < n \<Longrightarrow> addr v (D i) s \<noteq> 0 \<Longrightarrow> addr v (D i) s = addr v (D j) t \<Longrightarrow> i = j \<and> s = t"
  unfolding layout_def by blast

lemma layout_free: "layout n D v free \<Longrightarrow> free \<le> unat b \<Longrightarrow> v b = (\<lambda>_. 0)" "layout n D v free \<Longrightarrow> nmeta \<le> free"
  by (simp_all add: layout_def)

lemma layout_cong:
  assumes L: "layout n D v free" and a: "\<And>j s. j < n \<Longrightarrow> addr v' (D' j) s = addr v (D j) s"
    and len: "\<And>j. j < n \<Longrightarrow> length (d_addrs (D' j)) = length (d_addrs (D j))" and rest: "\<And>b. free \<le> unat b \<Longrightarrow> v' b = v b"
  shows "layout n D' v' free"
  unfolding layout_def
proof (intro conjI allI impI)
  fix j k s t assume jk: "j < n" "k < n" and "addr v' (D' j) s \<noteq> 0" "addr v' (D' j) s = addr v' (D' k) t"
  then show "j = k" "s = t" using layout_apart[OF L jk, of s t] a jk by auto
qed (use layoutD[OF L] layout_free[OF L] a len rest in auto)

lemma nmeta_val: "nmeta = 40"
  by (simp add: nmeta_def ninodeblocks_def nbitmap_def NINODES_def IPB_def FSSIZE_def BSIZE_def LOGSIZE_def DINODE_SIZE_def)

text \<open>Giving the free block to a place that has none.\<close>

lemma layout_take:
  assumes L: "layout n D v free" and i: "i < n" and f: "free < FSSIZE" and z: "addr v (D i) s0 = 0"
    and len: "length (d_addrs di) = NDIRECT + 1"
    and new: "addr v' di s0 = of_nat free" "\<And>s. s \<noteq> s0 \<Longrightarrow> addr v' di s = addr v (D i) s"
    and others: "\<And>j s. j < n \<Longrightarrow> j \<noteq> i \<Longrightarrow> addr v' (D j) s = addr v (D j) s"
    and rest: "\<And>b. free < unat b \<Longrightarrow> v' b = v b"
  shows "layout n (D(i := di)) v' (Suc free)"
proof -
  have u: "unat (of_nat free :: uint) = free" using f by (simp add: FSSIZE_def unat_of_nat)
  have m: "nmeta \<le> free" using layout_free(2)[OF L] .
  let ?D = "D(i := di)"
  have a: "addr v' (?D j) s = (if j = i \<and> s = s0 then of_nat free else addr v (D j) s)" if "j < n" for j s
    using new others[OF that] by auto
  have old: "unat (addr v (D j) s) < free" if "j < n" "addr v (D j) s \<noteq> 0" for j s using layoutD(3)[OF L that] .
  have ne: "addr v (D j) s \<noteq> of_nat free" if "j < n" "addr v (D j) s \<noteq> 0" for j s using old[OF that] u by auto
  have nz: "(of_nat free :: uint) \<noteq> 0" using u m by (auto simp: nmeta_val)
  show ?thesis unfolding layout_def
  proof (intro conjI allI impI)
    fix j assume j: "j < n"
    show "length (d_addrs (?D j)) = NDIRECT + 1" using layoutD(1)[OF L j] len by simp
    fix s assume "addr v' (?D j) s \<noteq> 0"
    then show "nmeta \<le> unat (addr v' (?D j) s)" "unat (addr v' (?D j) s) < Suc free"
      using a[OF j, of s] layoutD(2,3)[OF L j, of s] u m by (auto split: if_splits)
  next
    fix j k s t assume jk: "j < n" "k < n" and nz': "addr v' (?D j) s \<noteq> 0" and eq: "addr v' (?D j) s = addr v' (?D k) t"
    have "j = k \<and> s = t"
      using nz' eq a[OF jk(1), of s] a[OF jk(2), of t] ne[OF jk(1), of s] ne[OF jk(2), of t] nz layout_apart[OF L jk, of s t]
      by (auto split: if_splits)
    then show "j = k" "s = t" by auto
  qed (use m rest layout_free(1)[OF L] in \<open>auto simp: Suc_le_eq\<close>)
qed

lemma grows_take:
  assumes "layout n D v free" "i < n" "addr v (D i) s0 = 0" "\<And>s. s \<noteq> s0 \<Longrightarrow> addr v' di s = addr v (D i) s"
    and "\<And>j s. j < n \<Longrightarrow> j \<noteq> i \<Longrightarrow> addr v' (D j) s = addr v (D j) s"
    and "\<And>j b. j < n \<Longrightarrow> b < MAXFILE \<Longrightarrow> part v (D j) b \<noteq> 0 \<Longrightarrow> v' (part v (D j) b) = v (part v (D j) b)"
    and "\<And>b. unat b < nmeta \<Longrightarrow> v' b = v b"
  shows "grows n D v (D(i := di)) v'"
  unfolding grows_def
proof (intro conjI allI impI)
  fix j b assume j: "j < n" and b: "b < MAXFILE" and nz: "part v (D j) b \<noteq> 0"
  show "v' (part v (D j) b) = v (part v (D j) b)" by (rule assms(6)[OF j b nz])
  show "part v' ((D(i := di)) j) b = part v (D j) b"
  proof (cases "j = i")
    case True
    have "Part b \<noteq> s0" using assms(3) nz b True by auto
    then show ?thesis using assms(4)[of "Part b"] b True by simp
  next
    case False
    then show ?thesis using assms(5)[OF j False, of "Part b"] b by simp
  qed
qed (rule assms(7))

lemma NDIRECT_MAXFILE: "NDIRECT < MAXFILE"
  by (simp add: MAXFILE_def NDIRECT_def NINDIRECT_def BSIZE_def)

lemma take_direct:
  assumes L: "layout n D v free" and i: "i < n" and f: "free < FSSIZE" and b: "fbn < NDIRECT" and z: "d_addrs (D i) ! fbn = 0"
  defines "di \<equiv> (D i)\<lparr>d_addrs := (d_addrs (D i))[fbn := of_nat free]\<rparr>"
  shows "layout n (D(i := di)) v (Suc free)" "grows n D v (D(i := di)) v"
proof -
  have len: "length (d_addrs (D i)) = NDIRECT + 1" using layoutD(1)[OF L i] .
  have m: "fbn < MAXFILE" using b NDIRECT_MAXFILE by simp
  have z': "addr v (D i) (Part fbn) = 0" using z b m by (simp add: part_def)
  have new: "addr v di (Part fbn) = of_nat free" using b m len by (simp add: di_def part_def)
  have other: "addr v di s = addr v (D i) s" if "s \<noteq> Part fbn" for s
    using that b by (cases s) (auto simp: di_def part_def)
  show "layout n (D(i := di)) v (Suc free)"
    by (rule layout_take[OF L i f z' _ new other]) (use len in \<open>simp_all add: di_def\<close>)
  show "grows n D v (D(i := di)) v" by (rule grows_take[OF L i z' other]) simp_all
qed

lemma take_indirect:
  assumes L: "layout n D v free" and i: "i < n" and f: "free < FSSIZE" and z: "d_addrs (D i) ! NDIRECT = 0"
  defines "di \<equiv> (D i)\<lparr>d_addrs := (d_addrs (D i))[NDIRECT := of_nat free]\<rparr>"
  shows "layout n (D(i := di)) v (Suc free)" "grows n D v (D(i := di)) v"
proof -
  have len: "length (d_addrs (D i)) = NDIRECT + 1" using layoutD(1)[OF L i] .
  have z': "addr v (D i) Ind = 0" using z by simp
  have new: "addr v di Ind = of_nat free" using len by (simp add: di_def)
  have "unat (of_nat free :: uint) = free" using f by (simp add: FSSIZE_def unat_of_nat)
  then have "v (of_nat free) = (\<lambda>_. 0)" using layout_free(1)[OF L] by simp
  then have "bld32 (v (of_nat free)) k = 0" for k by (simp add: bld32_def join32_def)
  then have other: "addr v di s = addr v (D i) s" if "s \<noteq> Ind" for s
    using that z len by (cases s) (auto simp: di_def part_def)
  show "layout n (D(i := di)) v (Suc free)"
    by (rule layout_take[OF L i f z' _ new other]) (use len in \<open>simp_all add: di_def\<close>)
  show "grows n D v (D(i := di)) v" by (rule grows_take[OF L i z' other]) simp_all
qed

lemma part_Ind:
  assumes "\<And>a. a = d_addrs di ! NDIRECT \<Longrightarrow> a \<noteq> 0 \<Longrightarrow> v' a = v a"
  shows "addr v' di s = addr v di s"
  using assms by (cases s) (auto simp: part_def)

lemma take_entry:
  assumes L: "layout n D v free" and i: "i < n" and f: "free < FSSIZE" and b: "NDIRECT \<le> fbn" "fbn < MAXFILE"
    and ind: "d_addrs (D i) ! NDIRECT = ind" "ind \<noteq> 0" and z: "bld32 (v ind) (4 * (fbn - NDIRECT)) = 0"
  defines "v' \<equiv> v(ind := bst32 (v ind) (4 * (fbn - NDIRECT)) (of_nat free))"
  shows "layout n D v' (Suc free)" "grows n D v D v'"
proof -
  have len: "length (d_addrs (D i)) = NDIRECT + 1" using layoutD(1)[OF L i] .
  have ia: "addr v (D i) Ind = ind" using ind by simp
  have z': "addr v (D i) (Part fbn) = 0" using z b ind by (simp add: part_def)
  have new: "addr v' (D i) (Part fbn) = of_nat free" using b ind by (simp add: part_def v'_def)
  have apart: "bld32 (bst32 B (4 * (fbn - NDIRECT)) w) (4 * (c - NDIRECT)) = bld32 B (4 * (c - NDIRECT))"
    if "c \<noteq> fbn" "\<not> c < NDIRECT" for B w c
    using that b(1) by (intro bld32_bst32_other) linarith
  have other: "addr v' (D i) s = addr v (D i) s" if "s \<noteq> Part fbn" for s
    using that b(1) ind by (cases s) (auto simp: part_def v'_def apart)
  have others: "addr v' (D j) s = addr v (D j) s" if "j < n" "j \<noteq> i" for j s
    using layout_apart[OF L i that(1), of Ind Ind] ia ind(2) that(2) by (intro part_Ind) (auto simp: v'_def)
  have data: "v' (part v (D j) c) = v (part v (D j) c)" if "j < n" "c < MAXFILE" "part v (D j) c \<noteq> 0" for j c
    using layout_apart[OF L i that(1), of Ind "Part c"] ia ind(2) that by (auto simp: v'_def)
  have low: "nmeta \<le> unat ind" "unat ind < free" using layoutD(2,3)[OF L i, of Ind] ia ind(2) by simp_all
  have "layout n (D(i := D i)) v' (Suc free)"
    by (rule layout_take[OF L i f z' len new other others]) (use low in \<open>auto simp: v'_def\<close>)
  then show "layout n D v' (Suc free)" by simp
  have "grows n D v (D(i := D i)) v'"
    by (rule grows_take[OF L i z' other others data]) (use low in \<open>auto simp: v'_def\<close>)
  then show "grows n D v D v'" by simp
qed

subsection \<open>Appending\<close>

lemma take_block_simps [simp]:
  "fst (take_block st) = of_nat (im_freeblock st)" "im_disk (snd (take_block st)) = im_disk st"
  "im_freeblock (snd (take_block st)) = Suc (im_freeblock st)" "im_freeinode (snd (take_block st)) = im_freeinode st"
  by (simp_all add: take_block_def)

lemma wsect_simps [simp]:
  "im_disk (wsect sec buf st) = (im_disk st)(sec := buf)" "im_freeblock (wsect sec buf st) = im_freeblock st"
  "im_freeinode (wsect sec buf st) = im_freeinode st"
  by (simp_all add: wsect_def)

text \<open>What \<open>append_block\<close> does, in its two steps for a part beyond the direct ones.\<close>

definition block_ok :: "nat \<Rightarrow> (nat \<Rightarrow> dinode) \<Rightarrow> nat \<Rightarrow> image \<Rightarrow> dinode \<Rightarrow> image \<Rightarrow> bool" where
  "block_ok n D i st di st' \<longleftrightarrow>
     layout n (D(i := di)) (im_disk st') (im_freeblock st') \<and> grows n D (im_disk st) (D(i := di)) (im_disk st') \<and>
     im_freeblock st \<le> im_freeblock st' \<and> im_freeinode st' = im_freeinode st \<and>
     d_size di = d_size (D i) \<and> d_type di = d_type (D i)"

lemma block_ok_refl: "layout n D (im_disk st) (im_freeblock st) \<Longrightarrow> block_ok n D i st (D i) st"
  by (simp add: block_ok_def grows_def)

lemma block_ok_trans:
  assumes "block_ok n D i st di st'" "block_ok n (D(i := di)) i st' di' st''"
  shows "block_ok n D i st di' st''"
  using assms unfolding block_ok_def by (auto intro: grows_trans)

lemma nonzero_free: "nmeta \<le> free \<Longrightarrow> free < FSSIZE \<Longrightarrow> (of_nat free :: uint) \<noteq> 0"
proof
  assume a: "nmeta \<le> free" "free < FSSIZE" "(of_nat free :: uint) = 0"
  have "unat (of_nat free :: uint) = free" using a(2) by (simp add: FSSIZE_def unat_of_nat)
  then show False using a by (simp add: nmeta_val)
qed

lemma append_direct:
  assumes L: "layout n D (im_disk st) (im_freeblock st)" and i: "i < n" and b: "fbn < NDIRECT"
    and r: "append_block fbn (D i) st = Some (x, di, st')" and f: "im_freeblock st' \<le> FSSIZE"
  shows "block_ok n D i st di st' \<and> x = part (im_disk st') di fbn \<and> x \<noteq> 0"
proof (cases "d_addrs (D i) ! fbn = 0")
  case False
  then show ?thesis using r b block_ok_refl[OF L, of i] by (auto simp: append_block_def part_def)
next
  case True
  let ?di = "(D i)\<lparr>d_addrs := (d_addrs (D i))[fbn := of_nat (im_freeblock st)]\<rparr>"
  have e: "x = of_nat (im_freeblock st)" "di = ?di" "st' = st\<lparr>im_freeblock := Suc (im_freeblock st)\<rparr>"
    using r b True layoutD(1)[OF L i] by (auto simp: append_block_def take_block_def)
  have fr: "im_freeblock st < FSSIZE" using f e(3) by simp
  note T = take_direct[OF L i fr b True]
  have "block_ok n D i st di st'" using T by (simp add: block_ok_def e)
  then show ?thesis using nonzero_free[OF layout_free(2)[OF L] fr] b layoutD(1)[OF L i] by (simp add: e part_def)
qed

definition ensure_ind :: "dinode \<Rightarrow> image \<Rightarrow> dinode \<times> image" where
  "ensure_ind din st = (if d_addrs din ! NDIRECT = 0
     then (din\<lparr>d_addrs := (d_addrs din)[NDIRECT := of_nat (im_freeblock st)]\<rparr>, st\<lparr>im_freeblock := Suc (im_freeblock st)\<rparr>)
     else (din, st))"

definition ensure_entry :: "nat \<Rightarrow> uint \<Rightarrow> image \<Rightarrow> image" where
  "ensure_entry k ind st = (if bld32 (im_disk st ind) k = 0
     then st\<lparr>im_freeblock := Suc (im_freeblock st), im_disk := (im_disk st)(ind := bst32 (im_disk st ind) k (of_nat (im_freeblock st)))\<rparr>
     else st)"

lemma append_block_indirect:
  "\<not> fbn < NDIRECT \<Longrightarrow> append_block fbn din st = (case ensure_ind din st of (di, st1) \<Rightarrow>
     let ind = d_addrs di ! NDIRECT; st2 = ensure_entry (4 * (fbn - NDIRECT)) ind st1
     in if unat ind < FSSIZE then Some (bld32 (im_disk st2 ind) (4 * (fbn - NDIRECT)), di, st2) else None)"
  by (simp add: append_block_def ensure_ind_def ensure_entry_def take_block_def wsect_def rsect_def Let_def)

lemma append_indirect:
  assumes L: "layout n D (im_disk st) (im_freeblock st)" and i: "i < n" and b: "\<not> fbn < NDIRECT" "fbn < MAXFILE"
    and r: "append_block fbn (D i) st = Some (x, di, st')" and f: "im_freeblock st' \<le> FSSIZE"
  shows "block_ok n D i st di st' \<and> x = part (im_disk st') di fbn \<and> x \<noteq> 0"
proof -
  obtain st1 where 1: "ensure_ind (D i) st = (di, st1)"
    using r unfolding append_block_indirect[OF b(1)] by (auto simp: Let_def split: prod.splits if_splits)
  let ?k = "4 * (fbn - NDIRECT)" and ?ind = "d_addrs di ! NDIRECT"
  have 2: "st' = ensure_entry ?k ?ind st1" "x = bld32 (im_disk st' ?ind) ?k"
    using r unfolding append_block_indirect[OF b(1)] 1 by (auto simp: Let_def split: if_splits)
  have mono: "im_freeblock st1 \<le> im_freeblock st'" unfolding 2 ensure_entry_def by simp
  have len: "length (d_addrs (D i)) = NDIRECT + 1" using layoutD(1)[OF L i] .
  have A: "block_ok n D i st di st1 \<and> ?ind \<noteq> 0"
  proof (cases "d_addrs (D i) ! NDIRECT = 0")
    case True
    have fr: "im_freeblock st < FSSIZE" using 1 True mono f by (auto simp: ensure_ind_def)
    show ?thesis using take_indirect[OF L i fr True] 1 True len nonzero_free[OF layout_free(2)[OF L] fr]
      by (auto simp: ensure_ind_def block_ok_def)
  qed (use 1 block_ok_refl[OF L] in \<open>auto simp: ensure_ind_def\<close>)
  let ?D = "D(i := di)"
  have L1: "layout n ?D (im_disk st1) (im_freeblock st1)" using A by (simp add: block_ok_def)
  have B: "block_ok n ?D i st1 di st' \<and> x \<noteq> 0"
  proof (cases "bld32 (im_disk st1 ?ind) ?k = 0")
    case True
    have fr: "im_freeblock st1 < FSSIZE" using 2(1) True f by (simp add: ensure_entry_def)
    have "block_ok n ?D i st1 (?D i) st'"
      using take_entry[OF L1 i fr _ b(2), of ?ind] b(1) A True by (simp add: block_ok_def 2(1) ensure_entry_def)
    then show ?thesis using nonzero_free[OF layout_free(2)[OF L1] fr] True by (simp add: 2 ensure_entry_def)
  next
    case False
    then have e: "st' = st1" by (simp add: 2(1) ensure_entry_def)
    then show ?thesis using block_ok_refl[OF L1, of i] False 2(2) by simp
  qed
  have "block_ok n D i st di st'" by (rule block_ok_trans) (use A B in auto)
  then show ?thesis using A B b(1) 2(2) by (simp add: part_def)
qed

lemma append_block_ok:
  assumes "layout n D (im_disk st) (im_freeblock st)" "i < n" "fbn < MAXFILE" "append_block fbn (D i) st = Some (x, di, st')" "im_freeblock st' \<le> FSSIZE"
  shows "block_ok n D i st di st' \<and> x = part (im_disk st') di fbn \<and> x \<noteq> 0"
  using append_direct[OF assms(1,2) _ assms(4,5)] append_indirect[OF assms(1,2) _ assms(3,4,5)] by blast

text \<open>The blocks of an inode hold a sequence of bytes.\<close>

definition holds :: "(uint \<Rightarrow> block) \<Rightarrow> dinode \<Rightarrow> byte list \<Rightarrow> bool" where
  "holds v di c \<longleftrightarrow> length c \<le> MAXFILE * BSIZE \<and>
     (\<forall>k < length c. part v di (k div BSIZE) \<noteq> 0 \<and> v (part v di (k div BSIZE)) (k mod BSIZE) = c ! k)"

lemma part_in_file: "holds v di c \<Longrightarrow> k < length c \<Longrightarrow> k div BSIZE < MAXFILE"
  by (metis (no_types) holds_def less_le_trans less_mult_imp_div_less)

lemma grows_holds:
  assumes "grows n D v D' v'" "i < n" "holds v (D i) c"
  shows "holds v' (D' i) c"
  using assms part_in_file[OF assms(3)] unfolding holds_def grows_def by auto

lemma write_part:
  fixes B :: block
  assumes L: "layout n D v free" and i: "i < n" and x: "part v (D i) fbn = x" "x \<noteq> 0" and b: "fbn < MAXFILE"
  defines "v' \<equiv> v(x := B)"
  shows "layout n D v' free" "\<And>j s. j < n \<Longrightarrow> addr v' (D j) s = addr v (D j) s"
    "\<And>j c. j < n \<Longrightarrow> c < MAXFILE \<Longrightarrow> part v (D j) c \<noteq> 0 \<Longrightarrow> (j, c) \<noteq> (i, fbn) \<Longrightarrow> v' (part v (D j) c) = v (part v (D j) c)"
    "\<And>bn. unat bn < nmeta \<Longrightarrow> v' bn = v bn"
proof -
  have xa: "addr v (D i) (Part fbn) = x" using x(1) b by simp
  have ind: "d_addrs (D j) ! NDIRECT \<noteq> x" if "j < n" for j
  proof
    assume e: "d_addrs (D j) ! NDIRECT = x"
    have "Part fbn = Ind" using xa x(2) e layout_apart[OF L i that, of "Part fbn" Ind] by simp
    then show False by simp
  qed
  show a: "addr v' (D j) s = addr v (D j) s" if "j < n" for j s
    by (rule part_Ind) (use ind[OF that] in \<open>simp add: v'_def\<close>)
  show "v' (part v (D j) c) = v (part v (D j) c)" if "j < n" "c < MAXFILE" "part v (D j) c \<noteq> 0" "(j, c) \<noteq> (i, fbn)" for j c
  proof -
    have "part v (D j) c \<noteq> x"
    proof
      assume e: "part v (D j) c = x"
      have "addr v (D j) (Part c) = x" using e that(2) by simp
      then have "i = j \<and> Part fbn = Part c" using xa x(2) by (intro layout_apart[OF L i that(1)]) simp_all
      then show False using that(4) by simp
    qed
    then show ?thesis by (simp add: v'_def)
  qed
  have low: "nmeta \<le> unat x" "unat x < free" using layoutD(2,3)[OF L i, of "Part fbn"] xa x(2) by simp_all
  then show "v' bn = v bn" if "unat bn < nmeta" for bn using that by (auto simp: v'_def)
  have rest: "v' bn = v bn" if "free \<le> unat bn" for bn using that low by (auto simp: v'_def)
  show "layout n D v' free" by (rule layout_cong[OF L]) (rule a refl rest, assumption?)+
qed

lemma write_holds:
  assumes L: "layout n D v free" and i: "i < n" and x: "part v (D i) fbn = x" "x \<noteq> 0" and b: "fbn < MAXFILE"
    and c: "length c = fbn * BSIZE + pos" "pos + length bs \<le> BSIZE" and h: "holds v (D i) c"
  shows "holds (v(x := copy_in pos bs (v x))) (D i) (c @ bs)"
proof -
  let ?v = "v(x := copy_in pos bs (v x))"
  note W = write_part[OF L i x b, where B = "copy_in pos bs (v x)"]
  have p: "part ?v (D i) d = part v (D i) d" if "d < MAXFILE" for d using W(2)[OF i, of "Part d"] that by simp
  have len: "length (c @ bs) \<le> (fbn + 1) * BSIZE" using c by simp
  have "(fbn + 1) * BSIZE \<le> MAXFILE * BSIZE" using b by (intro mult_le_mono1) simp
  then have le: "length (c @ bs) \<le> MAXFILE * BSIZE" using len by linarith
  have "part ?v (D i) (k div BSIZE) \<noteq> 0 \<and> ?v (part ?v (D i) (k div BSIZE)) (k mod BSIZE) = (c @ bs) ! k" if k: "k < length (c @ bs)" for k
  proof -
    have km: "k div BSIZE < MAXFILE" using k le by (metis less_le_trans less_mult_imp_div_less)
    have dm: "k = k div BSIZE * BSIZE + k mod BSIZE" by simp
    show ?thesis
    proof (cases "k < length c")
      case True
      have o: "part v (D i) (k div BSIZE) \<noteq> 0" "v (part v (D i) (k div BSIZE)) (k mod BSIZE) = c ! k" using h True by (auto simp: holds_def)
      have "?v (part v (D i) (k div BSIZE)) (k mod BSIZE) = c ! k"
      proof (cases "k div BSIZE = fbn")
        case e: True
        then have "k mod BSIZE < pos" using True c(1) dm by simp
        then show ?thesis using o e x by (simp add: copy_in_def)
      qed (use W(3)[OF i km o(1)] o(2) in simp)
      then show ?thesis using o True unfolding p[OF km] by (simp add: nth_append)
    next
      case False
      have "fbn * BSIZE \<le> k" "k < (fbn + 1) * BSIZE" using False k len c(1) by simp_all
      then have e: "k div BSIZE = fbn" by (intro div_nat_eqI) (simp_all add: mult.commute)
      then have "k mod BSIZE = pos + (k - length c)" using dm False c(1) by simp
      then have "copy_in pos bs (v x) (k mod BSIZE) = bs ! (k - length c)" using False k by (auto simp: copy_in_def)
      then show ?thesis using False x p[OF km] e by (simp add: nth_append)
    qed
  qed
  then show ?thesis using le by (simp add: holds_def)
qed

lemma append_block_mono:
  "append_block fbn din st = Some (x, di, st') \<Longrightarrow> im_freeblock st \<le> im_freeblock st' \<and> im_freeblock st' \<le> im_freeblock st + 2"
proof (cases "fbn < NDIRECT")
  case False
  assume "append_block fbn din st = Some (x, di, st')"
  then show ?thesis unfolding append_block_indirect[OF False]
    by (auto simp: Let_def ensure_ind_def ensure_entry_def split: if_splits)
qed (auto simp: append_block_def take_block_def split: if_splits)

lemma unat_free: "free \<le> FSSIZE \<Longrightarrow> unat (of_nat free :: uint) = free"
  by (simp add: FSSIZE_def unat_of_nat)

lemma append_block_bound:
  assumes r: "append_block fbn din st = Some (x, di, st')" and x: "unat x < FSSIZE" and f: "im_freeblock st \<le> FSSIZE"
    and len: "length (d_addrs din) = NDIRECT + 1"
  shows "im_freeblock st' \<le> FSSIZE"
proof (cases "fbn < NDIRECT")
  case True
  then show ?thesis using r x f len unat_free[OF f] by (auto simp: append_block_def take_block_def split: if_splits)
next
  case False
  obtain di1 st1 where e: "ensure_ind din st = (di1, st1)" by (metis surj_pair)
  let ?ind = "d_addrs di1 ! NDIRECT" and ?k = "4 * (fbn - NDIRECT)"
  have i: "unat ?ind < FSSIZE" and st': "st' = ensure_entry ?k ?ind st1" and x': "x = bld32 (im_disk st' ?ind) ?k"
    using r unfolding append_block_indirect[OF False] e by (auto simp: Let_def split: if_splits)
  have f1: "im_freeblock st1 \<le> FSSIZE" using e i f len unat_free[OF f] by (auto simp: ensure_ind_def split: if_splits)
  show ?thesis using x f1 unat_free[OF f1] unfolding x' st' by (auto simp: ensure_entry_def split: if_splits)
qed

lemma append_block_some:
  assumes L: "layout n D (im_disk st) (im_freeblock st)" and i: "i < n" and f: "im_freeblock st < FSSIZE"
  shows "\<exists>r. append_block fbn (D i) st = Some r"
proof (cases "fbn < NDIRECT")
  case True
  then show ?thesis by (simp add: append_block_def split: prod.splits)
next
  case False
  obtain di1 st1 where e: "ensure_ind (D i) st = (di1, st1)" by (metis surj_pair)
  have "unat (d_addrs di1 ! NDIRECT) < FSSIZE"
    using e layoutD(1)[OF L i] layoutD(3)[OF L i, of Ind] f unat_free[of "im_freeblock st"] by (auto simp: ensure_ind_def split: if_splits)
  then show ?thesis unfolding append_block_indirect[OF False] e by (simp add: Let_def)
qed

text \<open>One round of the loop.\<close>

definition round_len :: "nat \<Rightarrow> byte list \<Rightarrow> nat" where
  "round_len off bs = min (length bs) ((off div BSIZE + 1) * BSIZE - off)"

lemma round_len:
  "round_len off bs \<le> length bs" "round_len off bs \<le> (off div BSIZE + 1) * BSIZE - off" "bs \<noteq> [] \<Longrightarrow> 0 < round_len off bs"
  using append_room[of off] by (auto simp: round_len_def)

definition write_round :: "uint \<Rightarrow> nat \<Rightarrow> byte list \<Rightarrow> image \<Rightarrow> image" where
  "write_round x off bs st = wsect x (copy_in (off - off div BSIZE * BSIZE) (take (round_len off bs) bs) (im_disk st x)) st"

lemma iappend_loop_step:
  assumes "bs \<noteq> []" "off div BSIZE < MAXFILE" "append_block (off div BSIZE) din st = Some (x, d1, st1)"
    "unat x < FSSIZE"
  shows "iappend_loop din off bs st =
    iappend_loop d1 (off + round_len off bs) (drop (round_len off bs) bs) (write_round x off bs st1)"
  using assms by (subst iappend_loop.simps) (simp add: Let_def round_len_def write_round_def rsect_def)

lemma iappend_loop_done:
  "iappend_loop din off [] st = Some (din, off, st)" "bs \<noteq> [] \<Longrightarrow> \<not> off div BSIZE < MAXFILE \<Longrightarrow> iappend_loop din off bs st = None"
  by (subst iappend_loop.simps; simp add: Let_def)+

lemma iappend_loop_cases:
  assumes "bs \<noteq> []" "iappend_loop din off bs st = Some r"
  obtains x d1 st1 where "append_block (off div BSIZE) din st = Some (x, d1, st1)" "unat x < FSSIZE" "off div BSIZE < MAXFILE"
    "iappend_loop d1 (off + round_len off bs) (drop (round_len off bs) bs) (write_round x off bs st1) = Some r"
proof -
  have b: "off div BSIZE < MAXFILE" using iappend_loop_done(2)[OF assms(1)] assms(2) by (metis option.distinct(1))
  obtain x d1 st1 where a: "append_block (off div BSIZE) din st = Some (x, d1, st1)" "unat x < FSSIZE"
    using assms(2) unfolding iappend_loop.simps[of din off bs st] using assms(1) b
    by (auto simp: Let_def rsect_def split: option.splits if_splits)
  show thesis using that[OF a b] assms(2) unfolding iappend_loop_step[OF assms(1) b a] by simp
qed

lemma round_simps [simp]: "im_freeblock (write_round x off bs st) = im_freeblock st" "im_freeinode (write_round x off bs st) = im_freeinode st"
  by (simp_all add: write_round_def)

lemma iappend_loop_mono:
  "iappend_loop din off bs st = Some (di, off', st') \<Longrightarrow> im_freeblock st \<le> im_freeblock st' \<and> im_freeblock st' \<le> im_freeblock st + 2 * length bs"
proof (induction bs arbitrary: din off st rule: length_induct)
  case (1 bs)
  show ?case
  proof (cases "bs = []")
    case False
    from iappend_loop_cases[OF False 1(2)] obtain x d1 st1 where a: "append_block (off div BSIZE) din st = Some (x, d1, st1)"
      and r: "iappend_loop d1 (off + round_len off bs) (drop (round_len off bs) bs) (write_round x off bs st1) = Some (di, off', st')" .
    have l: "0 < round_len off bs" "round_len off bs \<le> length bs" using round_len False by auto
    have "im_freeblock st1 \<le> im_freeblock st' \<and> im_freeblock st' \<le> im_freeblock st1 + 2 * (length bs - round_len off bs)"
      using 1(1)[rule_format, OF _ r] l by simp
    then show ?thesis using append_block_mono[OF a] l by linarith
  qed (use 1(2) in \<open>simp add: iappend_loop_done\<close>)
qed

text \<open>A run of the loop: the files as they are with \<open>din\<close> for the inode that is written.\<close>

definition files_ok :: "nat \<Rightarrow> (nat \<Rightarrow> dinode) \<Rightarrow> (nat \<Rightarrow> byte list) \<Rightarrow> image \<Rightarrow> bool" where
  "files_ok n D C st \<longleftrightarrow> layout n D (im_disk st) (im_freeblock st) \<and> (\<forall>j < n. holds (im_disk st) (D j) (C j))"

definition same_meta :: "image \<Rightarrow> image \<Rightarrow> bool" where
  "same_meta st st' \<longleftrightarrow> (\<forall>b. unat b < nmeta \<longrightarrow> im_disk st' b = im_disk st b) \<and> im_freeinode st' = im_freeinode st"

lemma append_step:
  fixes bs :: "byte list"
  assumes F: "files_ok n D C st" and i: "i < n" and off: "off = length (C i)" "off div BSIZE < MAXFILE"
    and a: "append_block (off div BSIZE) (D i) st = Some (x, d1, st1)" and f: "im_freeblock st1 \<le> FSSIZE"
  defines "m \<equiv> round_len off bs" and "st2 \<equiv> write_round x off bs st1"
  shows "files_ok n (D(i := d1)) (C(i := C i @ take m bs)) st2" "same_meta st st2" "d_size d1 = d_size (D i) \<and> d_type d1 = d_type (D i)"
proof -
  let ?D = "D(i := d1)" and ?v = "im_disk st1" and ?b = "off div BSIZE"
  have A: "block_ok n D i st d1 st1" "x = part ?v d1 ?b" "x \<noteq> 0"
    using append_block_ok[of n D st i "off div BSIZE" x d1 st1] i off(2) a f F by (auto simp: files_ok_def)
  show "d_size d1 = d_size (D i) \<and> d_type d1 = d_type (D i)" using A(1) by (simp add: block_ok_def)
  have L: "layout n ?D ?v (im_freeblock st1)" and G: "grows n D (im_disk st) ?D ?v" using A(1) by (simp_all add: block_ok_def)
  have H: "holds ?v (?D j) (C j)" if "j < n" for j using grows_holds[OF G that] F that by (simp add: files_ok_def)
  have x: "part ?v (?D i) ?b = x" using A(2) by simp
  let ?B = "copy_in (off - ?b * BSIZE) (take m bs) (?v x)"
  note W = write_part[OF L i x A(3) off(2), where B = ?B]
  have d: "im_disk st2 = ?v(x := ?B)" by (simp add: st2_def m_def write_round_def)
  have len: "length (C i) = ?b * BSIZE + (off - ?b * BSIZE)" using off(1) by simp
  have fit: "off - ?b * BSIZE + length (take m bs) \<le> BSIZE" using round_len(1,2)[of off bs] append_room[of off] by (simp add: m_def algebra_simps)
  have own: "holds (im_disk st2) (?D i) (C i @ take m bs)"
    unfolding d by (rule write_holds[OF L i x A(3) off(2) len fit H[OF i]])
  have "holds (im_disk st2) (?D j) (C j)" if j: "j < n" "j \<noteq> i" for j
  proof -
    have p: "part (im_disk st2) (?D j) c = part ?v (?D j) c" if "c < MAXFILE" for c using W(2)[OF j(1), of "Part c"] that by (simp add: d)
    then show ?thesis using H[OF j(1)] W(3)[OF j(1)] part_in_file[OF H[OF j(1)]] j(2) unfolding holds_def d by auto
  qed
  then have "\<forall>j < n. holds (im_disk st2) (?D j) ((C(i := C i @ take m bs)) j)" using own by auto
  moreover have "layout n ?D (im_disk st2) (im_freeblock st2)" using W(1) unfolding d by (simp add: st2_def del: fun_upd_apply)
  ultimately show "files_ok n ?D (C(i := C i @ take m bs)) st2" unfolding files_ok_def by blast
  show "same_meta st st2" using W(4) G A(1) by (simp add: same_meta_def d grows_def block_ok_def) (simp add: st2_def)
qed

lemma iappend_loop_ok:
  assumes "files_ok n D C st" "i < n" "iappend_loop (D i) (length (C i)) bs st = Some (di, off', st')" "im_freeblock st \<le> FSSIZE"
  shows "files_ok n (D(i := di)) (C(i := C i @ bs)) st' \<and> same_meta st st' \<and> off' = length (C i @ bs) \<and>
    im_freeblock st' \<le> FSSIZE \<and> d_size di = d_size (D i) \<and> d_type di = d_type (D i)"
  using assms
proof (induction bs arbitrary: D C st rule: length_induct)
  case (1 bs)
  let ?off = "length (C i)"
  show ?case
  proof (cases "bs = []")
    case True
    then have e: "di = D i" "off' = length (C i)" "st' = st" using 1(4) by (simp_all add: iappend_loop_done)
    show ?thesis using 1(2,5) True unfolding e by (simp add: same_meta_def)
  next
    case False
    let ?m = "round_len ?off bs"
    from iappend_loop_cases[OF False 1(4)] obtain x d1 st1 where a: "append_block (?off div BSIZE) (D i) st = Some (x, d1, st1)"
      and x: "unat x < FSSIZE" and b: "?off div BSIZE < MAXFILE"
      and r: "iappend_loop d1 (?off + ?m) (drop ?m bs) (write_round x ?off bs st1) = Some (di, off', st')" .
    have "length (d_addrs (D i)) = NDIRECT + 1" using layoutD(1)[OF _ 1(3)] 1(2) by (auto simp: files_ok_def)
    then have f: "im_freeblock st1 \<le> FSSIZE" using append_block_bound[OF a x 1(5)] by simp
    note S = append_step(1,2)[OF 1(2,3) refl b a f, where bs = bs] append_step(3)[OF 1(2,3) refl b a f]
    have l: "0 < ?m" "?m \<le> length bs" using round_len False by auto
    have "files_ok n ((D(i := d1))(i := di)) ((C(i := C i @ take ?m bs))(i := (C(i := C i @ take ?m bs)) i @ drop ?m bs)) st' \<and>
        same_meta (write_round x ?off bs st1) st' \<and> off' = length ((C(i := C i @ take ?m bs)) i @ drop ?m bs) \<and>
        im_freeblock st' \<le> FSSIZE \<and> d_size di = d_size ((D(i := d1)) i) \<and> d_type di = d_type ((D(i := d1)) i)"
      by (rule 1(1)[rule_format, OF _ S(1) 1(3)]) (use l r f False in \<open>auto simp: min_absorb2\<close>)
    then show ?thesis using S(2,3) l by (simp add: same_meta_def fun_upd_same del: fun_upd_apply)
  qed
qed

lemma iappend_loop_some:
  assumes "files_ok n D C st" "i < n" "length (C i) + length bs \<le> MAXFILE * BSIZE" "im_freeblock st + 2 * length bs \<le> FSSIZE"
  shows "\<exists>r. iappend_loop (D i) (length (C i)) bs st = Some r"
  using assms
proof (induction bs arbitrary: D C st rule: length_induct)
  case (1 bs)
  let ?off = "length (C i)" and ?m = "round_len (length (C i)) bs"
  show ?case
  proof (cases "bs = []")
    case False
    then have "?off < MAXFILE * BSIZE" "im_freeblock st < FSSIZE" using 1(4,5) by (cases bs; simp)+
    then have b: "?off div BSIZE < MAXFILE" and f: "im_freeblock st < FSSIZE" by (simp_all add: less_mult_imp_div_less)
    have L: "layout n D (im_disk st) (im_freeblock st)" using 1(2) by (simp add: files_ok_def)
    obtain x d1 st1 where a: "append_block (?off div BSIZE) (D i) st = Some (x, d1, st1)"
      using append_block_some[OF L 1(3) f, of "?off div BSIZE"] by auto
    have l: "0 < ?m" "?m \<le> length bs" using round_len False by auto
    have m: "im_freeblock st1 \<le> im_freeblock st + 2" using append_block_mono[OF a] by simp
    then have f1: "im_freeblock st1 \<le> FSSIZE" using 1(5) l by linarith
    note S = append_step(1)[OF 1(2,3) refl b a f1, where bs = bs]
    have "block_ok n D i st d1 st1 \<and> x = part (im_disk st1) d1 (?off div BSIZE) \<and> x \<noteq> 0"
      by (rule append_block_ok[OF L 1(3) b a f1])
    then have x: "unat x < FSSIZE" using layoutD(3)[of n "D(i := d1)" "im_disk st1" "im_freeblock st1" i "Part (?off div BSIZE)"] 1(3) b f1
      by (auto simp: block_ok_def)
    have "\<exists>r. iappend_loop ((D(i := d1)) i) (length ((C(i := C i @ take ?m bs)) i)) (drop ?m bs) (write_round x ?off bs st1) = Some r"
      by (rule 1(1)[rule_format, OF _ S 1(3)]) (use l 1(4,5) m in \<open>simp_all add: min_absorb2\<close>)
    then show ?thesis unfolding iappend_loop_step[OF False b a x] using l by (simp add: min_absorb2)
  qed (simp add: iappend_loop_done)
qed

subsection \<open>The inodes of the image\<close>

lemma unat_inum: "i < NINODES \<Longrightarrow> unat (of_nat i :: uint) = i"
  by (simp add: NINODES_def unat_of_nat)

lemma IPB_val: "IPB = 32"
  by (simp add: IPB_def BSIZE_def DINODE_SIZE_def)

lemma IBLOCK_mkfs: "i < NINODES \<Longrightarrow> unat (IBLOCK (of_nat i) mkfs_sb) = 32 + i div IPB"
proof -
  assume i: "i < NINODES"
  have "IBLOCK (of_nat i) mkfs_sb = of_nat (i div 32 + 32)"
    using unat_inum[OF i] by (simp add: IBLOCK_def mkfs_sb_def LOGSIZE_def IPB_def BSIZE_def DINODE_SIZE_def of_nat_div word_arith_nat_div)
  moreover have "i div 32 + 32 < 2 ^ 32" using i by (simp add: NINODES_def)
  then have "unat (of_nat (i div 32 + 32) :: uint) = i div 32 + 32" unfolding unat_of_nat by simp
  ultimately show ?thesis by (simp only: IPB_val add.commute)
qed

definition inode_at :: "uint \<Rightarrow> image \<Rightarrow> dinode" where
  "inode_at inum st = get_dinode (im_disk st (IBLOCK inum mkfs_sb)) (dip_off inum)"

definition put_inode :: "uint \<Rightarrow> dinode \<Rightarrow> image \<Rightarrow> image" where
  "put_inode inum di st =
     (let bn = IBLOCK inum mkfs_sb in wsect bn (put_dinode (dip_off inum) di (im_disk st bn)) st)"

lemma rinode_Some: "rinode inum st = Some di \<Longrightarrow> di = inode_at inum st"
  by (auto simp: rinode_def rsect_def inode_at_def split: if_splits)

lemma winode_Some: "winode inum di st = Some st' \<Longrightarrow> st' = put_inode inum di st"
  by (auto simp: winode_def rsect_def put_inode_def Let_def split: if_splits)

lemma inode_sects:
  assumes "i < NINODES"
  shows "rinode (of_nat i) st = Some (inode_at (of_nat i) st)" "winode (of_nat i) di st = Some (put_inode (of_nat i) di st)"
proof -
  have "unat (IBLOCK (of_nat i) mkfs_sb) < FSSIZE" using IBLOCK_mkfs[OF assms] assms by (simp add: IPB_val NINODES_def FSSIZE_def)
  then show "rinode (of_nat i) st = Some (inode_at (of_nat i) st)" "winode (of_nat i) di st = Some (put_inode (of_nat i) di st)"
    by (simp_all add: rinode_def winode_def rsect_def inode_at_def put_inode_def Let_def)
qed

lemma put_inode_simps [simp]: "im_freeblock (put_inode inum di st) = im_freeblock st" "im_freeinode (put_inode inum di st) = im_freeinode st"
  by (simp_all add: put_inode_def Let_def)

lemma put_inode_frame: "i < NINODES \<Longrightarrow> unat b < 32 \<or> 39 \<le> unat b \<Longrightarrow> im_disk (put_inode (of_nat i) di st) b = im_disk st b"
  using IBLOCK_mkfs[of i] by (auto simp: put_inode_def Let_def IPB_val NINODES_def)

lemma inode_at_put:
  assumes i: "i < NINODES" and j: "j < NINODES" and len: "length (d_addrs di) = NDIRECT + 1"
  shows "inode_at (of_nat j) (put_inode (of_nat i) di st) = (if j = i then di else inode_at (of_nat j) st)"
proof (cases "j div IPB = i div IPB")
  case True
  have b: "IBLOCK (of_nat j) mkfs_sb = IBLOCK (of_nat i) mkfs_sb"
    using IBLOCK_mkfs[OF i] IBLOCK_mkfs[OF j] True by (simp add: word_unat_eq_iff)
  show ?thesis
  proof (cases "j = i")
    case eq: True
    then show ?thesis by (simp add: inode_at_def put_inode_def Let_def get_put_dinode[OF len])
  next
    case ne: False
    have "j mod IPB \<noteq> i mod IPB" using True ne by (metis div_mult_mod_eq)
    then have "dip_off (of_nat i) + 128 \<le> dip_off (of_nat j) \<or> dip_off (of_nat j) + 128 \<le> dip_off (of_nat i)"
      by (intro dip_off_apart) (simp add: unat_inum i j)
    then show ?thesis using ne
      by (simp add: inode_at_def put_inode_def Let_def b) (intro get_dinode_cong put_dinode_outside, auto)
  qed
next
  case False
  then have "IBLOCK (of_nat j) mkfs_sb \<noteq> IBLOCK (of_nat i) mkfs_sb" using IBLOCK_mkfs[OF i] IBLOCK_mkfs[OF j] by auto
  then show ?thesis using False by (auto simp: inode_at_def put_inode_def Let_def)
qed

lemma inode_at_cong: "i < NINODES \<Longrightarrow> (\<And>b. unat b < nmeta \<Longrightarrow> im_disk st' b = im_disk st b) \<Longrightarrow> inode_at (of_nat i) st' = inode_at (of_nat i) st"
  using IBLOCK_mkfs[of i] by (simp add: inode_at_def rsect_def nmeta_val IPB_val NINODES_def)

lemma inode_at_addrs [simp]: "length (d_addrs (inode_at i st)) = NDIRECT + 1"
  by (simp add: inode_at_def get_dinode_def)

text \<open>The files do not depend on the blocks below \<open>nmeta\<close>, nor on what an inode holds besides its addresses.\<close>

lemma files_ok_cong:
  assumes F: "files_ok n D C st" and a: "\<And>j. j < n \<Longrightarrow> d_addrs (D' j) = d_addrs (D j)" "\<And>j. j < n \<Longrightarrow> C' j = C j"
    and d: "\<And>b. nmeta \<le> unat b \<Longrightarrow> im_disk st' b = im_disk st b" "im_freeblock st' = im_freeblock st"
  shows "files_ok n D' C' st'"
proof -
  have L: "layout n D (im_disk st) (im_freeblock st)" using F by (simp add: files_ok_def)
  have same: "im_disk st' (addr (im_disk st) (D j) s) = im_disk st (addr (im_disk st) (D j) s)"
    if "j < n" "addr (im_disk st) (D j) s \<noteq> 0" for j s using layoutD(2)[OF L that] by (rule d(1))
  have ad: "addr (im_disk st') (D' j) s = addr (im_disk st) (D j) s" if "j < n" for j s
  proof -
    have "addr (im_disk st') (D' j) s = addr (im_disk st') (D j) s" using a(1)[OF that] by (cases s) (simp_all add: part_def)
    also have "\<dots> = addr (im_disk st) (D j) s" by (rule part_Ind) (use same[OF that, of Ind] in simp)
    finally show ?thesis .
  qed
  have "layout n D' (im_disk st') (im_freeblock st')" unfolding d(2)
    by (rule layout_cong[OF L ad]) (use a(1) layout_free(2)[OF L] in \<open>auto intro: d(1)\<close>)
  moreover have "holds (im_disk st') (D' j) (C' j)" if j: "j < n" for j
  proof -
    have h: "holds (im_disk st) (D j) (C j)" using F j by (simp add: files_ok_def)
    have "part (im_disk st') (D' j) b = part (im_disk st) (D j) b" if "b < MAXFILE" for b using ad[OF j, of "Part b"] that by simp
    moreover have "im_disk st' (part (im_disk st) (D j) b) = im_disk st (part (im_disk st) (D j) b)"
      if "b < MAXFILE" "part (im_disk st) (D j) b \<noteq> 0" for b using same[OF j, of "Part b"] that by simp
    ultimately show ?thesis using h part_in_file[OF h] unfolding a(2)[OF j] holds_def by auto
  qed
  ultimately show ?thesis by (simp add: files_ok_def)
qed

text \<open>The image with \<open>n\<close> inodes, the first of which is not in use, and their contents.\<close>

definition image_ok :: "nat \<Rightarrow> (nat \<Rightarrow> byte list) \<Rightarrow> image \<Rightarrow> bool" where
  "image_ok n C st \<longleftrightarrow> files_ok n (\<lambda>i. inode_at (of_nat i) st) C st \<and> im_freeinode st = n \<and> n \<le> NINODES \<and>
     im_freeblock st \<le> FSSIZE \<and> (\<forall>i < n. unat (d_size (inode_at (of_nat i) st)) = length (C i))"

text \<open>What every step keeps: the superblock, the log, and the types of the inodes.\<close>

definition kept :: "nat \<Rightarrow> image \<Rightarrow> image \<Rightarrow> bool" where
  "kept n st st' \<longleftrightarrow> (\<forall>b. unat b < 32 \<longrightarrow> im_disk st' b = im_disk st b) \<and>
     (\<forall>i < n. d_type (inode_at (of_nat i) st') = d_type (inode_at (of_nat i) st)) \<and>
     im_freeblock st \<le> im_freeblock st' \<and> im_freeinode st \<le> im_freeinode st'"

lemma kept_refl [simp]: "kept n st st"
  by (simp add: kept_def)

lemma kept_trans: "kept n st st' \<Longrightarrow> kept m st' st'' \<Longrightarrow> n \<le> m \<Longrightarrow> kept n st st''"
  unfolding kept_def by auto

lemma MAXFILE_bytes: "MAXFILE * BSIZE < 2 ^ 32"
  by (simp add: MAXFILE_def NDIRECT_def NINDIRECT_def BSIZE_def)

lemma iappend_parts:
  assumes "iappend inum bs st = Some st'"
  obtains di off st1 where "iappend_loop (inode_at inum st) (unat (d_size (inode_at inum st))) bs st = Some (di, off, st1)"
    "st' = put_inode inum (di\<lparr>d_size := of_nat off\<rparr>) st1"
  using assms by (auto simp: iappend_def split: option.splits dest!: rinode_Some winode_Some)

lemma iappend_mono:
  "iappend inum bs st = Some st' \<Longrightarrow>
     im_freeblock st \<le> im_freeblock st' \<and> im_freeblock st' \<le> im_freeblock st + 2 * length bs"
  by (erule iappend_parts) (simp add: iappend_loop_mono)

lemma iappend_ok:
  assumes I: "image_ok n C st" and i: "i < n" and r: "iappend (of_nat i) bs st = Some st'"
  shows "image_ok n (C(i := C i @ bs)) st' \<and> kept n st st'"
proof -
  let ?D = "\<lambda>j. inode_at (of_nat j) st"
  have F: "files_ok n ?D C st" and n: "n \<le> NINODES" "im_freeinode st = n" and f: "im_freeblock st \<le> FSSIZE"
    and sz: "\<And>j. j < n \<Longrightarrow> unat (d_size (?D j)) = length (C j)" using I by (auto simp: image_ok_def)
  from r obtain di off st1 where l: "iappend_loop (?D i) (length (C i)) bs st = Some (di, off, st1)"
    and st': "st' = put_inode (of_nat i) (di\<lparr>d_size := of_nat off\<rparr>) st1" by (rule iappend_parts) (use sz[OF i] in simp)
  let ?di = "di\<lparr>d_size := of_nat off\<rparr>" and ?C = "C(i := C i @ bs)"
  have K: "files_ok n (?D(i := di)) ?C st1" "same_meta st st1" "off = length (C i @ bs)" "d_type di = d_type (?D i)"
      "im_freeblock st1 \<le> FSSIZE"
    using iappend_loop_ok[OF F i l f] by auto
  have len: "length (d_addrs di) = NDIRECT + 1" using K(1) layoutD(1)[of n "?D(i := di)" _ _ i] i by (auto simp: files_ok_def)
  have rd: "inode_at (of_nat j) st' = (if j = i then ?di else ?D j)" if "j < n" for j
    unfolding st' using that i n len K(2) by (subst inode_at_put) (auto simp: same_meta_def intro: inode_at_cong)
  have "off \<le> MAXFILE * BSIZE" using K(1,3) i by (auto simp: files_ok_def holds_def)
  then have "off mod 2 ^ 32 = off" using MAXFILE_bytes by simp
  then have off: "unat (of_nat off :: uint) = off" unfolding unat_of_nat by simp
  have "files_ok n (\<lambda>j. inode_at (of_nat j) st') ?C st'"
    by (rule files_ok_cong[OF K(1)]) (use rd i n in \<open>auto simp: st' nmeta_val intro!: put_inode_frame\<close>)
  moreover have "unat (d_size (inode_at (of_nat j) st')) = length (?C j)" if "j < n" for j using rd[OF that] sz[OF that] off K(3) by simp
  ultimately have "image_ok n ?C st'" using n K(2,5) by (simp add: image_ok_def st' same_meta_def)
  moreover have "kept n st st'" using rd K(2,4) i n iappend_loop_mono[OF l]
    by (auto simp: kept_def same_meta_def st' nmeta_val put_inode_frame)
  ultimately show ?thesis ..
qed

lemma iappend_some:
  assumes I: "image_ok n C st" and i: "i < n" and len: "length (C i) + length bs \<le> MAXFILE * BSIZE"
    and f: "im_freeblock st + 2 * length bs \<le> FSSIZE"
  shows "\<exists>st'. iappend (of_nat i) bs st = Some st'"
proof -
  have F: "files_ok n (\<lambda>i. inode_at (of_nat i) st) C st" and n: "i < NINODES"
    and sz: "unat (d_size (inode_at (of_nat i) st)) = length (C i)" using I i by (auto simp: image_ok_def)
  from iappend_loop_some[OF F i len f] obtain di off st1
    where "iappend_loop (inode_at (of_nat i) st) (length (C i)) bs st = Some (di, off, st1)" by auto
  then show ?thesis by (simp add: iappend_def inode_sects[OF n] sz)
qed

lemma layout_new:
  assumes L: "layout n D v free" and new: "d_addrs (D n) = replicate (NDIRECT + 1) 0"
  shows "layout (Suc n) D v free"
proof -
  have "addr v (D n) s = 0" for s using new by (cases s) (auto simp: part_def nth_append simp del: replicate_Suc)
  then show ?thesis using L new unfolding layout_def less_Suc_eq by (auto simp del: replicate_Suc)
qed

lemma ialloc_ok:
  assumes I: "image_ok n C st" and n: "n < NINODES" and r: "mkfs_ialloc t st = Some (inum, st')"
  shows "inum = of_nat n" "image_ok (Suc n) (C(n := [])) st'" "kept n st st'" "d_type (inode_at (of_nat n) st') = xshort t"
    "im_freeblock st' = im_freeblock st"
proof -
  let ?st = "st\<lparr>im_freeinode := im_freeinode st + 1\<rparr>" and ?D = "\<lambda>j. inode_at (of_nat j) st"
  define din where "din = \<lparr>d_type = xshort t, d_major = 0, d_minor = 0, d_nlink = xshort 1, d_size = 0,
                 d_uid = 0, d_gid = 0, d_mode = 0, d_addrs = replicate (NDIRECT + 1) 0\<rparr>"
  have F: "files_ok n ?D C st" and fi: "im_freeinode st = n"
    and sz: "\<And>j. j < n \<Longrightarrow> unat (d_size (?D j)) = length (C j)" using I by (auto simp: image_ok_def)
  have st': "st' = put_inode (of_nat n) din ?st" using r fi by (auto simp: mkfs_ialloc_def din_def Let_def split: option.splits dest!: winode_Some)
  show "inum = of_nat n" using r fi by (auto simp: mkfs_ialloc_def Let_def split: option.splits)
  have rs: "inode_at j (st\<lparr>im_freeinode := k\<rparr>) = inode_at j st" for j k by (simp add: inode_at_def rsect_def)
  have rd: "inode_at (of_nat j) st' = (if j = n then din else ?D j)" if "j < Suc n" for j
    unfolding st' using that n by (subst inode_at_put) (auto simp: din_def rs)
  show "d_type (inode_at (of_nat n) st') = xshort t" using rd[of n] by (simp add: din_def)
  show fb: "im_freeblock st' = im_freeblock st" by (simp add: st')
  have "layout n (?D(n := din)) (im_disk st) (im_freeblock st)"
    by (rule layout_cong) (use F in \<open>auto simp: files_ok_def\<close>)
  then have "layout (Suc n) (?D(n := din)) (im_disk st) (im_freeblock st)" by (rule layout_new) (simp add: din_def)
  then have F1: "files_ok (Suc n) (?D(n := din)) (C(n := [])) st"
    using F by (auto simp: files_ok_def holds_def less_Suc_eq)
  have "files_ok (Suc n) (\<lambda>j. inode_at (of_nat j) st') (C(n := [])) st'"
    by (rule files_ok_cong[OF F1]) (use rd n in \<open>auto simp: st' nmeta_val put_inode_frame\<close>)
  moreover have "unat (d_size (inode_at (of_nat j) st')) = length ((C(n := [])) j)" if "j < Suc n" for j
    using rd[OF that] sz[of j] that by (auto simp: din_def less_Suc_eq)
  ultimately show "image_ok (Suc n) (C(n := [])) st'" using n fi I by (simp add: image_ok_def st')
  show "kept n st st'" using rd n by (auto simp: kept_def st' put_inode_frame)
qed

lemma ialloc_some: "image_ok n C st \<Longrightarrow> n < NINODES \<Longrightarrow> \<exists>inum st'. mkfs_ialloc t st = Some (inum, st')"
  by (auto simp: mkfs_ialloc_def Let_def image_ok_def inode_sects)

subsection \<open>The files of the image\<close>

lemma xshort_id [simp]: "xshort x = x"
  by (simp add: xshort_def)

definition entry :: "nat \<Rightarrow> byte list \<Rightarrow> byte list" where
  "entry n arg = dirent_bytes (of_nat n) (strncpy (replicate DIRSIZ 0) (if rd arg = of_char (CHR ''_'') then tl arg else arg) DIRSIZ)"

lemma pieces_mono:
  "append_pieces inum ps st = Some st' \<Longrightarrow>
     im_freeblock st \<le> im_freeblock st' \<and> im_freeblock st' \<le> im_freeblock st + 2 * length (concat ps)"
proof (induction ps arbitrary: st)
  case (Cons p ps)
  then obtain st1 where "iappend inum p st = Some st1" "append_pieces inum ps st1 = Some st'" by (auto split: option.splits)
  then show ?case using iappend_mono[of inum p st st1] Cons.IH[of st1] by simp
qed simp

lemma pieces_ok:
  "image_ok n C st \<Longrightarrow> i < n \<Longrightarrow> append_pieces (of_nat i) ps st = Some st' \<Longrightarrow>
     image_ok n (C(i := C i @ concat ps)) st' \<and> kept n st st'"
proof (induction ps arbitrary: C st)
  case (Cons p ps)
  from Cons(4) obtain st1 where a: "iappend (of_nat i) p st = Some st1" and b: "append_pieces (of_nat i) ps st1 = Some st'"
    by (auto split: option.splits)
  note A = iappend_ok[OF Cons(2,3) a]
  have e: "(C(i := C i @ p))(i := (C(i := C i @ p)) i @ concat ps) = C(i := C i @ concat (p # ps))" by (simp add: fun_eq_iff)
  show ?case using Cons(1)[OF conjunct1[OF A] Cons(3) b] A unfolding e by (blast intro: kept_trans order_refl)
qed simp

lemma pieces_some:
  "image_ok n C st \<Longrightarrow> i < n \<Longrightarrow> length (C i) + length (concat ps) \<le> MAXFILE * BSIZE \<Longrightarrow>
     im_freeblock st + 2 * length (concat ps) \<le> FSSIZE \<Longrightarrow> \<exists>st'. append_pieces (of_nat i) ps st = Some st'"
proof (induction ps arbitrary: C st)
  case (Cons p ps)
  from iappend_some[OF Cons(2,3), of p] Cons(4,5) obtain st1 where a: "iappend (of_nat i) p st = Some st1" by auto
  have f: "im_freeblock st1 \<le> im_freeblock st + 2 * length p" using iappend_mono[OF a] by simp
  then have "image_ok n (C(i := C i @ p)) st1" using iappend_ok[OF Cons(2,3) a] by simp
  from Cons(1)[OF this Cons(3)] f Cons(4,5) show ?case by (simp add: a)
qed simp

lemma add_file_parts:
  assumes "add_file rootino (arg, ps) st = Some st'" "im_freeinode st = n"
  obtains inum st1 st2 where "mkfs_ialloc T_FILE st = Some (inum, st1)" "inum = of_nat n" "iappend rootino (entry n arg) st1 = Some st2"
    "append_pieces inum ps st2 = Some st'"
proof -
  obtain inum st1 where a: "mkfs_ialloc T_FILE st = Some (inum, st1)"
    using assms(1) by (auto simp: add_file_def Let_def split: if_splits option.splits)
  then have "inum = of_nat n" using assms(2) by (auto simp: mkfs_ialloc_def Let_def split: option.splits)
  then show thesis using assms(1) that[OF a] by (auto simp: add_file_def Let_def a entry_def split: if_splits option.splits)
qed

lemma add_file_ok:
  assumes I: "image_ok n C st" and n: "1 < n" "n < NINODES" and r: "add_file 1 (arg, ps) st = Some st'"
  shows "image_ok (Suc n) (C(1 := C 1 @ entry n arg, n := concat ps)) st' \<and> kept n st st' \<and>
    d_type (inode_at (of_nat n) st') = T_FILE"
proof -
  have fi: "im_freeinode st = n" using I by (simp add: image_ok_def)
  from add_file_parts[OF r fi] obtain inum st1 st2 where a: "mkfs_ialloc T_FILE st = Some (inum, st1)" "inum = of_nat n"
    "iappend 1 (entry n arg) st1 = Some st2" "append_pieces inum ps st2 = Some st'" .
  note A = ialloc_ok[OF I n(2) a(1)]
  have "image_ok (Suc n) (C(n := [], 1 := (C(n := [])) 1 @ entry n arg)) st2 \<and> kept (Suc n) st1 st2"
    by (rule iappend_ok[OF A(2)]) (use n a(3) in simp_all)
  then have B: "image_ok (Suc n) (C(n := [], 1 := C 1 @ entry n arg)) st2" "kept (Suc n) st1 st2" using n(1) by simp_all
  let ?C = "C(n := [], 1 := C 1 @ entry n arg)"
  have P: "image_ok (Suc n) (?C(n := ?C n @ concat ps)) st' \<and> kept (Suc n) st2 st'"
    by (rule pieces_ok[OF B(1)]) (use a(2,4) in simp_all)
  moreover have "?C(n := ?C n @ concat ps) = C(1 := C 1 @ entry n arg, n := concat ps)" using n(1) by auto
  moreover have K: "kept (Suc n) st1 st'" using B(2) P by (auto intro: kept_trans)
  moreover have "d_type (inode_at (of_nat n) st') = T_FILE" using K A(4) by (simp add: kept_def)
  moreover have "kept n st st'" using A(3) K by (rule kept_trans) simp
  ultimately show ?thesis by simp
qed

lemma length_entry [simp]: "length (entry n arg) = 16"
  by (simp add: entry_def dirent_bytes_def mk_dirent_def length_strncpy DIRSIZ_def)

lemma ialloc_freeblock: "mkfs_ialloc t st = Some (inum, st') \<Longrightarrow> im_freeblock st' = im_freeblock st"
  by (auto simp: mkfs_ialloc_def Let_def split: option.splits dest!: winode_Some)

lemma add_file_mono:
  assumes "add_file rootino (arg, ps) st = Some st'"
  shows "im_freeblock st \<le> im_freeblock st' \<and> im_freeblock st' \<le> im_freeblock st + 2 * (16 + length (concat ps))"
proof -
  from add_file_parts[OF assms refl] obtain inum st1 st2 where a: "mkfs_ialloc T_FILE st = Some (inum, st1)"
    "iappend rootino (entry (im_freeinode st) arg) st1 = Some st2" "append_pieces inum ps st2 = Some st'" .
  show ?thesis using ialloc_freeblock[OF a(1)] iappend_mono[OF a(2)] pieces_mono[OF a(3)] by simp
qed

lemma add_file_some:
  assumes I: "image_ok n C st" and n: "1 < n" "n < NINODES" and arg: "of_char (CHR ''/'') \<notin> set arg"
    and len: "length (C 1) + 16 \<le> MAXFILE * BSIZE" "length (concat ps) \<le> MAXFILE * BSIZE"
    and f: "im_freeblock st + 2 * (16 + length (concat ps)) \<le> FSSIZE"
  shows "\<exists>st'. add_file 1 (arg, ps) st = Some st'"
proof -
  obtain inum st1 where a: "mkfs_ialloc T_FILE st = Some (inum, st1)" using ialloc_some[OF I n(2)] by blast
  note A = ialloc_ok[OF I n(2) a]
  have "\<exists>st2. iappend (of_nat 1) (entry n arg) st1 = Some st2" by (rule iappend_some[OF A(2)]) (use n len f A(5) in simp_all)
  then obtain st2 where b: "iappend (of_nat 1) (entry n arg) st1 = Some st2" ..
  have f2: "im_freeblock st2 \<le> im_freeblock st + 32" using iappend_mono[OF b] A(5) by simp
  have B: "image_ok (Suc n) (C(n := [], 1 := (C(n := [])) 1 @ entry n arg)) st2"
    using iappend_ok[OF A(2) _ b] n(1) by simp
  have "\<exists>st'. append_pieces (of_nat n) ps st2 = Some st'"
    by (rule pieces_some[OF B]) (use n len f f2 in simp_all)
  then show ?thesis using a b arg A(1) by (auto simp: add_file_def Let_def entry_def)
qed

primrec entries :: "nat \<Rightarrow> (byte list \<times> byte list list) list \<Rightarrow> byte list" where
  "entries n [] = []"
| "entries n (f # fs) = entry n (fst f) @ entries (Suc n) fs"

lemma length_entries [simp]: "length (entries n fs) = 16 * length fs"
  by (induction fs arbitrary: n) simp_all

definition total :: "(byte list \<times> byte list list) list \<Rightarrow> nat" where
  "total fs = sum_list (map (\<lambda>f. 16 + length (concat (snd f))) fs)"

lemma add_files_mono:
  "add_files rootino fs st = Some st' \<Longrightarrow> im_freeblock st \<le> im_freeblock st' \<and> im_freeblock st' \<le> im_freeblock st + 2 * total fs"
proof (induction fs arbitrary: st)
  case (Cons f fs)
  obtain arg ps where f: "f = (arg, ps)" by (metis surj_pair)
  with Cons(2) obtain st1 where "add_file rootino (arg, ps) st = Some st1" "add_files rootino fs st1 = Some st'" by (auto split: option.splits)
  then show ?case using add_file_mono[of rootino arg ps st st1] Cons.IH[of st1] by (simp add: total_def f)
qed (simp add: total_def)

text \<open>The contents after the files have been added.\<close>

definition added :: "nat \<Rightarrow> (byte list \<times> byte list list) list \<Rightarrow> (nat \<Rightarrow> byte list) \<Rightarrow> nat \<Rightarrow> byte list" where
  "added n fs C = (\<lambda>i. if i = 1 then C 1 @ entries n fs else if n \<le> i \<and> i < n + length fs then concat (snd (fs ! (i - n))) else C i)"

lemma added_Nil: "added n [] C = C"
  by (auto simp: added_def fun_eq_iff)

lemma added_Cons: "1 < n \<Longrightarrow> added (Suc n) fs (C(1 := C 1 @ entry n (fst f), n := concat (snd f))) = added n (f # fs) C"
  by (auto simp: added_def fun_eq_iff nth_Cons' Suc_le_eq)

lemma add_files_ok:
  "image_ok n C st \<Longrightarrow> 1 < n \<Longrightarrow> n + length fs \<le> NINODES \<Longrightarrow> add_files 1 fs st = Some st' \<Longrightarrow>
     image_ok (n + length fs) (added n fs C) st' \<and> kept n st st' \<and>
     (\<forall>k < length fs. d_type (inode_at (of_nat (n + k)) st') = T_FILE)"
proof (induction fs arbitrary: n C st)
  case Nil
  then show ?case by (simp add: added_Nil)
next
  case (Cons f fs)
  obtain arg ps where f: "f = (arg, ps)" by (metis surj_pair)
  from Cons(5) f obtain st1 where a: "add_file 1 (arg, ps) st = Some st1" and b: "add_files 1 fs st1 = Some st'"
    by (auto split: option.splits)
  have A: "image_ok (Suc n) (C(1 := C 1 @ entry n arg, n := concat ps)) st1" "kept n st st1" "d_type (inode_at (of_nat n) st1) = T_FILE"
    using add_file_ok[OF Cons(2,3) _ a] Cons(4) by simp_all
  have B: "image_ok (Suc n + length fs) (added n (f # fs) C) st'" "kept (Suc n) st1 st'"
    "\<forall>k < length fs. d_type (inode_at (of_nat (Suc n + k)) st') = T_FILE"
    using Cons(1)[OF A(1) _ _ b] Cons(3,4) unfolding f added_Cons[OF Cons(3), of fs C "(arg, ps)", unfolded fst_conv snd_conv]
    by simp_all
  have "d_type (inode_at (of_nat (n + k)) st') = T_FILE" if "k < length (f # fs)" for k
    using that B(2,3) A(3) by (cases k) (auto simp: kept_def)
  then show ?case using B(1) kept_trans[OF A(2) B(2)] by simp
qed

lemma add_files_some:
  "image_ok n C st \<Longrightarrow> 1 < n \<Longrightarrow> n + length fs \<le> NINODES \<Longrightarrow> \<forall>f \<in> set fs. of_char (CHR ''/'') \<notin> set (fst f) \<Longrightarrow>
     length (C 1) + 16 * length fs \<le> MAXFILE * BSIZE \<Longrightarrow> im_freeblock st + 2 * total fs \<le> FSSIZE \<Longrightarrow>
     \<exists>st'. add_files 1 fs st = Some st'"
proof (induction fs arbitrary: n C st)
  case (Cons f fs)
  obtain arg ps where f: "f = (arg, ps)" by (metis surj_pair)
  have t: "total (f # fs) = 16 + length (concat ps) + total fs" by (simp add: total_def f)
  have "FSSIZE \<le> MAXFILE * BSIZE" by (simp add: FSSIZE_def MAXFILE_def NDIRECT_def NINDIRECT_def BSIZE_def)
  then have p: "length (concat ps) \<le> MAXFILE * BSIZE" using Cons(7) t by linarith
  have "\<exists>st1. add_file 1 (arg, ps) st = Some st1"
    by (rule add_file_some[OF Cons(2,3) _ _ _ p]) (use Cons(4,5,6,7) t f in simp_all)
  then obtain st1 where a: "add_file 1 (arg, ps) st = Some st1" ..
  have m: "im_freeblock st1 \<le> im_freeblock st + 2 * (16 + length (concat ps))" using add_file_mono[OF a] by simp
  have A: "image_ok (Suc n) (C(1 := C 1 @ entry n arg, n := concat ps)) st1"
    using add_file_ok[OF Cons(2,3) _ a] Cons(4) by simp
  have "\<exists>st'. add_files 1 fs st1 = Some st'"
    by (rule Cons(1)[OF A]) (use Cons(3-7) m t in simp_all)
  then show ?case by (simp add: f a)
qed simp

subsection \<open>The image as a whole\<close>

lemma boot_image_ok: "image_ok 1 (\<lambda>_. []) (wsect 1 sb_block empty_image)"
proof -
  let ?st = "wsect 1 sb_block empty_image"
  have z: "im_disk ?st b = (\<lambda>_. 0)" if "b \<noteq> 1" for b using that by (simp add: empty_image_def)
  have "IBLOCK 0 mkfs_sb \<noteq> 1" by (simp add: IBLOCK_def mkfs_sb_def LOGSIZE_def)
  then have r: "d_addrs (inode_at 0 ?st) = replicate (NDIRECT + 1) 0" "d_size (inode_at 0 ?st) = 0"
    using z by (simp_all add: inode_at_def rsect_def get_dinode_def bld32_def join32_def map_replicate_const del: replicate_Suc upt_Suc)
  have "layout 0 (\<lambda>i. inode_at (of_nat i) ?st) (im_disk ?st) nmeta"
    unfolding layout_def using z by (auto simp: nmeta_val)
  then have "layout 1 (\<lambda>i. inode_at (of_nat i) ?st) (im_disk ?st) nmeta" using layout_new[of 0] r(1) by simp
  then show ?thesis using r by (simp add: image_ok_def files_ok_def holds_def NINODES_def) (simp add: empty_image_def nmeta_val FSSIZE_def)
qed

definition root_dots :: "byte list" where
  "root_dots = dirent_bytes 1 (cbytes ''.'' @ replicate 13 0) @ dirent_bytes 1 (cbytes ''..'' @ replicate 12 0)"

lemma mkfs_parts:
  assumes "mkfs fs = Some st"
  obtains st1 st2 st3 st4 st5 where "mkfs_ialloc T_DIR (wsect 1 sb_block empty_image) = Some (1, st1)"
    "iappend 1 (dirent_bytes 1 (cbytes ''.'' @ replicate 13 0)) st1 = Some st2"
    "iappend 1 (dirent_bytes 1 (cbytes ''..'' @ replicate 12 0)) st2 = Some st3"
    "add_files 1 fs st3 = Some st4" "fix_root_size 1 st4 = Some st5" "mkfs_balloc (im_freeblock st5) st5 = Some st"
  using assms unfolding mkfs_def
  by (auto simp: ROOTINO_def split: if_splits option.splits prod.splits)

text \<open>The state before the root directory is given its size and the free map is written.\<close>

lemma mkfs_files:
  assumes a: "mkfs_ialloc T_DIR (wsect 1 sb_block empty_image) = Some (1, st1)"
    and b: "iappend 1 (dirent_bytes 1 (cbytes ''.'' @ replicate 13 0)) st1 = Some st2"
    and c: "iappend 1 (dirent_bytes 1 (cbytes ''..'' @ replicate 12 0)) st2 = Some st3"
  shows "image_ok 2 ((\<lambda>_. [])(1 := root_dots)) st3" "kept 2 st1 st3" "d_type (inode_at 1 st3) = T_DIR"
    "\<And>b. unat b < 32 \<Longrightarrow> im_disk st3 b = im_disk (wsect 1 sb_block empty_image) b"
proof -
  let ?d = "dirent_bytes 1 (cbytes ''.'' @ replicate 13 0)" and ?dd = "dirent_bytes 1 (cbytes ''..'' @ replicate 12 0)"
  note A = ialloc_ok[OF boot_image_ok _ a]
  have A': "image_ok 2 (\<lambda>_. []) st1" "kept 1 (wsect 1 sb_block empty_image) st1" "d_type (inode_at 1 st1) = T_DIR"
    using A(2,3,4) by (simp_all add: NINODES_def numeral_2_eq_2 fun_upd_idem)
  have B: "image_ok 2 ((\<lambda>_. [])(1 := ?d)) st2" "kept 2 st1 st2"
    using iappend_ok[OF A'(1), of 1 ?d st2] b by simp_all
  let ?C = "(\<lambda>_. [])(1 := ?d) :: nat \<Rightarrow> byte list"
  have e: "?C(1 := ?C 1 @ ?dd) = (\<lambda>_. [])(1 := root_dots)" by (simp add: root_dots_def)
  have C: "image_ok 2 (?C(1 := ?C 1 @ ?dd)) st3 \<and> kept 2 st2 st3"
    by (rule iappend_ok[OF B(1)]) (use c in simp_all)
  then show "image_ok 2 ((\<lambda>_. [])(1 := root_dots)) st3" unfolding e ..
  show K: "kept 2 st1 st3" using B(2) C by (auto intro: kept_trans)
  show "d_type (inode_at 1 st3) = T_DIR" using K A'(3) by (auto simp: kept_def dest!: spec[of _ "1 :: nat"])
  show "im_disk st3 b = im_disk (wsect 1 sb_block empty_image) b" if "unat b < 32" for b
    using K A'(2) that unfolding kept_def by simp
qed

lemma bit_used_bitmap: "bit_used (bitmap_block n) b \<longleftrightarrow> b < n"
proof (induction n)
  case 0
  then show ?case by (simp add: bitmap_block_def bit_used_iff)
next
  case (Suc n)
  then show ?case by (auto simp: bitmap_block_def less_Suc_eq)
qed

lemma sb_block_read: "superblock_of sb_block = mkfs_sb"
  by (simp add: superblock_of_def sb_block_def bld32_bst32_other)

text \<open>The bytes of a file as the kernel reads them.\<close>

lemma files_read:
  assumes F: "files_ok n D C st" and i: "i < n" and f: "im_freeblock st \<le> FSSIZE"
    and ip: "i_dev ip = 1" "i_addrs ip = d_addrs (D i)"
    and sz: "sz \<le> MAXFILE * BSIZE" "\<And>b. b * BSIZE < sz \<Longrightarrow> b * BSIZE < length (C i)"
  shows "file_ok (of_nat FSSIZE) (im_disk st) ip sz" "map (file_byte (im_disk st) ip) [0..<length (C i)] = C i"
proof -
  let ?v = "im_disk st"
  have L: "layout n D ?v (im_freeblock st)" and H: "holds ?v (D i) (C i)" using F i by (auto simp: files_ok_def)
  have small: "a < of_nat FSSIZE" if "unat a < im_freeblock st" for a :: uint
    using that f by (simp add: word_less_nat_alt FSSIZE_def)
  have same: "file_block ?v ip b = part ?v (D i) b" if "part ?v (D i) b \<noteq> 0" for b
    using that ip by (auto simp: file_block_def part_def split: if_splits)
  have nz: "part ?v (D i) b \<noteq> 0" "b < MAXFILE" if "b * BSIZE < length (C i)" for b
    using H that part_in_file[OF H that] BSIZE_pos by (auto simp: holds_def)
  have blk: "file_block ?v ip b \<noteq> 0 \<and> file_block ?v ip b < of_nat FSSIZE" if "b * BSIZE < sz" for b
    using same[OF nz(1)[OF sz(2)[OF that]]] nz[OF sz(2)[OF that]] layoutD(3)[OF L i, of "Part b"] small by simp
  have ind: "i_addrs ip ! NDIRECT \<noteq> 0 \<and> i_addrs ip ! NDIRECT < of_nat FSSIZE" if "NDIRECT * BSIZE < sz"
    using nz(1)[OF sz(2)[OF that]] layoutD(3)[OF L i, of Ind] small ip by (auto simp: part_def split: if_splits)
  show "file_ok (of_nat FSSIZE) ?v ip sz" using ip(1) sz(1) blk ind by (simp add: file_ok_def)
  have "file_byte ?v ip k = C i ! k" if "k < length (C i)" for k
    using H that same[of "k div BSIZE"] by (simp add: file_byte_def holds_def)
  then show "map (file_byte ?v ip) [0..<length (C i)] = C i" by (intro nth_equalityI) simp_all
qed

lemma finish_ok:
  assumes I: "image_ok n C st4" and n: "1 < n" and small: "length (C 1) < BSIZE"
    and r: "fix_root_size 1 st4 = Some st5" "mkfs_balloc (im_freeblock st5) st5 = Some st"
  shows "files_ok n (\<lambda>i. inode_at (of_nat i) st) C st" "im_freeblock st = im_freeblock st4"
    "\<And>i. i < n \<Longrightarrow> i \<noteq> 1 \<Longrightarrow> inode_at (of_nat i) st = inode_at (of_nat i) st4"
    "inode_at 1 st = (inode_at 1 st4)\<lparr>d_size := of_nat BSIZE\<rparr>"
    "\<And>b. unat b < 32 \<Longrightarrow> im_disk st b = im_disk st4 b" "im_disk st 39 = bitmap_block (im_freeblock st4)"
proof -
  have F: "files_ok n (\<lambda>i. inode_at (of_nat i) st4) C st4" and le: "n \<le> NINODES" using I by (simp_all add: image_ok_def)
  have "\<forall>i < n. unat (d_size (inode_at (of_nat i) st4)) = length (C i)" using I by (simp add: image_ok_def)
  then have sz: "unat (d_size (inode_at 1 st4)) = length (C 1)" using n by (metis of_nat_1)
  then have "d_size (inode_at 1 st4) div of_nat BSIZE = 0" using small by (simp add: word_arith_nat_div BSIZE_def)
  then have x: "st5 = put_inode (of_nat 1) ((inode_at 1 st4)\<lparr>d_size := of_nat BSIZE\<rparr>) st4"
    using r(1) by (auto simp: fix_root_size_def Let_def split: option.splits dest!: rinode_Some winode_Some)
  have bm: "sb_bmapstart mkfs_sb = 39"
    by (simp add: mkfs_sb_def LOGSIZE_def ninodeblocks_def NINODES_def IPB_val)
  let ?st = "put_inode (of_nat 1) ((inode_at 1 st4)\<lparr>d_size := of_nat BSIZE\<rparr>) st4"
  have st: "st = wsect 39 (bitmap_block (im_freeblock st4)) ?st"
    using r(2) unfolding x mkfs_balloc_def bm by (simp split: if_splits)
  have "inode_at (of_nat i) st = inode_at (of_nat i) ?st" if "i < n" for i
    using IBLOCK_mkfs[of i] that le by (auto simp: st inode_at_def IPB_val NINODES_def)
  then have rd: "inode_at (of_nat i) st = (if i = 1 then (inode_at 1 st4)\<lparr>d_size := of_nat BSIZE\<rparr> else inode_at (of_nat i) st4)"
    if "i < n" for i using that le n inode_at_put[of 1 i "(inode_at 1 st4)\<lparr>d_size := of_nat BSIZE\<rparr>" st4] by simp
  show "files_ok n (\<lambda>i. inode_at (of_nat i) st) C st"
  proof (rule files_ok_cong[OF F])
    show "im_disk st b = im_disk st4 b" if "nmeta \<le> unat b" for b
      using that le n put_inode_frame[of 1 b] by (auto simp: st nmeta_val)
  qed (use rd in \<open>simp_all add: st\<close>)
  show "inode_at (of_nat i) st = inode_at (of_nat i) st4" if "i < n" "i \<noteq> 1" for i using rd that by simp
  show "inode_at 1 st = (inode_at 1 st4)\<lparr>d_size := of_nat BSIZE\<rparr>" using rd[OF n] by simp
  show "im_disk st b = im_disk st4 b" if "unat b < 32" for b
    using that le n put_inode_frame[of 1 b] by (auto simp: st)
  show "im_freeblock st = im_freeblock st4" "im_disk st 39 = bitmap_block (im_freeblock st4)" by (simp_all add: st)
qed

text \<open>The file with the inode \<open>i\<close>: its type, its size, and its bytes as \<open>readi\<close> finds them through any cached copy of the inode.\<close>

definition reads_as :: "image \<Rightarrow> nat \<Rightarrow> ushort \<Rightarrow> nat \<Rightarrow> byte list \<Rightarrow> bool" where
  "reads_as st i t sz c \<longleftrightarrow> (let di = inode_at (of_nat i) st in d_type di = t \<and> unat (d_size di) = sz \<and>
     (\<forall>ip. i_dev ip = 1 \<and> i_addrs ip = d_addrs di \<longrightarrow>
        file_ok (of_nat FSSIZE) (im_disk st) ip sz \<and> map (file_byte (im_disk st) ip) [0..<length c] = c))"

lemma reads_asI:
  assumes F: "files_ok n (\<lambda>i. inode_at (of_nat i) st) C st" and i: "i < n" and f: "im_freeblock st \<le> FSSIZE"
    and t: "d_type (inode_at (of_nat i) st) = t" "unat (d_size (inode_at (of_nat i) st)) = sz"
    and sz: "sz \<le> MAXFILE * BSIZE" "\<And>b. b * BSIZE < sz \<Longrightarrow> b * BSIZE < length (C i)"
  shows "reads_as st i t sz (C i)"
  unfolding reads_as_def Let_def
proof (intro conjI allI impI)
  fix ip :: inode assume "i_dev ip = 1 \<and> i_addrs ip = d_addrs (inode_at (of_nat i) st)"
  then have ip: "i_dev ip = 1" "i_addrs ip = d_addrs (inode_at (of_nat i) st)" by auto
  show "file_ok (of_nat FSSIZE) (im_disk st) ip sz" "map (file_byte (im_disk st) ip) [0..<length (C i)] = C i"
    by (rule files_read[OF F i f ip sz]; assumption)+
qed (use t in auto)

lemma free_map:
  assumes "im_disk st 39 = bitmap_block (im_freeblock st)" "nmeta \<le> im_freeblock st"
  shows "map_ok mkfs_sb (of_nat FSSIZE) (im_disk st) \<and> (\<forall>b < FSSIZE. used mkfs_sb (im_disk st) b \<longleftrightarrow> b < im_freeblock st)"
proof -
  have B: "BBLOCK b mkfs_sb = 39" "b mod BPB = b" if "b < FSSIZE" for b
    using that by (simp_all add: BBLOCK_def BPB_def BSIZE_def FSSIZE_def mkfs_sb_def LOGSIZE_def ninodeblocks_def NINODES_def IPB_val)
  then have u: "used mkfs_sb (im_disk st) b \<longleftrightarrow> b < im_freeblock st" if "b < FSSIZE" for b
    using that assms(1) by (simp add: used_def bit_used_bitmap)
  have size: "sb_size mkfs_sb = of_nat FSSIZE" "unat (of_nat FSSIZE :: uint) = FSSIZE" by (simp_all add: mkfs_sb_def FSSIZE_def)
  have "b = 39" if "b < FSSIZE" "(of_nat b :: uint) = 39" for b
  proof -
    have "unat (of_nat b :: uint) = b" using that(1) by (simp add: unat_of_nat FSSIZE_def)
    then show ?thesis using that(2) by simp
  qed
  then have "map_ok mkfs_sb (of_nat FSSIZE) (im_disk st)"
    unfolding map_ok_def size using u B assms(2) by (fastforce simp: nmeta_val FSSIZE_def)
  then show ?thesis using u by blast
qed

text \<open>Files that certainly fit are built: an appended byte takes two blocks at most.\<close>

lemma mkfs_succeeds:
  assumes n: "length files + 2 \<le> NINODES" and names: "\<forall>f \<in> set files. of_char (CHR ''/'') \<notin> set (fst f)"
    and t: "nmeta + 64 + 2 * total files \<le> FSSIZE"
  shows "\<exists>st. mkfs files = Some st"
proof -
  let ?d = "dirent_bytes 1 (cbytes ''.'' @ replicate 13 0)" and ?dd = "dirent_bytes 1 (cbytes ''..'' @ replicate 12 0)"
  have l: "length ?d = 16" "length ?dd = 16" by (simp_all add: dirent_bytes_def mk_dirent_def cbytes_def)
  have max: "16 * NINODES \<le> MAXFILE * BSIZE" by (simp add: NINODES_def MAXFILE_def NDIRECT_def NINDIRECT_def BSIZE_def)
  obtain inum st1 where a: "mkfs_ialloc T_DIR (wsect 1 sb_block empty_image) = Some (inum, st1)"
    using ialloc_some[OF boot_image_ok, of T_DIR] by (auto simp: NINODES_def)
  note A = ialloc_ok[OF boot_image_ok _ a]
  have inum: "inum = 1" and f1: "im_freeblock st1 = nmeta" using A(1,5) by (simp_all add: NINODES_def empty_image_def)
  have "image_ok 2 (\<lambda>_. []) st1" using A(2) by (simp add: NINODES_def numeral_2_eq_2 fun_upd_idem)
  note I1 = this
  from iappend_some[OF I1, of 1 ?d] l max f1 t obtain st2 where b: "iappend 1 ?d st1 = Some st2" by (auto simp: NINODES_def)
  have f2: "im_freeblock st2 \<le> nmeta + 32" using iappend_mono[OF b] l f1 by simp
  have I2: "image_ok 2 ((\<lambda>_. [])(1 := ?d)) st2" using iappend_ok[OF I1, of 1 ?d st2] b by simp
  from iappend_some[OF I2, of 1 ?dd] l max f2 t obtain st3 where c: "iappend 1 ?dd st2 = Some st3" by (auto simp: NINODES_def)
  have f3: "im_freeblock st3 \<le> nmeta + 64" using iappend_mono[OF c] l f2 by simp
  have M: "image_ok 2 ((\<lambda>_. [])(1 := root_dots)) st3" using mkfs_files(1)[OF _ b c] a inum by simp
  have "\<exists>st4. add_files 1 files st3 = Some st4"
    by (rule add_files_some[OF M]) (use n names f3 t l max in \<open>auto simp: root_dots_def\<close>)
  then obtain st4 where d: "add_files 1 files st3 = Some st4" ..
  have "im_freeblock st4 \<le> FSSIZE" using add_files_mono[OF d] f3 t by simp
  then have f4: "im_freeblock st4 < BSIZE * 8" by (simp add: FSSIZE_def BSIZE_def)
  obtain st5 where e: "fix_root_size 1 st4 = Some st5" "im_freeblock st5 = im_freeblock st4"
    using inode_sects[of 1] by (auto simp: fix_root_size_def Let_def NINODES_def)
  show ?thesis using f4 by (simp add: mkfs_def a inum ROOTINO_def b c d e mkfs_balloc_def)
qed

text \<open>C27. The image that \<open>mkfs\<close> builds is the file system the kernel relies on, whenever it builds one from no more
  files than there are inodes: the superblock the kernel reads has the geometry the builder used, the log is empty, exactly the blocks that were given out are marked in
  the free map, the map and every inode block lying below them, no two inodes share a block, the root directory is one block
  that begins with its two dots and an entry for each file in order, and every file reads as the bytes that were given
  for it.\<close>

theorem mkfs_image:
  assumes r: "mkfs files = Some st" and n: "length files + 2 \<le> NINODES"
  shows "superblock_of (im_disk st 1) = mkfs_sb \<and> hdr_n (im_disk st 2) = 0 \<and>
    map_ok mkfs_sb (of_nat FSSIZE) (im_disk st) \<and> (\<forall>b < FSSIZE. used mkfs_sb (im_disk st) b \<longleftrightarrow> b < im_freeblock st) \<and>
    im_freeblock st \<le> FSSIZE \<and> layout (length files + 2) (\<lambda>i. inode_at (of_nat i) st) (im_disk st) (im_freeblock st) \<and>
    reads_as st 1 T_DIR BSIZE (root_dots @ entries 2 files) \<and>
    (\<forall>k < length files. let c = concat (snd (files ! k)) in reads_as st (2 + k) T_FILE (length c) c)"
proof -
  from mkfs_parts[OF r] obtain st1 st2 st3 st4 st5 where a: "mkfs_ialloc T_DIR (wsect 1 sb_block empty_image) = Some (1, st1)"
    "iappend 1 (dirent_bytes 1 (cbytes ''.'' @ replicate 13 0)) st1 = Some st2"
    "iappend 1 (dirent_bytes 1 (cbytes ''..'' @ replicate 12 0)) st2 = Some st3"
    and b: "add_files 1 files st3 = Some st4" "fix_root_size 1 st4 = Some st5"
      "mkfs_balloc (im_freeblock st5) st5 = Some st" .
  let ?n = "2 + length files"
  define C where "C = added 2 files ((\<lambda>_. [])(1 := root_dots))"
  note M = mkfs_files[OF a]
  have A: "image_ok ?n C st4" "kept 2 st3 st4" "\<forall>k < length files. d_type (inode_at (of_nat (2 + k)) st4) = T_FILE"
    using add_files_ok[OF M(1) _ _ b(1)] n unfolding C_def by simp_all
  have sizes: "unat (d_size (inode_at (of_nat i) st4)) = length (C i)" if "i < ?n" for i using A(1) that unfolding image_ok_def by blast
  have C1: "C 1 = root_dots @ entries 2 files" by (simp add: C_def added_def)
  have len: "length (C 1) < BSIZE" "0 < length (C 1)"
    unfolding C1 using n by (simp_all add: root_dots_def dirent_bytes_def mk_dirent_def cbytes_def BSIZE_def NINODES_def)
  have n1: "1 < ?n" by simp
  note E = finish_ok[OF A(1) n1 len(1) b(2,3)] and F = finish_ok(1)[OF A(1) n1 len(1) b(2,3)]
  have f: "im_freeblock st \<le> FSSIZE" using A(1) E(2) by (simp add: image_ok_def)
  have L: "layout ?n (\<lambda>i. inode_at (of_nat i) st) (im_disk st) (im_freeblock st)" using F by (simp add: files_ok_def)
  have low: "im_disk st b = im_disk (wsect 1 sb_block empty_image) b" if "unat b < 32" for b
    using E(5)[OF that] A(2) M(4)[OF that] that by (simp add: kept_def)
  have "d_type (inode_at (of_nat 1) st4) = T_DIR" using A(2) M(3) unfolding kept_def by (metis of_nat_1 one_less_numeral_iff semiring_norm(76))
  then have "reads_as st 1 T_DIR BSIZE (C 1)"
    using E(4) len by (intro reads_asI[OF F _ f]) (auto simp: BSIZE_def MAXFILE_def NDIRECT_def NINDIRECT_def)
  moreover have "reads_as st (2 + k) T_FILE (length (C (2 + k))) (C (2 + k))" if k: "k < length files" for k
  proof -
    have e: "inode_at (of_nat (2 + k)) st = inode_at (of_nat (2 + k)) st4" by (rule E(3)) (use k in simp_all)
    have "length (C (2 + k)) \<le> MAXFILE * BSIZE" using F k by (auto simp: files_ok_def holds_def)
    moreover have "unat (d_size (inode_at (of_nat (2 + k)) st4)) = length (C (2 + k))"
      using sizes[of "2 + k"] k by (simp only: nat_add_left_cancel_less)
    ultimately show ?thesis using A(3) k by (intro reads_asI[OF F _ f], unfold e) simp_all
  qed
  moreover have "C (2 + k) = concat (snd (files ! k))" if "k < length files" for k using that by (simp add: C_def added_def)
  moreover have "hdr_n (im_disk st 2) = 0" "superblock_of (im_disk st 1) = mkfs_sb"
    using low[of 2] low[of 1] by (simp_all add: sb_block_read empty_image_def hdr_n_def bld32_def join32_def)
  moreover have "im_disk st 39 = bitmap_block (im_freeblock st)" using E(2,6) by simp
  ultimately show ?thesis
    using free_map[OF _ layout_free(2)[OF L]] L C1 f by (simp add: add.commute[of "length files"] Let_def)
qed

definition files_example :: "(byte list \<times> byte list list) list" where
  "files_example = [(cbytes ''_cat'', [[1, 2], [3]]), (cbytes ''README'', [])]"

theorem mkfs_image_witness:
  "\<exists>st. mkfs files_example = Some st \<and> superblock_of (im_disk st 1) = mkfs_sb \<and> reads_as st 2 T_FILE 3 [1, 2, 3] \<and>
     reads_as st 3 T_FILE 0 [] \<and> reads_as st 1 T_DIR BSIZE (root_dots @ entry 2 (cbytes ''_cat'') @ entry 3 (cbytes ''README''))"
proof -
  have n: "length files_example + 2 \<le> NINODES" by (simp add: files_example_def NINODES_def)
  have "\<exists>st. mkfs files_example = Some st"
    by (rule mkfs_succeeds[OF n])
      (simp_all add: files_example_def cbytes_def total_def nmeta_val FSSIZE_def)
  then obtain st where st: "mkfs files_example = Some st" ..
  note W = mkfs_image[OF st n]
  then have each: "let c = concat (snd (files_example ! k)) in reads_as st (2 + k) T_FILE (length c) c" if "k < length files_example" for k
    using that by blast
  have "reads_as st 2 T_FILE 3 [1, 2, 3]" "reads_as st 3 T_FILE 0 []"
    using each[of 0] each[of 1] by (simp_all add: files_example_def Let_def numeral_2_eq_2 numeral_3_eq_3)
  then show ?thesis using st W by (intro exI[of _ st]) (auto simp: files_example_def)
qed

end
