(* ===== verification/Spec2Isabelle.thy ===== *)
theory Spec2Isabelle
  imports Log_Admission Pipe_Spec Vm_Spec Sysfile Grep Users_Spec Fs_Data Console_Spec Sh Mp Trap Mkfs
begin

text \<open>
  \<^bold>\<open>A verification of an extended xv6.\<close> The program is a small Unix kernel for the x86 with a
  file system, extended by a table of users with permissions and a \<open>sudo\<close> mechanism and by a
  cache of directory names. This development models the machine-independent kernel, the builder of the
  file system image and some of the user programs, and proves the properties the parts rely on each other for.

  \<^bold>\<open>How the code is modelled.\<close> Kernel functions that can change state, panic or sleep are written in
  a state-and-halt monad (theory \<open>Prelude\<close>): a run either returns a value and the new state, or
  stops with a \<open>halt\<close>: a panic with its message, \<open>Sleeps\<close> on a channel, \<open>OutOfBounds\<close> where C has
  no defined behaviour, \<open>Diverges\<close> where a loop would not end. Total correctness is expressed by
  \<open>wp\<close>, so a theorem of the form \<open>wp f Q s\<close> says that \<open>f\<close> returns. The state grows by record
  extension in the order in which the code's modules depend on each other: memory and pages,
  processes, buffers, log, file system, pipes, open files, virtual memory, users and system
  calls, console; an operation is polymorphic in the extension, so a lower layer's theorem applies to
  every higher state. Machine integers are words of their C width; C \<open>int\<close>s that the code
  only counts with are \<open>int\<close>. Pointers to table entries are indices, pointers to pages are kernel
  addresses into one byte memory, and null is 0. A spin lock is held for the whole of each
  modelled operation and is therefore not part of the state (the locks themselves are in \<open>Spinlock\<close>); where a function gives up the processor
  in the middle, it has a form that stops there and says what is left to do.

  \<^bold>\<open>The parts.\<close>
  \<^item> \<open>CString\<close>: \<^verbatim>\<open>string.c\<close> and the string instructions of \<^verbatim>\<open>x86.h\<close>. \<open>memmove\<close> is right for every
    overlap, and the word-at-a-time \<open>memset\<close> agrees with the byte loop.
  \<^item> \<open>Namecache\<close>: \<^verbatim>\<open>namecache.c\<close>. Lookup, insertion and invalidation refine operations on a map from
    names to inode numbers; a key survives the next 31 insertions.
  \<^item> \<open>Kalloc\<close>: \<^verbatim>\<open>kalloc.c\<close>, the free list threaded through the free pages. The locale
    \<open>page_allocator\<close> is its contract.
  \<^item> \<open>Ptable\<close>, \<open>Sleeplock\<close>: process slots, sleeping, waking and killing of \<^verbatim>\<open>proc.c\<close>, and
    \<^verbatim>\<open>sleeplock.c\<close>. Process identifiers of live processes are distinct; \<open>wakeup\<close> is exact.
  \<^item> \<open>Dll\<close>, \<open>Bio\<close>: the least-recently-used ring of \<^verbatim>\<open>bio.c\<close> with its pointers, over the memory disk of
    \<^verbatim>\<open>memide.c\<close>. The ring refines a sequence of buffers; \<open>bread\<close> returns current contents.
  \<^item> \<open>Log\<close>, \<open>Log_Spec\<close>, \<open>Crash\<close>, \<open>Log_Admission\<close>: \<^verbatim>\<open>log.c\<close>. The disk records the sequence of its writes;
    cutting it anywhere and recovering gives all of a transaction or nothing of it, and recovery may be cut
    itself. Admission control is sound for a log with room for the header, and not for the size the image
    builder writes.
  \<^item> \<open>Fs\<close>, \<open>Block_Store\<close>, \<open>Fs_Spec\<close>, \<open>Fs_Data\<close>: the lower half of \<^verbatim>\<open>fs.c\<close>. The locale \<open>block_store\<close> is what it relies on from
    cache and log. The block allocator finds the first free block and never frees one twice; the on-disk
    inode format can be read back; \<open>readi\<close> and \<open>writei\<close> read and replace exactly the bytes of a file they should.
  \<^item> \<open>Dir\<close>: directories and path names of \<^verbatim>\<open>fs.c\<close>.
  \<^item> \<open>Pipe\<close>, \<open>Pipe_Spec\<close>: \<^verbatim>\<open>pipe.c\<close>. The ring interprets the locale \<open>bounded_queue\<close>; bytes stay in order under
    every interleaving, and no wakeup is lost except by a killed writer.
  \<^item> \<open>File\<close>: \<^verbatim>\<open>file.c\<close>, with writes split into bounded transactions.
  \<^item> \<open>Vm\<close>, \<open>Vm_Spec\<close>: \<^verbatim>\<open>vm.c\<close>, page tables as words of byte memory, and the processor's translation.
    \<open>mappages\<close> establishes the translations it should; releasing memory ends.
  \<^item> \<open>Users\<close>, \<open>Proc\<close>, \<open>Syscall\<close>, \<open>Exec\<close>, \<open>Sysfile\<close>: \<^verbatim>\<open>users.c\<close>, the life cycle of processes, fetching system call
    arguments through the page table, \<^verbatim>\<open>exec.c\<close>, and all calls of \<^verbatim>\<open>sysproc.c\<close> and \<^verbatim>\<open>sysfile.c\<close>.
  \<^item> \<open>Users_Spec\<close>: what the identity calls let a process become, as an invariant of every sequence of them.
  \<^item> \<open>Spinlock\<close>: \<^verbatim>\<open>spinlock.c\<close> with the nesting of disabled interrupts. At most one processor holds a lock under every
    interleaving of the accesses to it.
  \<^item> \<open>Format\<close>: number and format routines of \<^verbatim>\<open>console.c\<close>, \<^verbatim>\<open>printf.c\<close> and \<^verbatim>\<open>ulib.c\<close>. Printed numbers can be read back.
  \<^item> \<open>Kbd\<close>, \<open>Console\<close>, \<open>Console_Spec\<close>: \<^verbatim>\<open>kbd.c\<close>, \<^verbatim>\<open>console.c\<close> and the character routines of \<^verbatim>\<open>uart.c\<close>, with the listings of
    processes and users they print. The line discipline refines a queue of finished lines and a line being edited.
  \<^item> \<open>Trap\<close>: the dispatch of system calls and traps, \<^verbatim>\<open>syscall.c\<close> and \<^verbatim>\<open>trap.c\<close>, over all of the above. A killed process does not
    get back to user code.
  \<^item> \<open>Mp\<close>: \<^verbatim>\<open>mp.c\<close>, the search for the other processors. An entry of unknown type makes it hang.
  \<^item> \<open>Mkfs\<close>: the image builder \<^verbatim>\<open>mkfs.c\<close>. What the kernel relies on holds of the image: geometry, empty log, free map, inodes that
    share no block, and the contents of the files in the form in which \<open>Fs_Data\<close> reads them.
  \<^item> \<open>Sh\<close>: the parser of the shell \<^verbatim>\<open>sh.c\<close>. Every line gives a command that is well formed, or a syntax error.
  \<^item> \<open>Grep\<close>: the user program \<^verbatim>\<open>grep.c\<close>. The matcher is equivalent to a denotation of patterns.

  \<^bold>\<open>Parameters.\<close> Linker symbols (\<open>end\<close>, \<open>data\<close>, the addresses of \<open>trapret\<close> and \<open>forkret\<close>) are fields of
  the state. The functions of the device switch are an argument of the operations that call them; \<open>Trap\<close> gives them those of the
  console. What the firmware has left in memory is the memory of \<open>Mp\<close>; the files given to the image builder are its argument.

  \<^bold>\<open>Loops.\<close> Loops over tables are searches of lists, and loops over memory are recursions with a termination proof. The
  loops that can run forever in the machine's arithmetic yield \<open>Diverges\<close> exactly there (the scan of the buffer ring and \<open>deallocuvm\<close>,
  for which theorems exclude it, and the table of processors, where it happens). Only the mutually recursive parser of the shell uses fuel:
  four levels for each character of the line and four more, which is proved to be enough.

  \<^bold>\<open>Not modelled.\<close> Assembly (\<^verbatim>\<open>entry.S\<close>, \<^verbatim>\<open>swtch.S\<close>, \<^verbatim>\<open>trapasm.S\<close>, boot blocks), the IDE driver \<^verbatim>\<open>ide.c\<close> for a real disk, in whose
  place the memory disk stands, the interrupt controllers (\<^verbatim>\<open>lapic.c\<close>, \<^verbatim>\<open>ioapic.c\<close>, \<^verbatim>\<open>picirq.c\<close>), the set-up of the serial port, of segments and of
  the interrupt table, and the start of the other processors in \<^verbatim>\<open>main.c\<close> are programming of hardware registers. The user-level allocator
  \<^verbatim>\<open>umalloc.c\<close> works on pointers into the memory of a user program, which has no model here. The rest of the shell,
  the other user programs and the tests are sequences of the system calls that are modelled.
\<close>

end
